(* ===== verification/Prelude.thy ===== *)
theory Prelude
  imports Main
    "HOL-Library.Word"
    "HOL-Library.Monad_Syntax"
    "HOL-Library.Char_ord"
    "HOL-Library.List_Lexorder"
begin

text \<open>
  Shared vocabulary of the development.

  A function whose C++ original can stop the process (a failed \<^verbatim>\<open>assert\<close>, an exception
  nobody catches, a null dereference) returns an \<open>option\<close>: \<open>None\<close> is "the process
  does not go on", and the \<open>do\<close> notation of the option monad sequences the steps the way
  the statements are sequenced. Bytes are values of type \<open>char\<close> (8 bits), a
  \<^verbatim>\<open>std::string\<close> or a byte range is a \<open>string\<close>. A \<^verbatim>\<open>size_t\<close> is a
  \<open>nat\<close>, and every subtraction of two of them is \<open>size_sub\<close>, which wraps.
\<close>

named_theorems view_simps \<open>what an operation does to the bytes a component shows\<close>
named_theorems inv_intros \<open>an operation keeps its component's invariant\<close>

subsection \<open>Aborting computations\<close>

definition assertion :: "bool \<Rightarrow> unit option" where
  "assertion P = (if P then Some () else None)"

lemma assertion_simps [simp]:
  "assertion True = Some ()" "assertion False = None"
  by (simp_all add: assertion_def)

lemma assertion_eq_Some [simp]: "assertion P = Some u \<longleftrightarrow> P"
  by (simp add: assertion_def)

lemma assertion_eq_None [simp]: "assertion P = None \<longleftrightarrow> \<not> P"
  by (simp add: assertion_def)

lemma assertion_bind_Some [simp]:
  "Option.bind (assertion P) f = Some x \<longleftrightarrow> P \<and> f () = Some x"
  by (simp add: assertion_def)

lemma assertion_bind_None:
  "Option.bind (assertion P) f = None \<longleftrightarrow> \<not> P \<or> f () = None"
  by (simp add: assertion_def)

subsection \<open>Unsigned subtraction\<close>

definition size_sub :: "nat \<Rightarrow> nat \<Rightarrow> nat" where
  "size_sub a b = (if b \<le> a then a - b else a + 2 ^ 64 - b)"

lemma size_sub_le [simp]: "b \<le> a \<Longrightarrow> size_sub a b = a - b"
  by (simp add: size_sub_def)

subsection \<open>Ranges of a byte array\<close>

definition rng :: "nat \<Rightarrow> nat \<Rightarrow> 'a list \<Rightarrow> 'a list" where
  "rng i j xs = take (j - i) (drop i xs)"

text \<open>\<^verbatim>\<open>std::copy\<close> onto position \<open>i\<close>.\<close>

definition overwrite :: "nat \<Rightarrow> 'a list \<Rightarrow> 'a list \<Rightarrow> 'a list" where
  "overwrite i ys xs = take i xs @ ys @ drop (i + length ys) xs"

text \<open>\<^verbatim>\<open>std::vector<char>::resize\<close>.\<close>

definition resize :: "nat \<Rightarrow> string \<Rightarrow> string" where
  "resize n xs = take n xs @ replicate (n - length xs) (CHR 0x00)"

lemma length_rng: "i \<le> j \<Longrightarrow> j \<le> length xs \<Longrightarrow> length (rng i j xs) = j - i"
  by (simp add: rng_def)

lemma rng_self [simp]: "rng i i xs = []"
  by (simp add: rng_def)

lemma length_overwrite: "i + length ys \<le> length xs \<Longrightarrow> length (overwrite i ys xs) = length xs"
  by (simp add: overwrite_def)

lemma length_resize [simp]: "length (resize n xs) = n"
  by (simp add: resize_def)

lemma rng_resize: "j \<le> length xs \<Longrightarrow> j \<le> n \<Longrightarrow> rng i j (resize n xs) = rng i j xs"
  by (auto simp: rng_def resize_def drop_take min_def)

lemma rng_overwrite_at:
  "i + length ys \<le> length xs \<Longrightarrow> rng i (i + length ys) (overwrite i ys xs) = ys"
  by (simp add: rng_def overwrite_def)

lemma rng_join:
  "i \<le> j \<Longrightarrow> j \<le> k \<Longrightarrow> rng i j xs @ rng j k xs = rng i k xs"
  using take_add [of "j - i" "k - j" "drop i xs"] by (simp add: rng_def)

lemma rng_overwrite_before:
  "j \<le> i \<Longrightarrow> i \<le> length xs \<Longrightarrow> rng k j (overwrite i ys xs) = rng k j xs"
  by (auto simp: rng_def overwrite_def drop_take min_def)

lemma rng_overwrite_after:
  "i + length ys \<le> k \<Longrightarrow> i + length ys \<le> length xs \<Longrightarrow> rng k j (overwrite i ys xs) = rng k j xs"
  by (auto simp: rng_def overwrite_def min_def)

lemma rng_append_overwrite:
  assumes "i \<le> j" and "j + length ys \<le> length xs"
  shows "rng i (j + length ys) (overwrite j ys xs) = rng i j xs @ ys"
  using assms rng_join [of i j "j + length ys" "overwrite j ys xs"]
  by (simp add: rng_overwrite_before rng_overwrite_at)

lemma rng_prepend_overwrite:
  assumes "length ys \<le> i" and "i \<le> j" and "j \<le> length xs"
  shows "rng (i - length ys) j (overwrite (i - length ys) ys xs) = ys @ rng i j xs"
  using assms rng_join [of "i - length ys" i j "overwrite (i - length ys) ys xs"]
    rng_overwrite_at [of "i - length ys" ys xs]
  by (simp add: rng_overwrite_after)

lemma drop_rng: "i + n \<le> j \<Longrightarrow> drop n (rng i j xs) = rng (i + n) j xs"
  by (simp add: rng_def drop_take add.commute diff_diff_add)

lemma take_rng: "i + n \<le> j \<Longrightarrow> take n (rng i j xs) = rng i (i + n) xs"
  by (simp add: rng_def)

subsection \<open>Searching\<close>

text \<open>
  \<open>search_seq pat xs\<close> is \<^verbatim>\<open>std::search\<close>: the offset of the first occurrence, \<open>None\<close>
  where the C++ returns the end of the range. \<open>find_char c xs\<close> is \<^verbatim>\<open>std::find\<close>: the offset
  of the first \<open>c\<close>, the length of the range when there is none.
\<close>

fun search_seq :: "'a list \<Rightarrow> 'a list \<Rightarrow> nat option" where
  "search_seq pat [] = (if pat = [] then Some 0 else None)"
| "search_seq pat (x # xs) =
     (if take (length pat) (x # xs) = pat then Some 0 else map_option Suc (search_seq pat xs))"

fun find_char :: "char \<Rightarrow> string \<Rightarrow> nat" where
  "find_char c [] = 0"
| "find_char c (x # xs) = (if x = c then 0 else Suc (find_char c xs))"

lemma take_Cons_append: "n \<le> Suc (length xs) \<Longrightarrow> take n (x # xs @ ys) = take n (x # xs)"
  by (cases n) auto

lemma search_seq_Some:
  "search_seq pat xs = Some i \<Longrightarrow> i + length pat \<le> length xs \<and> take (length pat) (drop i xs) = pat"
proof (induction pat xs arbitrary: i rule: search_seq.induct)
  case (1 pat)
  then show ?case by (auto split: if_splits)
next
  case (2 pat x xs)
  show ?case
  proof (cases "take (length pat) (x # xs) = pat")
    case True
    then have "length pat \<le> length (x # xs)" by (metis length_take min.cobounded1)
    with True 2(2) show ?thesis by simp
  next
    case False
    with 2 show ?thesis by auto
  qed
qed

lemma search_seq_append:
  "search_seq pat xs = Some i \<Longrightarrow> search_seq pat (xs @ ys) = Some i"
proof (induction pat xs arbitrary: i rule: search_seq.induct)
  case (1 pat)
  then show ?case by (cases ys) (auto split: if_splits)
next
  case (2 pat x xs)
  show ?case
  proof (cases "take (length pat) (x # xs) = pat")
    case True
    then have "length pat \<le> length (x # xs)" by (metis length_take min.cobounded1)
    then have "take (length pat) ((x # xs) @ ys) = take (length pat) (x # xs)"
      by (simp add: take_Cons_append)
    with True 2(2) show ?thesis by simp
  next
    case False
    with 2(2) obtain j where j: "search_seq pat xs = Some j" "i = Suc j" by auto
    from j(1) have "length pat \<le> length xs" using search_seq_Some by fastforce
    then have "take (length pat) ((x # xs) @ ys) = take (length pat) (x # xs)"
      by (simp add: take_Cons_append)
    moreover have "search_seq pat (xs @ ys) = Some j" using 2(1)[OF False j(1)] .
    ultimately show ?thesis using False j(2) by simp
  qed
qed

lemma search_seq_skip:
  "search_seq pat xs = None \<Longrightarrow> search_seq pat (xs @ ys) = Some i \<Longrightarrow> length xs < i + length pat"
proof (induction xs arbitrary: i)
  case Nil
  then show ?case by (auto split: if_splits)
next
  case (Cons x xs)
  show ?case
  proof (cases "i = 0")
    case True
    show ?thesis
    proof (rule ccontr)
      assume "\<not> length (x # xs) < i + length pat"
      with True have l: "length pat \<le> length (x # xs)" by simp
      from Cons.prems(2) True have "take (length pat) ((x # xs) @ ys) = pat"
        using search_seq_Some [OF Cons.prems(2)] by simp
      with l Cons.prems(1) show False by (simp add: take_Cons_append split: if_splits)
    qed
  next
    case False
    with Cons.prems obtain j where "search_seq pat (xs @ ys) = Some j" "i = Suc j"
      by (auto split: if_splits)
    with Cons.IH [of j] Cons.prems(1) show ?thesis by (auto split: if_splits)
  qed
qed

lemma find_char_le: "find_char c xs \<le> length xs"
  by (induction xs) auto

lemma find_char_append_in:
  "find_char c xs < length xs \<Longrightarrow> find_char c (xs @ ys) = find_char c xs"
  by (induction xs) (auto split: if_splits)

lemma find_char_at: "c \<notin> set xs \<Longrightarrow> find_char c (xs @ c # ys) = length xs"
  by (induction xs) auto

lemma find_char_none: "c \<notin> set xs \<Longrightarrow> find_char c xs = length xs"
  by (induction xs) auto

lemma find_char_eq_length: "find_char c xs = length xs \<longleftrightarrow> c \<notin> set xs"
  by (induction xs) auto

lemma find_char_less: "find_char c xs < length xs \<longleftrightarrow> c \<in> set xs"
  using find_char_le find_char_eq_length by (metis le_less order.strict_iff_order)

lemma find_char_take: "c \<notin> set (take (find_char c xs) xs)"
  by (induction xs) auto

lemma find_char_nth: "find_char c xs < length xs \<Longrightarrow> xs ! find_char c xs = c"
  by (induction xs) auto

subsection \<open>Big-endian byte strings\<close>

primrec be_encode :: "nat \<Rightarrow> nat \<Rightarrow> string" where
  "be_encode 0 v = []"
| "be_encode (Suc k) v = be_encode k (v div 256) @ [char_of v]"

definition be_decode :: "string \<Rightarrow> nat" where
  "be_decode s = foldl (\<lambda>acc c. acc * 256 + of_char c) 0 s"

lemma length_be_encode [simp]: "length (be_encode k v) = k"
  by (induction k arbitrary: v) simp_all

lemma be_decode_encode: "be_decode (be_encode k v) = v mod 256 ^ k"
proof (induction k arbitrary: v)
  case 0
  then show ?case by (simp add: be_decode_def)
next
  case (Suc k)
  have "be_decode (be_encode (Suc k) v) = be_decode (be_encode k (v div 256)) * 256 + v mod 256"
    by (simp add: be_decode_def)
  also have "\<dots> = (v div 256) mod 256 ^ k * 256 + v mod 256"
    by (simp add: Suc)
  also have "\<dots> = v mod 256 ^ Suc k"
    by (simp add: mod_mult2_eq mult.commute)
  finally show ?case .
qed

subsection \<open>Decimal numerals\<close>

definition digit :: "nat \<Rightarrow> char" where
  "digit d = char_of (48 + d)"

fun dec :: "nat \<Rightarrow> string" where
  "dec n = (if n < 10 then [digit n] else dec (n div 10) @ [digit (n mod 10)])"

definition dec_int :: "int \<Rightarrow> string" where
  "dec_int i = (if i < 0 then CHR ''-'' # dec (nat (- i)) else dec (nat i))"

definition dec_value :: "string \<Rightarrow> nat" where
  "dec_value s = foldl (\<lambda>acc c. acc * 10 + (of_char c - 48)) 0 s"

declare dec.simps [simp del]

lemma dec_value_append: "dec_value (s @ [c]) = dec_value s * 10 + (of_char c - 48)"
  by (simp add: dec_value_def)

lemma of_char_digit [simp]: "d < 10 \<Longrightarrow> of_char (digit d) = 48 + d"
  by (simp add: digit_def)

lemma dec_value_dec [simp]: "dec_value (dec n) = n"
proof (induction n rule: dec.induct)
  case (1 n)
  show ?case
  proof (cases "n < 10")
    case True
    then show ?thesis by (simp add: dec.simps [of n] dec_value_def)
  next
    case False
    then show ?thesis using 1 by (simp add: dec.simps [of n] dec_value_append del: dec.simps)
  qed
qed

lemma length_dec: "n < 10 ^ k \<Longrightarrow> 0 < k \<Longrightarrow> length (dec n) \<le> k"
proof (induction n arbitrary: k rule: dec.induct)
  case (1 n)
  show ?case
  proof (cases "n < 10")
    case True
    then show ?thesis using 1(3) by (simp add: dec.simps [of n])
  next
    case False
    obtain j where k: "k = Suc j" using 1(3) by (cases k) auto
    have "n div 10 < 10 ^ j" using 1(2) k by (simp add: less_mult_imp_div_less mult.commute)
    moreover have "0 < j" using 1(2) False k by (cases j) auto
    ultimately have "length (dec (n div 10)) \<le> j" using 1(1) False by blast
    then show ?thesis using False k by (simp add: dec.simps [of n])
  qed
qed

definition is_digit :: "char \<Rightarrow> bool" where
  "is_digit c \<longleftrightarrow> 48 \<le> (of_char c :: nat) \<and> (of_char c :: nat) \<le> 57"

lemma is_digit_digit [simp]: "d < 10 \<Longrightarrow> is_digit (digit d)"
  by (simp add: is_digit_def)

lemma dec_chars: "\<forall>c \<in> set (dec n). is_digit c"
proof (induction n rule: dec.induct)
  case (1 n)
  then show ?case by (simp add: dec.simps [of n])
qed

lemma dec_nonempty [simp]: "dec n \<noteq> []"
  by (subst dec.simps) simp

lemma unat_bound: "unat (x :: 'w::len word) < 2 ^ LENGTH('w)"
  using unsigned_less [where ?'a = nat and w = x] by simp

lemma unat16_bound: "unat (x :: 16 word) < 65536"
  using unat_bound [of x] by simp

lemma unat32_bound: "unat (x :: 32 word) < 4294967296"
  using unat_bound [of x] by simp

end
