(* ===== verification/Sorted_Map.thy ===== *)
theory Sorted_Map
  imports Prelude
begin

text \<open>
  \<^verbatim>\<open>std::map<std::string, std::string>\<close> as the HTTP classes use it: insertion that replaces,
  lookup, and iteration in the order of the keys. The interface is the locale \<open>string_map\<close>; the
  code's map is the association list sorted by key, bytes compared as unsigned.
\<close>

type_synonym smap = "(string \<times> string) list"

fun smap_get :: "string \<Rightarrow> smap \<Rightarrow> string option" where
  "smap_get k [] = None"
| "smap_get k ((k', v) # m) = (if k = k' then Some v else smap_get k m)"

fun smap_put :: "string \<Rightarrow> string \<Rightarrow> smap \<Rightarrow> smap" where
  "smap_put k v [] = [(k, v)]"
| "smap_put k v ((k', v') # m) =
     (if k < k' then (k, v) # (k', v') # m
      else if k = k' then (k, v) # m
      else (k', v') # smap_put k v m)"

definition smap_inv :: "smap \<Rightarrow> bool" where
  "smap_inv m \<longleftrightarrow> sorted_wrt (<) (map fst m)"

locale string_map =
  fixes invar :: "'m \<Rightarrow> bool"
    and empty :: 'm
    and get :: "string \<Rightarrow> 'm \<Rightarrow> string option"
    and put :: "string \<Rightarrow> string \<Rightarrow> 'm \<Rightarrow> 'm"
    and entries :: "'m \<Rightarrow> (string \<times> string) list"
  assumes empty_law: "invar empty" "get k empty = None"
    and put_law: "invar m \<Longrightarrow> invar (put k v m)"
      "invar m \<Longrightarrow> get k' (put k v m) = (if k' = k then Some v else get k' m)"
    and entries_law: "invar m \<Longrightarrow> sorted_wrt (<) (map fst (entries m))"
      "invar m \<Longrightarrow> (k, v) \<in> set (entries m) \<longleftrightarrow> get k m = Some v"
begin

text \<open>Storing a list of pairs one after the other: the last value of a key wins.\<close>

lemma put_all_get:
  assumes "invar m"
  shows "invar (foldl (\<lambda>m (k, v). put k v m) m kvs) \<and>
    get k (foldl (\<lambda>m (k, v). put k v m) m kvs) =
      (case map_of (rev kvs) k of Some v \<Rightarrow> Some v | None \<Rightarrow> get k m)"
  using assms
proof (induction kvs arbitrary: m)
  case Nil
  then show ?case by simp
next
  case (Cons x kvs)
  obtain a b where x: "x = (a, b)" by (cases x)
  have "invar (put a b m)" by (rule put_law(1) [OF Cons.prems])
  from Cons.IH [OF this] show ?case
    using put_law(2) [OF Cons.prems] by (auto simp: x map_add_def split: option.splits)
qed

lemma entries_distinct: "invar m \<Longrightarrow> distinct (map fst (entries m))"
  using entries_law(1) strict_sorted_iff by blast

end

lemma smap_put_keys: "set (map fst (smap_put k v m)) = insert k (set (map fst m))"
  by (induction k v m rule: smap_put.induct) auto

lemma smap_put_inv: "smap_inv m \<Longrightarrow> smap_inv (smap_put k v m)"
proof (induction k v m rule: smap_put.induct)
  case (1 k v)
  then show ?case by (simp add: smap_inv_def)
next
  case (2 k v k' v' m)
  then show ?case using smap_put_keys [of k v m]
    by (auto simp: smap_inv_def strict_sorted_iff)
qed

lemma smap_get_none: "smap_inv ((k', v) # m) \<Longrightarrow> k \<le> k' \<Longrightarrow> smap_get k m = None"
proof -
  assume "smap_inv ((k', v) # m)" "k \<le> k'"
  then have "k \<notin> set (map fst m)" by (auto simp: smap_inv_def)
  then show ?thesis by (induction m rule: smap_get.induct) auto
qed

lemma smap_get_put: "smap_get k' (smap_put k v m) = (if k' = k then Some v else smap_get k' m)"
  by (induction k v m rule: smap_put.induct) auto

lemma smap_entries: "smap_inv m \<Longrightarrow> (k, v) \<in> set m \<longleftrightarrow> smap_get k m = Some v"
proof (induction k m rule: smap_get.induct)
  case (1 k)
  then show ?case by simp
next
  case (2 k k' v' m)
  moreover from "2.prems" have "smap_inv m" by (simp add: smap_inv_def)
  moreover from "2.prems" have "(k', v) \<notin> set m" by (force simp: smap_inv_def)
  ultimately show ?case by auto
qed

interpretation sm: string_map smap_inv "[]" smap_get smap_put "\<lambda>m. m"
  by unfold_locales
    (simp_all add: smap_put_inv smap_get_put smap_entries, simp_all add: smap_inv_def)

end
