(* ===== verification/HttpRequest.thy ===== *)
theory HttpRequest
  imports Sorted_Map
begin

text \<open>
  \<^verbatim>\<open>mutlithread/multiThread/http/HttpRequest.{h,cpp}\<close>: the request the parser fills in. A
  pair of pointers into the buffer is the string between them; the header line of
  \<^verbatim>\<open>addHeader\<close> is given with the offset of its colon.
\<close>

datatype http_method = kInvalid | kGet | kPost | kHead | kPut | kDelete

record http_request =
  hr_method :: http_method
  hr_path :: string
  hr_query :: string
  hr_receiveTime :: int
  hr_headers :: smap

definition HttpRequest_new :: http_request where
  "HttpRequest_new = \<lparr>hr_method = kInvalid, hr_path = [], hr_query = [], hr_receiveTime = 0,
     hr_headers = []\<rparr>"

definition setMethod :: "string \<Rightarrow> http_request \<Rightarrow> (bool \<times> http_request) option" where
  "setMethod m r = do {
     assertion (hr_method r = kInvalid);
     let meth = (if m = ''GET'' then kGet
                 else if m = ''POST'' then kPost
                 else if m = ''HEAD'' then kHead
                 else if m = ''PUT'' then kPut
                 else if m = ''DELETE'' then kDelete
                 else kInvalid);
     let r' = r\<lparr>hr_method := meth\<rparr>;
     Some (hr_method r' \<noteq> kInvalid, r') }"

fun methodString :: "http_method \<Rightarrow> string" where
  "methodString kGet = ''GET''"
| "methodString kPost = ''POST''"
| "methodString kHead = ''HEAD''"
| "methodString kPut = ''PUT''"
| "methodString kDelete = ''DELETE''"
| "methodString kInvalid = ''UNKNOWN''"

definition setPath :: "string \<Rightarrow> http_request \<Rightarrow> http_request" where
  "setPath s r = r\<lparr>hr_path := s\<rparr>"

definition setQuery :: "string \<Rightarrow> http_request \<Rightarrow> http_request" where
  "setQuery s r = r\<lparr>hr_query := s\<rparr>"

definition setReceiveTime :: "int \<Rightarrow> http_request \<Rightarrow> http_request" where
  "setReceiveTime t r = r\<lparr>hr_receiveTime := t\<rparr>"

text \<open>\<^verbatim>\<open>isspace\<close> in the C locale.\<close>

definition isspace :: "char \<Rightarrow> bool" where
  "isspace c \<longleftrightarrow> c \<in> {CHR 0x20, CHR 0x09, CHR 0x0A, CHR 0x0B, CHR 0x0C, CHR 0x0D}"

definition strip_left :: "string \<Rightarrow> string" where
  "strip_left s = dropWhile isspace s"

definition strip_right :: "string \<Rightarrow> string" where
  "strip_right s = rev (dropWhile isspace (rev s))"

definition addHeader :: "string \<Rightarrow> nat \<Rightarrow> http_request \<Rightarrow> http_request" where
  "addHeader line colon r =
     (let field = take colon line;
          value = strip_right (strip_left (drop (colon + 1) line))
      in r\<lparr>hr_headers := smap_put field value (hr_headers r)\<rparr>)"

definition getHeader :: "string \<Rightarrow> http_request \<Rightarrow> string" where
  "getHeader field r = (case smap_get field (hr_headers r) of Some v \<Rightarrow> v | None \<Rightarrow> [])"

definition swap_requests :: "http_request \<Rightarrow> http_request \<Rightarrow> http_request \<times> http_request" where
  "swap_requests this that =
     (this\<lparr>hr_method := hr_method that, hr_path := hr_path that, hr_query := hr_query that,
           hr_receiveTime := hr_receiveTime that, hr_headers := hr_headers that\<rparr>,
      that\<lparr>hr_method := hr_method this, hr_path := hr_path this, hr_query := hr_query this,
           hr_receiveTime := hr_receiveTime this, hr_headers := hr_headers this\<rparr>)"

subsection \<open>Facts\<close>

lemma methodString_inj: "methodString m = methodString m' \<longleftrightarrow> m = m'"
  by (cases m; cases m') simp_all

lemma setMethod_methodString:
  "hr_method r = kInvalid \<Longrightarrow> m \<noteq> kInvalid \<Longrightarrow>
   setMethod (methodString m) r = Some (True, r\<lparr>hr_method := m\<rparr>)"
  by (cases m) (simp_all add: setMethod_def Let_def)

lemma setMethod_abort: "setMethod m r = None \<longleftrightarrow> hr_method r \<noteq> kInvalid"
  by (auto simp: setMethod_def Let_def assertion_bind_None)

lemma methodString_no_space: "CHR '' '' \<notin> set (methodString m)"
  by (cases m) simp_all

lemma strip_left_id: "s = [] \<or> \<not> isspace (hd s) \<Longrightarrow> strip_left s = s"
  by (cases s) (auto simp: strip_left_def)

lemma strip_right_id: "s = [] \<or> \<not> isspace (last s) \<Longrightarrow> strip_right s = s"
  by (cases s rule: rev_cases) (auto simp: strip_right_def)

lemma strip_left_space: "strip_left (CHR '' '' # s) = strip_left s"
  by (simp add: strip_left_def isspace_def)

lemma swap_requests_swaps: "swap_requests a b = (b, a)"
  by (simp add: swap_requests_def)

lemma getHeader_addHeader:
  "getHeader f (addHeader line colon r) =
   (if f = take colon line then strip_right (strip_left (drop (colon + 1) line)) else getHeader f r)"
  by (simp add: getHeader_def addHeader_def smap_get_put)

lemma addHeader_inv [inv_intros]: "smap_inv (hr_headers r) \<Longrightarrow> smap_inv (hr_headers (addHeader l c r))"
  by (simp add: addHeader_def smap_put_inv)

end
