(* ===== verification/Byte_Queue.thy ===== *)
theory Byte_Queue
  imports Prelude
begin

text \<open>
  The contract of a byte queue: bytes are pushed at the back and popped from the front, and
  \<open>view\<close> shows what is queued. The connection and the HTTP layer rely on nothing else of
  \<^verbatim>\<open>net/Buffer\<close>; the theory \<open>Buffer\<close> interprets the contract on the code's buffer.
\<close>

datatype qop = Push string | Pop nat

fun q_run :: "(string \<Rightarrow> 'b \<Rightarrow> 'b option) \<Rightarrow> (nat \<Rightarrow> 'b \<Rightarrow> 'b option) \<Rightarrow> ('b \<Rightarrow> string)
    \<Rightarrow> qop list \<Rightarrow> 'b \<Rightarrow> (string \<times> 'b) option" where
  "q_run push pop view [] b = Some ([], b)"
| "q_run push pop view (Push s # ops) b = do { b' \<leftarrow> push s b; q_run push pop view ops b' }"
| "q_run push pop view (Pop n # ops) b =
     do { b' \<leftarrow> pop n b; (out, b'') \<leftarrow> q_run push pop view ops b'; Some (take n (view b) @ out, b'') }"

text \<open>No pop asks for more than is queued when it runs, starting from \<open>n\<close> queued bytes.\<close>

fun ops_ok :: "qop list \<Rightarrow> nat \<Rightarrow> bool" where
  "ops_ok [] n = True"
| "ops_ok (Push s # ops) n = ops_ok ops (n + length s)"
| "ops_ok (Pop k # ops) n = (k \<le> n \<and> ops_ok ops (n - k))"

fun pushed :: "qop list \<Rightarrow> string" where
  "pushed [] = []"
| "pushed (Push s # ops) = s @ pushed ops"
| "pushed (Pop n # ops) = pushed ops"

fun push_list :: "(string \<Rightarrow> 'b \<Rightarrow> 'b option) \<Rightarrow> string list \<Rightarrow> 'b \<Rightarrow> 'b option" where
  "push_list push [] b = Some b"
| "push_list push (s # ss) b = do { b' \<leftarrow> push s b; push_list push ss b' }"

locale byte_queue =
  fixes invar :: "'b \<Rightarrow> bool"
    and view :: "'b \<Rightarrow> string"
    and push :: "string \<Rightarrow> 'b \<Rightarrow> 'b option"
    and pop :: "nat \<Rightarrow> 'b \<Rightarrow> 'b option"
  assumes push_law: "invar b \<Longrightarrow> \<exists>b'. push s b = Some b' \<and> invar b' \<and> view b' = view b @ s"
    and pop_law: "invar b \<Longrightarrow> n \<le> length (view b) \<Longrightarrow>
      \<exists>b'. pop n b = Some b' \<and> invar b' \<and> view b' = drop n (view b)"
begin

text \<open>Nothing is lost, duplicated or reordered: what came out followed by what is left is
  what was there followed by what was pushed.\<close>

lemma fifo:
  assumes "invar b" and "ops_ok ops (length (view b))"
  shows "\<exists>out b'. q_run push pop view ops b = Some (out, b') \<and> invar b' \<and>
    out @ view b' = view b @ pushed ops"
  using assms
proof (induction ops arbitrary: b)
  case Nil
  then show ?case by simp
next
  case (Cons x ops)
  show ?case
  proof (cases x)
    case (Push s)
    obtain b' where b': "push s b = Some b'" "invar b'" "view b' = view b @ s"
      using push_law [OF Cons.prems(1)] by blast
    then show ?thesis using Cons.IH [of b'] Cons.prems Push by auto
  next
    case (Pop n)
    with Cons.prems obtain b' where b': "pop n b = Some b'" "invar b'" "view b' = drop n (view b)"
      using pop_law [OF Cons.prems(1)] by auto
    with Cons.IH [of b'] Cons.prems Pop obtain out b'' where
      "q_run push pop view ops b' = Some (out, b'')" "invar b''" "out @ view b'' = view b' @ pushed ops"
      by auto
    moreover from this(3) b'(3) have "(take n (view b) @ out) @ view b'' = view b @ pushed ops"
      by (simp flip: append_assoc) simp
    ultimately show ?thesis using Pop b'(1) by auto
  qed
qed

lemma push_list_law:
  "invar b \<Longrightarrow> \<exists>b'. push_list push ss b = Some b' \<and> invar b' \<and> view b' = view b @ concat ss"
proof (induction ss arbitrary: b)
  case Nil
  then show ?case by simp
next
  case (Cons s ss)
  obtain b' where "push s b = Some b'" "invar b'" "view b' = view b @ s"
    using push_law [OF Cons.prems] by blast
  then show ?case using Cons.IH [of b'] by auto
qed

end

end
