(* ===== verification/Buffer.thy ===== *)
theory Buffer
  imports Byte_Queue
begin

text \<open>
  \<^verbatim>\<open>mutlithread/multiThread/net/Buffer.{h,cpp}\<close>: the byte buffer every connection reads into
  and writes from. A pointer into the buffer is its offset from \<^verbatim>\<open>begin()\<close>; the vector's
  memory is \<open>buf_data\<close>. \<open>buf_inv\<close> is the invariant \<open>readerIndex \<le> writerIndex \<le> size\<close> with room
  for the 8 reserved bytes;
  \<open>toString\<close>, the readable bytes, is what a client sees.
\<close>

subsection \<open>State and queries\<close>

record buffer =
  buf_data :: string
  readerIndex :: nat
  writerIndex :: nat

definition kCheapPrepend :: nat where "kCheapPrepend = 8"

definition kInitialSize :: nat where "kInitialSize = 1024"

definition kCRLF :: string where "kCRLF = [CHR 0x0D, CHR 0x0A]"

definition readableBytes :: "buffer \<Rightarrow> nat" where
  "readableBytes b = size_sub (writerIndex b) (readerIndex b)"

definition writableBytes :: "buffer \<Rightarrow> nat" where
  "writableBytes b = size_sub (length (buf_data b)) (writerIndex b)"

definition prependableBytes :: "buffer \<Rightarrow> nat" where
  "prependableBytes b = readerIndex b"

definition Buffer_new :: buffer where
  "Buffer_new = \<lparr>buf_data = replicate (kCheapPrepend + kInitialSize) (CHR 0x00),
     readerIndex = kCheapPrepend, writerIndex = kCheapPrepend\<rparr>"

definition swap_buffers :: "buffer \<Rightarrow> buffer \<Rightarrow> buffer \<times> buffer" where
  "swap_buffers b rhs =
     (b\<lparr>buf_data := buf_data rhs, readerIndex := readerIndex rhs, writerIndex := writerIndex rhs\<rparr>,
      rhs\<lparr>buf_data := buf_data b, readerIndex := readerIndex b, writerIndex := writerIndex b\<rparr>)"

definition peek :: "buffer \<Rightarrow> nat" where
  "peek b = readerIndex b"

definition beginWrite :: "buffer \<Rightarrow> nat" where
  "beginWrite b = writerIndex b"

definition bytes_between :: "buffer \<Rightarrow> nat \<Rightarrow> nat \<Rightarrow> string" where
  "bytes_between b i j = rng i j (buf_data b)"

definition toString :: "buffer \<Rightarrow> string" where
  "toString b = bytes_between b (peek b) (beginWrite b)"

definition buf_inv :: "buffer \<Rightarrow> bool" where
  "buf_inv b \<longleftrightarrow> readerIndex b \<le> writerIndex b \<and> writerIndex b \<le> length (buf_data b) \<and>
     kCheapPrepend \<le> length (buf_data b)"

subsection \<open>Searching for line ends\<close>

definition findCRLF :: "buffer \<Rightarrow> nat option" where
  "findCRLF b = map_option ((+) (peek b)) (search_seq kCRLF (bytes_between b (peek b) (beginWrite b)))"

definition findCRLF_from :: "nat \<Rightarrow> buffer \<Rightarrow> nat option option" where
  "findCRLF_from start b = do {
     assertion (peek b \<le> start);
     assertion (start \<le> beginWrite b);
     Some (map_option ((+) start) (search_seq kCRLF (bytes_between b start (beginWrite b)))) }"

definition memchr :: "char \<Rightarrow> string \<Rightarrow> nat option" where
  "memchr c s = (let i = find_char c s in if i = length s then None else Some i)"

definition findEOL :: "buffer \<Rightarrow> nat option" where
  "findEOL b = map_option ((+) (peek b))
     (memchr (CHR 0x0A) (bytes_between b (peek b) (peek b + readableBytes b)))"

definition findEOL_from :: "nat \<Rightarrow> buffer \<Rightarrow> nat option option" where
  "findEOL_from start b = do {
     assertion (peek b \<le> start);
     assertion (start \<le> beginWrite b);
     Some (map_option ((+) start) (memchr (CHR 0x0A) (bytes_between b start (beginWrite b)))) }"

subsection \<open>Consuming\<close>

definition retrieveAll :: "buffer \<Rightarrow> buffer" where
  "retrieveAll b = b\<lparr>readerIndex := kCheapPrepend, writerIndex := kCheapPrepend\<rparr>"

definition retrieve :: "nat \<Rightarrow> buffer \<Rightarrow> buffer option" where
  "retrieve len b = do {
     assertion (len \<le> readableBytes b);
     if len < readableBytes b
     then Some (b\<lparr>readerIndex := readerIndex b + len\<rparr>)
     else Some (retrieveAll b) }"

definition retrieveUntil :: "nat \<Rightarrow> buffer \<Rightarrow> buffer option" where
  "retrieveUntil end_ptr b = do {
     assertion (peek b \<le> end_ptr);
     assertion (end_ptr \<le> beginWrite b);
     retrieve (size_sub end_ptr (peek b)) b }"

definition retrieveInt32 :: "buffer \<Rightarrow> buffer option" where
  "retrieveInt32 b = retrieve 4 b"

definition retrieveInt16 :: "buffer \<Rightarrow> buffer option" where
  "retrieveInt16 b = retrieve 2 b"

definition retrieveInt8 :: "buffer \<Rightarrow> buffer option" where
  "retrieveInt8 b = retrieve 1 b"

definition retrieveAsString :: "nat \<Rightarrow> buffer \<Rightarrow> (string \<times> buffer) option" where
  "retrieveAsString len b = do {
     assertion (len \<le> readableBytes b);
     let str = bytes_between b (peek b) (peek b + len);
     b' \<leftarrow> retrieve len b;
     Some (str, b') }"

definition retrieveAllAsString :: "buffer \<Rightarrow> (string \<times> buffer) option" where
  "retrieveAllAsString b = retrieveAsString (readableBytes b) b"

subsection \<open>Growing and appending\<close>

definition makeSpace :: "nat \<Rightarrow> buffer \<Rightarrow> buffer option" where
  "makeSpace len b =
     (if writableBytes b + prependableBytes b < len + kCheapPrepend
      then Some (b\<lparr>buf_data := resize (writerIndex b + len) (buf_data b)\<rparr>)
      else do {
        assertion (kCheapPrepend < readerIndex b);
        let readable = readableBytes b;
        let moved = b\<lparr>buf_data := overwrite kCheapPrepend
                          (bytes_between b (readerIndex b) (writerIndex b)) (buf_data b),
                      readerIndex := kCheapPrepend, writerIndex := kCheapPrepend + readable\<rparr>;
        assertion (readable = readableBytes moved);
        Some moved })"

definition ensureWritableBytes :: "nat \<Rightarrow> buffer \<Rightarrow> buffer option" where
  "ensureWritableBytes len b = do {
     b' \<leftarrow> (if writableBytes b < len then makeSpace len b else Some b);
     assertion (len \<le> writableBytes b');
     Some b' }"

definition hasWritten :: "nat \<Rightarrow> buffer \<Rightarrow> buffer" where
  "hasWritten len b = b\<lparr>writerIndex := writerIndex b + len\<rparr>"

definition append_buf :: "string \<Rightarrow> buffer \<Rightarrow> buffer option" where
  "append_buf str b = do {
     b' \<leftarrow> ensureWritableBytes (length str) b;
     Some (hasWritten (length str)
       (b'\<lparr>buf_data := overwrite (beginWrite b') str (buf_data b')\<rparr>)) }"

definition prepend_buf :: "string \<Rightarrow> buffer \<Rightarrow> buffer option" where
  "prepend_buf str b = do {
     assertion (length str \<le> prependableBytes b);
     let r = readerIndex b - length str;
     Some (b\<lparr>readerIndex := r, buf_data := overwrite r str (buf_data b)\<rparr>) }"

definition shrink :: "nat \<Rightarrow> buffer \<Rightarrow> buffer option" where
  "shrink reserve b = do {
     temp \<leftarrow> ensureWritableBytes (readableBytes b + reserve) Buffer_new;
     Some (fst (swap_buffers b temp)) }"

subsection \<open>Integers in network byte order\<close>

definition appendInt32 :: "32 word \<Rightarrow> buffer \<Rightarrow> buffer option" where
  "appendInt32 x b = append_buf (be_encode 4 (unat x)) b"

definition appendInt16 :: "16 word \<Rightarrow> buffer \<Rightarrow> buffer option" where
  "appendInt16 x b = append_buf (be_encode 2 (unat x)) b"

definition appendInt8 :: "8 word \<Rightarrow> buffer \<Rightarrow> buffer option" where
  "appendInt8 x b = append_buf (be_encode 1 (unat x)) b"

definition prependInt32 :: "32 word \<Rightarrow> buffer \<Rightarrow> buffer option" where
  "prependInt32 x b = prepend_buf (be_encode 4 (unat x)) b"

definition prependInt16 :: "16 word \<Rightarrow> buffer \<Rightarrow> buffer option" where
  "prependInt16 x b = prepend_buf (be_encode 2 (unat x)) b"

definition prependInt8 :: "8 word \<Rightarrow> buffer \<Rightarrow> buffer option" where
  "prependInt8 x b = prepend_buf (be_encode 1 (unat x)) b"

definition peekInt32 :: "buffer \<Rightarrow> 32 word option" where
  "peekInt32 b = do {
     assertion (4 \<le> readableBytes b);
     Some (of_nat (be_decode (bytes_between b (peek b) (peek b + 4)))) }"

definition peekInt16 :: "buffer \<Rightarrow> 16 word option" where
  "peekInt16 b = do {
     assertion (2 \<le> readableBytes b);
     Some (of_nat (be_decode (bytes_between b (peek b) (peek b + 2)))) }"

definition peekInt8 :: "buffer \<Rightarrow> 8 word option" where
  "peekInt8 b = do {
     assertion (1 \<le> readableBytes b);
     Some (of_nat (be_decode (bytes_between b (peek b) (peek b + 1)))) }"

definition readInt32 :: "buffer \<Rightarrow> (32 word \<times> buffer) option" where
  "readInt32 b = do { x \<leftarrow> peekInt32 b; b' \<leftarrow> retrieveInt32 b; Some (x, b') }"

definition readInt16 :: "buffer \<Rightarrow> (16 word \<times> buffer) option" where
  "readInt16 b = do { x \<leftarrow> peekInt16 b; b' \<leftarrow> retrieveInt16 b; Some (x, b') }"

definition readInt8 :: "buffer \<Rightarrow> (8 word \<times> buffer) option" where
  "readInt8 b = do { x \<leftarrow> peekInt8 b; b' \<leftarrow> retrieveInt8 b; Some (x, b') }"

subsection \<open>Reading from a file descriptor\<close>

text \<open>
  The system call \<^verbatim>\<open>readv\<close> is the parameter \<open>readv\<close>: given the space offered and the
  kernel's state it answers with an error number or with bytes, and the new state. \<^verbatim>\<open>readFd\<close>
  calls itself again when an answer filled both the buffer and the 65536 bytes on the stack.
  The result is the return value, what is left in \<^verbatim>\<open>*savedErrno\<close>, the buffer and the
  kernel's state; \<open>None\<close> when the recursion does not end, the append aborts, or an answer is
  longer than the space offered.
\<close>

datatype readv_result = Readv_error int | Readv_bytes string

definition extrabuf_size :: nat where "extrabuf_size = 65536"

partial_function (option) readFd :: "(nat \<Rightarrow> 'k \<Rightarrow> readv_result \<times> 'k) \<Rightarrow> 'k \<Rightarrow> int \<Rightarrow> buffer
    \<Rightarrow> (int \<times> int \<times> buffer \<times> 'k) option" where
  "readFd readv k savedErrno b =
     (let writable = writableBytes b in
      case readv (writable + extrabuf_size) k of
        (Readv_error e, k') \<Rightarrow> Some (-1, e, b, k')
      | (Readv_bytes s, k') \<Rightarrow>
          if writable + extrabuf_size < length s then None
          else if length s \<le> writable
          then Some (int (length s), savedErrno,
                 b\<lparr>buf_data := overwrite (beginWrite b) s (buf_data b),
                   writerIndex := writerIndex b + length s\<rparr>, k')
          else Option.bind
                 (append_buf (drop writable s)
                   (b\<lparr>buf_data := overwrite (beginWrite b) (take writable s) (buf_data b),
                      writerIndex := length (buf_data b)\<rparr>))
                 (\<lambda>b'. if length s = writable + extrabuf_size
                    then Option.bind (readFd readv k' savedErrno b')
                           (\<lambda>(m, err, b'', k''). Some (int (length s) + m, err, b'', k''))
                    else Some (int (length s), savedErrno, b', k')))"

subsection \<open>What the operations do\<close>

lemmas buf_consts = kCheapPrepend_def kInitialSize_def peek_def beginWrite_def
  prependableBytes_def

lemma readable_inv: "buf_inv b \<Longrightarrow> readableBytes b = writerIndex b - readerIndex b"
  by (simp add: readableBytes_def buf_inv_def)

lemma writable_inv: "buf_inv b \<Longrightarrow> writableBytes b = length (buf_data b) - writerIndex b"
  by (simp add: writableBytes_def buf_inv_def)

lemma toString_rng: "toString b = rng (readerIndex b) (writerIndex b) (buf_data b)"
  by (simp add: toString_def bytes_between_def buf_consts)

lemma length_toString: "buf_inv b \<Longrightarrow> length (toString b) = readableBytes b"
  by (simp add: toString_rng readable_inv length_rng buf_inv_def)

lemma Buffer_new_inv [inv_intros]: "buf_inv Buffer_new"
  by (simp add: buf_inv_def Buffer_new_def)

lemma Buffer_new_view [view_simps]: "toString Buffer_new = []"
  by (simp add: toString_rng Buffer_new_def)

lemma Buffer_new_asserts:
  "readableBytes Buffer_new = 0" "writableBytes Buffer_new = kInitialSize"
  "prependableBytes Buffer_new = kCheapPrepend"
  by (simp_all add: readableBytes_def writableBytes_def prependableBytes_def Buffer_new_def)

lemma retrieveAll_inv [inv_intros]: "buf_inv b \<Longrightarrow> buf_inv (retrieveAll b)"
  by (simp add: buf_inv_def retrieveAll_def)

lemma retrieveAll_view [view_simps]: "toString (retrieveAll b) = []"
  by (simp add: toString_rng retrieveAll_def)

lemma retrieve_ok:
  assumes "buf_inv b" and "n \<le> length (toString b)"
  shows "\<exists>b'. retrieve n b = Some b' \<and> buf_inv b' \<and> toString b' = drop n (toString b)"
proof (cases "n < readableBytes b")
  case True
  let ?b = "b\<lparr>readerIndex := readerIndex b + n\<rparr>"
  have "retrieve n b = Some ?b" using True by (simp add: retrieve_def)
  moreover have "buf_inv ?b" using True assms(1) by (simp add: buf_inv_def readable_inv)
  moreover have "toString ?b = drop n (toString b)"
    using True assms(1) by (simp add: toString_rng drop_rng readable_inv)
  ultimately show ?thesis by blast
next
  case False
  with assms have "n = readableBytes b" by (simp add: length_toString)
  with assms(1) show ?thesis
    by (simp add: retrieve_def retrieveAll_inv retrieveAll_view length_toString)
qed

lemma retrieve_abort: "buf_inv b \<Longrightarrow> length (toString b) < n \<Longrightarrow> retrieve n b = None"
  by (simp add: retrieve_def length_toString)

lemma retrieveUntil_retrieve:
  "buf_inv b \<Longrightarrow> readerIndex b \<le> p \<Longrightarrow> p \<le> writerIndex b \<Longrightarrow>
   retrieveUntil p b = retrieve (p - readerIndex b) b"
  by (simp add: retrieveUntil_def buf_consts)

lemma makeSpace_ok:
  assumes "buf_inv b" and "writableBytes b < len"
  shows "\<exists>b'. makeSpace len b = Some b' \<and> buf_inv b' \<and> toString b' = toString b \<and>
    len \<le> writableBytes b'"
proof (cases "writableBytes b + prependableBytes b < len + kCheapPrepend")
  case True
  let ?b = "b\<lparr>buf_data := resize (writerIndex b + len) (buf_data b)\<rparr>"
  have "makeSpace len b = Some ?b" using True by (simp add: makeSpace_def)
  moreover have "buf_inv ?b" using assms by (auto simp: buf_inv_def writableBytes_def)
  moreover have "toString ?b = toString b"
    using assms(1) by (simp add: toString_rng rng_resize buf_inv_def)
  moreover have "len \<le> writableBytes ?b" by (simp add: writableBytes_def)
  ultimately show ?thesis by blast
next
  case False
  let ?v = "toString b"
  let ?b = "b\<lparr>buf_data := overwrite kCheapPrepend ?v (buf_data b),
    readerIndex := kCheapPrepend, writerIndex := kCheapPrepend + readableBytes b\<rparr>"
  have r: "kCheapPrepend < readerIndex b" using False assms(2) by (simp add: buf_consts)
  have len: "length ?v = readableBytes b" using assms(1) by (rule length_toString)
  have fits: "kCheapPrepend + length ?v \<le> length (buf_data b)"
    using r assms(1) len by (auto simp: readable_inv buf_inv_def)
  have "readableBytes ?b = readableBytes b" by (simp add: readableBytes_def)
  then have "makeSpace len b = Some ?b"
    using False r by (simp add: makeSpace_def toString_rng bytes_between_def)
  moreover have "buf_inv ?b" using fits len by (simp add: buf_inv_def length_overwrite)
  moreover have "toString ?b = ?v"
    using rng_overwrite_at [OF fits] by (simp add: toString_rng len [unfolded toString_rng])
  moreover have "len \<le> writableBytes ?b"
    using False fits r len assms(1)
    by (simp add: writableBytes_def length_overwrite readable_inv buf_inv_def prependableBytes_def)
  ultimately show ?thesis by blast
qed

lemma ensureWritableBytes_ok:
  assumes "buf_inv b"
  shows "\<exists>b'. ensureWritableBytes len b = Some b' \<and> buf_inv b' \<and> toString b' = toString b \<and>
    len \<le> writableBytes b'"
proof (cases "writableBytes b < len")
  case True
  with makeSpace_ok [OF assms True] show ?thesis by (auto simp: ensureWritableBytes_def)
next
  case False
  with assms show ?thesis by (auto simp: ensureWritableBytes_def)
qed

lemma append_buf_ok:
  assumes "buf_inv b"
  shows "\<exists>b'. append_buf s b = Some b' \<and> buf_inv b' \<and> toString b' = toString b @ s"
proof -
  obtain b' where b': "ensureWritableBytes (length s) b = Some b'" "buf_inv b'"
    "toString b' = toString b" "length s \<le> writableBytes b'"
    using ensureWritableBytes_ok [OF assms] by blast
  let ?b = "hasWritten (length s) (b'\<lparr>buf_data := overwrite (beginWrite b') s (buf_data b')\<rparr>)"
  have fits: "writerIndex b' + length s \<le> length (buf_data b')"
    using b'(2,4) by (auto simp: writable_inv buf_inv_def)
  have "append_buf s b = Some ?b" by (simp add: append_buf_def b'(1))
  moreover have "buf_inv ?b"
    using b'(2) fits by (simp add: buf_inv_def hasWritten_def length_overwrite buf_consts)
  moreover have "toString ?b = toString b @ s"
    using b'(2,3) fits
    by (simp add: toString_rng hasWritten_def buf_consts buf_inv_def rng_append_overwrite)
  ultimately show ?thesis by blast
qed

lemma prepend_buf_ok:
  assumes "buf_inv b" and "length s \<le> prependableBytes b"
  shows "\<exists>b'. prepend_buf s b = Some b' \<and> buf_inv b' \<and> toString b' = s @ toString b"
proof -
  let ?r = "readerIndex b - length s"
  let ?b = "b\<lparr>readerIndex := ?r, buf_data := overwrite ?r s (buf_data b)\<rparr>"
  have "prepend_buf s b = Some ?b" using assms(2) by (simp add: prepend_buf_def Let_def)
  moreover have "buf_inv ?b"
    using assms by (auto simp: buf_inv_def length_overwrite prependableBytes_def)
  moreover have "toString ?b = s @ toString b"
    using assms by (simp add: toString_rng prependableBytes_def buf_inv_def rng_prepend_overwrite)
  ultimately show ?thesis by blast
qed

interpretation bq: byte_queue buf_inv toString append_buf retrieve
  by unfold_locales (simp_all add: append_buf_ok retrieve_ok)

subsection \<open>Properties\<close>

text \<open>C10: a Buffer is a first-in first-out byte queue. However appends and retrieves are
  interleaved, as long as no retrieve asks for more than is readable, no assertion fails,
  the bytes taken out followed by the readable bytes are the bytes that were readable followed
  by the bytes appended, and the index invariant holds at the end.\<close>

theorem buffer_fifo:
  assumes "buf_inv b" and "ops_ok ops (length (toString b))"
  shows "\<exists>out b'. q_run append_buf retrieve toString ops b = Some (out, b') \<and> buf_inv b' \<and>
    out @ toString b' = toString b @ pushed ops"
  using assms by (rule bq.fifo)

theorem buffer_fifo_witness:
  "\<exists>out b'. q_run append_buf retrieve toString [Push ''abc'', Pop 2, Push ''de''] Buffer_new
     = Some (out, b') \<and> buf_inv b' \<and> out @ toString b' = toString Buffer_new @ ''abcde''"
  using buffer_fifo [OF Buffer_new_inv, of "[Push ''abc'', Pop 2, Push ''de'']"]
  by (simp add: Buffer_new_view)

lemma be_decode_word:
  fixes x :: "'w::len word"
  assumes "2 ^ LENGTH('w) = (256::nat) ^ k"
  shows "of_nat (be_decode (be_encode k (unat x))) = x"
  using unsigned_less [of x] by (simp add: be_decode_encode flip: assms)

lemma readInt_front:
  assumes "buf_inv b" and "toString b = s @ t"
  shows "length s \<le> readableBytes b" "bytes_between b (peek b) (peek b + length s) = s"
    "\<exists>b'. retrieve (length s) b = Some b' \<and> buf_inv b' \<and> toString b' = t"
proof -
  show l: "length s \<le> readableBytes b" using length_toString [OF assms(1)] assms(2) by simp
  have "take (length s) (toString b) = rng (readerIndex b) (readerIndex b + length s) (buf_data b)"
    unfolding toString_rng by (rule take_rng) (use l assms(1) in \<open>auto simp: readable_inv buf_inv_def\<close>)
  with assms(2) show "bytes_between b (peek b) (peek b + length s) = s"
    by (simp add: bytes_between_def peek_def)
  show "\<exists>b'. retrieve (length s) b = Some b' \<and> buf_inv b' \<and> toString b' = t"
    using retrieve_ok [OF assms(1), of "length s"] assms(2) by simp
qed

lemma readInt32_front:
  assumes "buf_inv b" and "toString b = be_encode 4 (unat x) @ t"
  shows "\<exists>b'. readInt32 b = Some (x, b') \<and> buf_inv b' \<and> toString b' = t"
  using readInt_front [OF assms] be_decode_word [of 4 x]
  by (auto simp: readInt32_def peekInt32_def retrieveInt32_def)

lemma readInt16_front:
  assumes "buf_inv b" and "toString b = be_encode 2 (unat x) @ t"
  shows "\<exists>b'. readInt16 b = Some (x, b') \<and> buf_inv b' \<and> toString b' = t"
  using readInt_front [OF assms] be_decode_word [of 2 x]
  by (auto simp: readInt16_def peekInt16_def retrieveInt16_def)

lemma readInt8_front:
  assumes "buf_inv b" and "toString b = be_encode 1 (unat x) @ t"
  shows "\<exists>b'. readInt8 b = Some (x, b') \<and> buf_inv b' \<and> toString b' = t"
  using readInt_front [OF assms] be_decode_word [of 1 x]
  by (auto simp: readInt8_def peekInt8_def retrieveInt8_def)

definition append_ints :: "32 word \<Rightarrow> 16 word \<Rightarrow> 8 word \<Rightarrow> buffer \<Rightarrow> buffer option" where
  "append_ints x y z b = do { b1 \<leftarrow> appendInt32 x b; b2 \<leftarrow> appendInt16 y b1; appendInt8 z b2 }"

definition read_ints :: "buffer \<Rightarrow> ((32 word \<times> 16 word \<times> 8 word) \<times> buffer) option" where
  "read_ints b = do { (x, b1) \<leftarrow> readInt32 b; (y, b2) \<leftarrow> readInt16 b1; (z, b3) \<leftarrow> readInt8 b2;
     Some ((x, y, z), b3) }"

text \<open>Integers survive the trip through network byte order at every width: a 32, a 16 and
  an 8 bit integer appended to an empty buffer are read back in order, each with the value
  written, and leave the buffer empty. A 32 bit length prepended to them is the first thing read
  back and leaves the appended bytes as they were.\<close>

theorem buffer_int_roundtrip:
  assumes "buf_inv b" and "toString b = []"
  shows "\<exists>b1 b4. append_ints x y z b = Some b1 \<and> read_ints b1 = Some ((x, y, z), b4) \<and>
    toString b4 = [] \<and> buf_inv b4 \<and>
    (4 \<le> prependableBytes b1 \<longrightarrow>
      (\<exists>b2 b3. prependInt32 w b1 = Some b2 \<and> readInt32 b2 = Some (w, b3) \<and> toString b3 = toString b1))"
proof -
  obtain c1 where c1: "appendInt32 x b = Some c1" "buf_inv c1" "toString c1 = be_encode 4 (unat x)"
    using append_buf_ok [OF assms(1)] assms(2) unfolding appendInt32_def by fastforce
  obtain c2 where c2: "appendInt16 y c1 = Some c2" "buf_inv c2"
    "toString c2 = be_encode 4 (unat x) @ be_encode 2 (unat y)"
    using append_buf_ok [OF c1(2)] c1(3) unfolding appendInt16_def by fastforce
  obtain b1 where b1: "appendInt8 z c2 = Some b1" "buf_inv b1"
    "toString b1 = be_encode 4 (unat x) @ be_encode 2 (unat y) @ be_encode 1 (unat z)"
    using append_buf_ok [OF c2(2)] c2(3) unfolding appendInt8_def by (metis append_assoc)
  obtain d1 where d1: "readInt32 b1 = Some (x, d1)" "buf_inv d1"
    "toString d1 = be_encode 2 (unat y) @ be_encode 1 (unat z)"
    using readInt32_front [OF b1(2,3)] by blast
  obtain d2 where d2: "readInt16 d1 = Some (y, d2)" "buf_inv d2" "toString d2 = be_encode 1 (unat z) @ []"
    using readInt16_front [OF d1(2,3)] by auto
  obtain b4 where b4: "readInt8 d2 = Some (z, b4)" "buf_inv b4" "toString b4 = []"
    using readInt8_front [OF d2(2,3)] by blast
  have pre: "\<exists>b2 b3. prependInt32 w b1 = Some b2 \<and> readInt32 b2 = Some (w, b3) \<and> toString b3 = toString b1"
    if "4 \<le> prependableBytes b1"
  proof -
    from that obtain b2 where "prependInt32 w b1 = Some b2" "buf_inv b2"
      "toString b2 = be_encode 4 (unat w) @ toString b1"
      using prepend_buf_ok [OF b1(2), of "be_encode 4 (unat w)"] by (auto simp: prependInt32_def)
    then show ?thesis using readInt32_front by blast
  qed
  have "append_ints x y z b = Some b1" by (simp add: append_ints_def c1(1) c2(1) b1(1))
  moreover have "read_ints b1 = Some ((x, y, z), b4)"
    by (simp add: read_ints_def d1(1) d2(1) b4(1))
  ultimately show ?thesis using b4(2,3) pre by blast
qed

theorem buffer_int_roundtrip_witness:
  "\<exists>b1 b4. append_ints 4000000000 515 7 Buffer_new = Some b1 \<and>
    read_ints b1 = Some ((4000000000, 515, 7), b4) \<and> toString b4 = [] \<and> buf_inv b4"
  using buffer_int_roundtrip [OF Buffer_new_inv Buffer_new_view, of 4000000000 515 7] by blast

text \<open>
  The kernel's side of a stream socket in non-blocking mode: \<open>p\<close> is what has arrived and was
  not read; a call delivers what fits, and with nothing there it answers 0 bytes when the peer
  has closed and \<open>EAGAIN\<close> otherwise.
\<close>

definition eagain :: int where "eagain = 11"

fun stream_readv :: "nat \<Rightarrow> string \<times> bool \<Rightarrow> readv_result \<times> (string \<times> bool)" where
  "stream_readv cap (p, closed) =
     (if p = [] then (if closed then Readv_bytes [] else Readv_error eagain, (p, closed))
      else (Readv_bytes (take cap p), (drop cap p, closed)))"

lemma absorb_ok:
  assumes "buf_inv b" and "writableBytes b < length s"
  shows "\<exists>b'. append_buf (drop (writableBytes b) s)
      (b\<lparr>buf_data := overwrite (beginWrite b) (take (writableBytes b) s) (buf_data b),
         writerIndex := length (buf_data b)\<rparr>) = Some b' \<and>
    buf_inv b' \<and> toString b' = toString b @ s"
proof -
  let ?w = "writableBytes b"
  let ?b = "b\<lparr>buf_data := overwrite (beginWrite b) (take ?w s) (buf_data b),
    writerIndex := length (buf_data b)\<rparr>"
  have w: "writerIndex b + length (take ?w s) = length (buf_data b)"
    using assms by (auto simp: writable_inv buf_inv_def)
  have inv: "buf_inv ?b"
    using assms(1) w by (simp add: buf_inv_def beginWrite_def length_overwrite)
  have "toString ?b = toString b @ take ?w s"
    using rng_append_overwrite [of "readerIndex b" "writerIndex b" "take ?w s" "buf_data b"] w assms(1)
    by (simp add: toString_rng beginWrite_def buf_inv_def)
  then show ?thesis using append_buf_ok [OF inv, of "drop ?w s"] by auto
qed

lemma fill_ok:
  assumes "buf_inv b" and "length s \<le> writableBytes b"
  defines "b' \<equiv> b\<lparr>buf_data := overwrite (beginWrite b) s (buf_data b),
    writerIndex := writerIndex b + length s\<rparr>"
  shows "buf_inv b' \<and> toString b' = toString b @ s"
proof -
  have "writerIndex b + length s \<le> length (buf_data b)"
    using assms(1,2) by (auto simp: writable_inv buf_inv_def)
  then show ?thesis
    using assms(1) by (simp add: b'_def buf_inv_def beginWrite_def length_overwrite toString_rng
        rng_append_overwrite)
qed

lemma stream_drains:
  assumes "buf_inv b"
  shows "\<exists>n err b'. readFd stream_readv (p, closed) e0 b = Some (n, err, b', ([], closed)) \<and>
    buf_inv b' \<and> toString b' = toString b @ p \<and> (p \<noteq> [] \<longrightarrow> 0 < n) \<and>
    (n = int (length p) \<and> err = e0 \<or> n = int (length p) - 1 \<and> err = eagain) \<and>
    (length p = writableBytes b + extrabuf_size \<and> \<not> closed \<longrightarrow> n = int (length p) - 1)"
  using assms
proof (induction "length p" arbitrary: p b rule: less_induct)
  case less
  let ?cap = "writableBytes b + extrabuf_size"
  let ?fill = "\<lambda>s. b\<lparr>buf_data := overwrite (beginWrite b) s (buf_data b),
    writerIndex := writerIndex b + length s\<rparr>"
  show ?case
  proof (cases "p = []")
    case True
    then show ?thesis using less.prems fill_ok [OF less.prems, of "[]"]
      by (simp add: readFd.simps extrabuf_size_def)
  next
    case False
    note unfold = readFd.simps [of stream_readv "(p, closed)" e0 b]
    have pos: "0 < ?cap" by (simp add: extrabuf_size_def)
    consider "length p \<le> writableBytes b" | "writableBytes b < length p" "length p < ?cap"
      | "?cap \<le> length p" by linarith
    then show ?thesis
    proof cases
      case 1
      then show ?thesis using fill_ok [OF less.prems 1] False unfold
        by (simp add: extrabuf_size_def)
    next
      case 2
      then show ?thesis using absorb_ok [OF less.prems 2(1)] False unfold
        by (auto simp: extrabuf_size_def)
    next
      case 3
      let ?s = "take ?cap p"
      have len: "length ?s = ?cap" using 3 by simp
      have wl: "writableBytes b < length ?s" unfolding len by (simp add: extrabuf_size_def)
      obtain b1 where b1: "append_buf (drop (writableBytes b) ?s)
          (b\<lparr>buf_data := overwrite (beginWrite b) (take (writableBytes b) ?s) (buf_data b),
             writerIndex := length (buf_data b)\<rparr>) = Some b1"
        "buf_inv b1" "toString b1 = toString b @ ?s"
        using absorb_ok [OF less.prems wl] by blast
      have "length (drop ?cap p) < length p" using 3 pos by (auto simp del: add_gr_0)
      from less.hyps [OF this b1(2)] obtain m err b2 where b2:
        "readFd stream_readv (drop ?cap p, closed) e0 b1 = Some (m, err, b2, ([], closed))"
        "buf_inv b2" "toString b2 = toString b1 @ drop ?cap p"
        "m = int (length (drop ?cap p)) \<and> err = e0 \<or> m = int (length (drop ?cap p)) - 1 \<and> err = eagain"
        by blast
      have "readFd stream_readv (p, closed) e0 b = Some (int ?cap + m, err, b2, ([], closed))"
        using unfold False b1(1) b2(1) len
        by (simp add: Let_def extrabuf_size_def del: append_take_drop_id)
      moreover have "0 < int ?cap + m" using b2(4) by (auto simp: extrabuf_size_def)
      moreover have "m = -1" if "length p = ?cap" "\<not> closed"
        using that b2(1) by (simp add: readFd.simps)
      ultimately show ?thesis using b2 b1(3) 3 by (auto simp: of_nat_diff)
    qed
  qed
qed

text \<open>C17: one call of readFd takes everything that has arrived: it returns, the readable bytes
  grow by exactly the bytes pending in the socket, and whenever something was pending the value
  returned is positive. That value is the number of bytes read, except that a call whose last,
  recursive read finds the socket empty adds that read's -1 to it.\<close>

theorem readFd_drains:
  assumes "buf_inv b"
  shows "\<exists>n err b'. readFd stream_readv (p, closed) e0 b = Some (n, err, b', ([], closed)) \<and>
    buf_inv b' \<and> toString b' = toString b @ p \<and> (p \<noteq> [] \<longrightarrow> 0 < n) \<and>
    (n = int (length p) \<and> err = e0 \<or> n = int (length p) - 1 \<and> err = eagain) \<and>
    (length p = writableBytes b + extrabuf_size \<and> \<not> closed \<longrightarrow> n = int (length p) - 1)"
  using assms by (rule stream_drains)

theorem readFd_drains_witness:
  "\<exists>n err b'. readFd stream_readv (''GET'', False) 0 Buffer_new = Some (n, err, b', ([], False)) \<and>
    buf_inv b' \<and> toString b' = toString Buffer_new @ ''GET'' \<and> 0 < n"
  using readFd_drains [OF Buffer_new_inv, of "''GET''" False 0] by auto

end
