(* ===== verification/HttpContext.thy ===== *)
theory HttpContext
  imports HttpRequest Buffer
begin

text \<open>
  \<^verbatim>\<open>mutlithread/multiThread/http/HttpContext.{h,cpp}\<close>: the incremental request parser.
  \<open>parseRequest\<close> is the code's loop over a buffer; \<open>parse_str\<close> is the same parser over the
  readable bytes alone, the specification it is shown to refine. An outer \<open>None\<close> is a call that
  does not return, \<open>Parse_abort\<close> a failed assertion.
\<close>

subsection \<open>The code's parser\<close>

datatype parse_state = kExpectRequestLine | kExpectHeader | kExpectBody | kGotAll

record http_context =
  hc_state :: parse_state
  hc_request :: http_request

definition HttpContext_new :: http_context where
  "HttpContext_new = \<lparr>hc_state = kExpectRequestLine, hc_request = HttpRequest_new\<rparr>"

definition gotAll :: "http_context \<Rightarrow> bool" where
  "gotAll c \<longleftrightarrow> hc_state c = kGotAll"

definition HttpContext_reset :: "http_context \<Rightarrow> http_context" where
  "HttpContext_reset c =
     c\<lparr>hc_state := kExpectRequestLine, hc_request := fst (swap_requests (hc_request c) HttpRequest_new)\<rparr>"

definition processRequestLine :: "string \<Rightarrow> http_context \<Rightarrow> (bool \<times> http_context) option" where
  "processRequestLine line c =
     (let space = find_char (CHR '' '') line in
      if space = length line then Some (False, c)
      else do {
        (ok, r) \<leftarrow> setMethod (take space line) (hc_request c);
        if \<not> ok then Some (False, c\<lparr>hc_request := r\<rparr>)
        else
          let rest = drop (space + 1) line;
              space2 = find_char (CHR '' '') rest;
              target = take space2 rest;
              question = find_char (CHR ''?'') target;
              r' = (if space2 = length rest then r
                    else if question \<noteq> length target
                    then setQuery (drop question target) (setPath (take question target) r)
                    else setPath target r);
              isSucceed = (space2 \<noteq> length rest \<and> drop (space2 + 1) rest = ''HTTP/1.1'')
          in Some (isSucceed, c\<lparr>hc_request := r'\<rparr>) })"

text \<open>One round of the loop: \<open>isOk\<close>, \<open>hasMore\<close> and the new state; \<open>None\<close> is a failed
  assertion.\<close>

definition parse_round :: "int \<Rightarrow> bool \<Rightarrow> http_context \<Rightarrow> buffer
    \<Rightarrow> (bool \<times> bool \<times> http_context \<times> buffer) option" where
  "parse_round receiveTime isOk c b =
     (case hc_state c of
        kExpectRequestLine \<Rightarrow>
          (case findCRLF b of
             None \<Rightarrow> Some (isOk, False, c, b)
           | Some crlf \<Rightarrow> do {
               (ok, c') \<leftarrow> processRequestLine (bytes_between b (peek b) crlf) c;
               if ok
               then do {
                 b' \<leftarrow> retrieveUntil (crlf + 2) b;
                 Some (True, True,
                   c'\<lparr>hc_request := setReceiveTime receiveTime (hc_request c'), hc_state := kExpectHeader\<rparr>,
                   b') }
               else Some (False, False, c', b) })
      | kExpectHeader \<Rightarrow>
          (case findCRLF b of
             None \<Rightarrow> Some (isOk, False, c, b)
           | Some crlf \<Rightarrow>
               (let line = bytes_between b (peek b) crlf; colon = find_char (CHR '':'') line in
                if colon \<noteq> length line
                then do {
                  b' \<leftarrow> retrieveUntil (crlf + 2) b;
                  Some (isOk, True, c\<lparr>hc_request := addHeader line colon (hc_request c)\<rparr>, b') }
                else do {
                  b' \<leftarrow> retrieveUntil (crlf + 2) b;
                  Some (isOk, False, c\<lparr>hc_state := kGotAll\<rparr>, b') }))
      | kExpectBody \<Rightarrow> Some (isOk, True, c, b)
      | kGotAll \<Rightarrow> Some (isOk, True, c, b))"

datatype 'b parse_result = Parse_abort | Parse_return bool http_context 'b

partial_function (option) parse_loop :: "int \<Rightarrow> bool \<Rightarrow> http_context \<Rightarrow> buffer
    \<Rightarrow> buffer parse_result option" where
  "parse_loop receiveTime isOk c b =
     (case parse_round receiveTime isOk c b of
        None \<Rightarrow> Some Parse_abort
      | Some (isOk', hasMore, c', b') \<Rightarrow>
          (if hasMore then parse_loop receiveTime isOk' c' b' else Some (Parse_return isOk' c' b')))"

definition parseRequest :: "int \<Rightarrow> http_context \<Rightarrow> buffer \<Rightarrow> buffer parse_result option" where
  "parseRequest receiveTime c b = parse_loop receiveTime True c b"

subsection \<open>The specification: the same parser over a byte string\<close>

fun is_parsing :: "http_context \<Rightarrow> bool" where
  "is_parsing c = (hc_state c = kExpectRequestLine \<or> hc_state c = kExpectHeader)"

definition str_line :: "int \<Rightarrow> http_context \<Rightarrow> string \<Rightarrow> (bool \<times> bool \<times> http_context) option" where
  "str_line t c line =
     (if hc_state c = kExpectRequestLine
      then do {
        (ok, c') \<leftarrow> processRequestLine line c;
        Some (ok, ok, if ok then c'\<lparr>hc_request := setReceiveTime t (hc_request c'), hc_state := kExpectHeader\<rparr>
                            else c') }
      else
        (let colon = find_char (CHR '':'') line in
         if colon \<noteq> length line
         then Some (True, True, c\<lparr>hc_request := addHeader line colon (hc_request c)\<rparr>)
         else Some (True, False, c\<lparr>hc_state := kGotAll\<rparr>)))"

function parse_str :: "int \<Rightarrow> http_context \<Rightarrow> string \<Rightarrow> string parse_result" where
  "parse_str t c s =
     (case search_seq kCRLF s of
        None \<Rightarrow> Parse_return True c s
      | Some i \<Rightarrow>
          (case str_line t c (take i s) of
             None \<Rightarrow> Parse_abort
           | Some (ok, hasMore, c') \<Rightarrow>
               (if hasMore then parse_str t c' (drop (i + 2) s)
                else Parse_return ok c' (if ok then drop (i + 2) s else s))))"
  by pat_completeness auto
termination
  by (relation "measure (\<lambda>(t, c, s). length s)")
    (auto dest!: search_seq_Some simp: kCRLF_def)

declare parse_str.simps [simp del]

subsection \<open>The code refines the specification\<close>

lemma findCRLF_view:
  "findCRLF b = map_option ((+) (readerIndex b)) (search_seq kCRLF (toString b))"
  by (simp add: findCRLF_def toString_def peek_def beginWrite_def)

lemma crlf_room: "search_seq kCRLF s = Some i \<Longrightarrow> i + 2 \<le> length s"
  using search_seq_Some [of kCRLF s i] by (simp add: kCRLF_def)

lemma bytes_to_view:
  assumes "buf_inv b" and "i \<le> length (toString b)"
  shows "bytes_between b (peek b) (readerIndex b + i) = take i (toString b)"
  unfolding toString_rng bytes_between_def peek_def
  by (rule take_rng [symmetric])
    (use assms in \<open>auto simp: length_toString readable_inv buf_inv_def\<close>)

lemma retrieveUntil_view:
  assumes "buf_inv b" and "n \<le> length (toString b)"
  shows "\<exists>b'. retrieveUntil (readerIndex b + n) b = Some b' \<and> buf_inv b' \<and> toString b' = drop n (toString b)"
proof -
  have "retrieveUntil (readerIndex b + n) b = retrieve n b"
    using retrieveUntil_retrieve [OF assms(1), of "readerIndex b + n"] assms
    by (auto simp: length_toString readable_inv buf_inv_def)
  then show ?thesis using retrieve_ok [OF assms] by simp
qed

lemma str_line_parsing:
  assumes "is_parsing c" and l: "str_line t c line = Some (ok, True, c')"
  shows "ok \<and> is_parsing c'"
proof (cases "hc_state c = kExpectRequestLine")
  case True
  with l obtain d where "c' = d\<lparr>hc_request := setReceiveTime t (hc_request d), hc_state := kExpectHeader\<rparr>" "ok"
    by (auto simp: str_line_def Option.bind_eq_Some_conv)
  then show ?thesis by simp
next
  case False
  with assms show ?thesis by (auto simp: str_line_def Let_def split: if_splits)
qed

lemma parse_round_refines:
  assumes "buf_inv b" and "is_parsing c"
  shows "case search_seq kCRLF (toString b) of
      None \<Rightarrow> parse_round t True c b = Some (True, False, c, b)
    | Some i \<Rightarrow>
        (case str_line t c (take i (toString b)) of
           None \<Rightarrow> parse_round t True c b = None
         | Some (ok, hasMore, c') \<Rightarrow> \<exists>b'. parse_round t True c b = Some (ok, hasMore, c', b') \<and> buf_inv b' \<and>
             toString b' = (if ok then drop (i + 2) (toString b) else toString b))"
proof (cases "search_seq kCRLF (toString b)")
  case None
  then show ?thesis using assms(2) by (auto simp: parse_round_def findCRLF_view)
next
  case (Some i)
  from crlf_room [OF Some] have i2: "i + 2 \<le> length (toString b)" and "i \<le> length (toString b)" by auto
  from bytes_to_view [OF assms(1) this(2)]
  have line: "bytes_between b (peek b) (readerIndex b + i) = take i (toString b)" .
  obtain b' where b': "retrieveUntil (Suc (Suc (readerIndex b + i))) b = Some b'" "buf_inv b'"
    "toString b' = drop (i + 2) (toString b)"
    using retrieveUntil_view [OF assms(1) i2] by auto
  consider "hc_state c = kExpectRequestLine" | "hc_state c = kExpectHeader" using assms(2) by auto
  then show ?thesis
  proof cases
    case 1
    then show ?thesis using Some b' line assms(1)
      by (cases "processRequestLine (take i (toString b)) c")
        (auto simp: parse_round_def str_line_def findCRLF_view)
  next
    case 2
    then show ?thesis using Some b' line
      by (auto simp: parse_round_def str_line_def findCRLF_view Let_def)
  qed
qed

lemma parse_str_step:
  "search_seq kCRLF s = None \<Longrightarrow> parse_str t c s = Parse_return True c s"
  "search_seq kCRLF s = Some i \<Longrightarrow> str_line t c (take i s) = None \<Longrightarrow> parse_str t c s = Parse_abort"
  "search_seq kCRLF s = Some i \<Longrightarrow> str_line t c (take i s) = Some (ok, True, c') \<Longrightarrow>
   parse_str t c s = parse_str t c' (drop (i + 2) s)"
  "search_seq kCRLF s = Some i \<Longrightarrow> str_line t c (take i s) = Some (ok, False, c') \<Longrightarrow>
   parse_str t c s = Parse_return ok c' (if ok then drop (i + 2) s else s)"
  by (simp_all add: parse_str.simps [of t c s])

lemma parse_loop_refines:
  assumes "buf_inv b" and "is_parsing c"
  shows "case parse_str t c (toString b) of
      Parse_abort \<Rightarrow> parse_loop t True c b = Some Parse_abort
    | Parse_return ok c' s \<Rightarrow> \<exists>b'. parse_loop t True c b = Some (Parse_return ok c' b') \<and>
        buf_inv b' \<and> toString b' = s"
  using assms
proof (induction "length (toString b)" arbitrary: b c rule: less_induct)
  case less
  note round = parse_round_refines [OF less.prems, of t]
  note unfold = parse_loop.simps [of t True c b]
  show ?case
  proof (cases "search_seq kCRLF (toString b)")
    case None
    with round less.prems(1) show ?thesis by (simp add: unfold parse_str_step(1))
  next
    case (Some i)
    show ?thesis
    proof (cases "str_line t c (take i (toString b))")
      case None
      with round Some show ?thesis by (simp add: unfold parse_str_step(2) [OF Some])
    next
      case line: (Some r)
      obtain ok hasMore c' where r: "r = (ok, hasMore, c')" by (cases r)
      with round Some line obtain b' where b': "parse_round t True c b = Some (ok, hasMore, c', b')"
        "buf_inv b'" "toString b' = (if ok then drop (i + 2) (toString b) else toString b)"
        by auto
      show ?thesis
      proof (cases hasMore)
        case True
        have ok: "ok" "is_parsing c'"
          using str_line_parsing [OF less.prems(2), of t "take i (toString b)" ok c'] line r True by auto
        then have "length (toString b') < length (toString b)"
          using crlf_room [OF Some] b'(3) by simp
        from less.hyps [OF this b'(2) ok(2)] show ?thesis
          using b' ok True line r parse_str_step(3) [OF Some, of t c ok c']
          by (auto simp: unfold split: parse_result.splits)
      next
        case False
        then show ?thesis using b' line r parse_str_step(4) [OF Some] by (simp add: unfold)
      qed
    qed
  qed
qed

lemma parseRequest_facts:
  assumes "buf_inv b" and "is_parsing c"
  shows "case parse_str t c (toString b) of
      Parse_abort \<Rightarrow> parseRequest t c b = Some Parse_abort
    | Parse_return ok c' s \<Rightarrow> \<exists>b'. parseRequest t c b = Some (Parse_return ok c' b') \<and>
        buf_inv b' \<and> toString b' = s"
  unfolding parseRequest_def using assms by (rule parse_loop_refines)

text \<open>C13: the parser over the connection's buffer is the parser over the bytes alone. From a
  state in which a line is expected, parseRequest returns, aborts exactly when the specification
  does, and otherwise gives the specification's verdict and context and leaves a well-formed
  buffer holding exactly the bytes the specification leaves.\<close>

theorem parseRequest_refines:
  assumes "buf_inv b" and "is_parsing c"
  shows "case parse_str t c (toString b) of
      Parse_abort \<Rightarrow> parseRequest t c b = Some Parse_abort
    | Parse_return ok c' s \<Rightarrow> \<exists>b'. parseRequest t c b = Some (Parse_return ok c' b') \<and>
        buf_inv b' \<and> toString b' = s"
  using assms by (rule parseRequest_facts)

theorem parseRequest_refines_witness:
  "\<exists>b'. parseRequest 5 HttpContext_new Buffer_new = Some (Parse_return True HttpContext_new b') \<and>
    buf_inv b' \<and> toString b' = []"
proof -
  have "parse_str 5 HttpContext_new (toString Buffer_new) = Parse_return True HttpContext_new []"
    by (simp add: Buffer_new_view parse_str_step kCRLF_def)
  then show ?thesis
    using parseRequest_refines [OF Buffer_new_inv, of HttpContext_new 5] by (simp add: HttpContext_new_def)
qed

subsection \<open>Termination\<close>

lemma parse_loop_returns_parsing:
  assumes "parse_loop t ok c b = Some r"
  shows "is_parsing c"
proof (rule parse_loop.raw_induct [where P = "\<lambda>_ _ c _ _. is_parsing c", OF _ assms])
  fix loop and t :: int and isOk :: bool and c b r
  assume IH: "\<And>t isOk c b r. loop t isOk c b = Some r \<Longrightarrow> is_parsing c"
    and run: "(case parse_round t isOk c b of
        None \<Rightarrow> Some Parse_abort
      | Some (isOk', hasMore, c', b') \<Rightarrow>
          if hasMore then loop t isOk' c' b' else Some (Parse_return isOk' c' b')) = Some r"
  show "is_parsing c"
  proof (rule ccontr)
    assume no: "\<not> is_parsing c"
    then have "parse_round t isOk c b = Some (isOk, True, c, b)"
      by (cases "hc_state c") (simp_all add: parse_round_def)
    with run have "loop t isOk c b = Some r" by simp
    with IH no show False by blast
  qed
qed

text \<open>C16: parseRequest returns exactly when it is called in a state that expects a request line
  or a header. Called again on a context that has already got a whole request (or that expects
  a body), it never returns, whatever the buffer holds.\<close>

theorem parseRequest_returns_iff:
  assumes "buf_inv b"
  shows "(\<exists>r. parseRequest t c b = Some r) \<longleftrightarrow> hc_state c = kExpectRequestLine \<or> hc_state c = kExpectHeader"
proof
  assume "\<exists>r. parseRequest t c b = Some r"
  then show "hc_state c = kExpectRequestLine \<or> hc_state c = kExpectHeader"
    using parse_loop_returns_parsing [of t True c b] by (auto simp: parseRequest_def)
next
  assume "hc_state c = kExpectRequestLine \<or> hc_state c = kExpectHeader"
  then show "\<exists>r. parseRequest t c b = Some r"
    using parse_loop_refines [OF assms, of c t] by (auto simp: parseRequest_def split: parse_result.splits)
qed

theorem parseRequest_returns_iff_witness:
  "parseRequest 0 (HttpContext_new\<lparr>hc_state := kGotAll\<rparr>) Buffer_new = None"
  using parseRequest_returns_iff [OF Buffer_new_inv, of 0 "HttpContext_new\<lparr>hc_state := kGotAll\<rparr>"]
  by simp

subsection \<open>Messages that arrive in pieces\<close>

text \<open>
  The connection appends each piece that arrives to its buffer and calls \<^verbatim>\<open>parseRequest\<close>
  again, until a call fails or has got a whole request; the pieces not yet looked at are given
  back.
\<close>

fun feed :: "int \<Rightarrow> http_context \<Rightarrow> buffer \<Rightarrow> string list \<Rightarrow> (buffer parse_result \<times> string list) option" where
  "feed t c b [] = Some (Parse_return True c b, [])"
| "feed t c b (s # ss) = do {
     b1 \<leftarrow> append_buf s b;
     r \<leftarrow> parseRequest t c b1;
     case r of
       Parse_abort \<Rightarrow> Some (Parse_abort, ss)
     | Parse_return ok c' b' \<Rightarrow>
         if ok \<and> \<not> gotAll c' then feed t c' b' ss else Some (Parse_return ok c' b', ss) }"

lemma str_line_state: "str_line t c line = Some (ok, False, c') \<Longrightarrow> ok \<Longrightarrow> gotAll c'"
  by (auto simp: str_line_def gotAll_def Let_def Option.bind_eq_Some_conv split: if_splits)

lemma search_seq_append_take:
  assumes "search_seq pat s = Some i" shows "take i (s @ u) = take i s"
  using search_seq_Some [OF assms] by simp

text \<open>What is left after an undecided parse has no line end in it, and the parser goes on from
  there as if the rest had been there from the start.\<close>

lemma parse_str_split:
  "is_parsing c \<Longrightarrow>
   (case parse_str t c s of
      Parse_abort \<Rightarrow> parse_str t c (s @ u) = Parse_abort
    | Parse_return ok c' s' \<Rightarrow>
        (if ok \<and> \<not> gotAll c'
         then is_parsing c' \<and> search_seq kCRLF s' = None \<and> parse_str t c (s @ u) = parse_str t c' (s' @ u)
         else parse_str t c (s @ u) = Parse_return ok c' (s' @ u)))"
proof (induction "length s" arbitrary: c s rule: less_induct)
  case less
  show ?case
  proof (cases "search_seq kCRLF s")
    case None
    then show ?thesis using less.prems by (auto simp: parse_str_step(1) gotAll_def)
  next
    case (Some i)
    note room = crlf_room [OF Some]
    note Some' = search_seq_append [OF Some, of u]
    note line = search_seq_append_take [OF Some, of u]
    have drop: "drop (i + 2) (s @ u) = drop (i + 2) s @ u" using room by simp
    show ?thesis
    proof (cases "str_line t c (take i s)")
      case None
      have "str_line t c (take i (s @ u)) = None" unfolding line by (rule None)
      from parse_str_step(2) [OF Some' this] parse_str_step(2) [OF Some None] show ?thesis by simp
    next
      case l: (Some r)
      obtain ok more c' where r: "r = (ok, more, c')" by (cases r)
      show ?thesis
      proof (cases more)
        case True
        with l r have l': "str_line t c (take i s) = Some (ok, True, c')" by simp
        have l'': "str_line t c (take i (s @ u)) = Some (ok, True, c')" unfolding line by (rule l')
        have p: "is_parsing c'" using str_line_parsing [OF less.prems l'] by simp
        have "length (drop (i + 2) s) < length s" using room by simp
        note IH = less.hyps [OF this p]
        have e1: "parse_str t c (s @ u) = parse_str t c' (drop (i + 2) s @ u)"
          using parse_str_step(3) [OF Some' l''] unfolding drop .
        have e2: "parse_str t c s = parse_str t c' (drop (i + 2) s)"
          by (rule parse_str_step(3) [OF Some l'])
        show ?thesis unfolding e1 e2 by (rule IH)
      next
        case False
        with l r have l': "str_line t c (take i s) = Some (ok, False, c')" by simp
        have "parse_str t c (s @ u) = Parse_return ok c' (if ok then drop (i + 2) (s @ u) else s @ u)"
          by (rule parse_str_step(4) [OF Some']) (unfold line, rule l')
        moreover have "parse_str t c s = Parse_return ok c' (if ok then drop (i + 2) s else s)"
          using parse_str_step(4) [OF Some l'] .
        ultimately show ?thesis using str_line_state [OF l'] drop by (cases ok) simp_all
      qed
    qed
  qed
qed

lemma parse_str_stuck: "search_seq kCRLF s = None \<Longrightarrow> parse_str t c s = Parse_return True c s"
  by (rule parse_str_step(1))

lemma feed_refines:
  assumes "buf_inv b" and "is_parsing c" and "search_seq kCRLF (toString b) = None"
  shows "case parse_str t c (toString b @ concat ss) of
      Parse_abort \<Rightarrow> \<exists>us. feed t c b ss = Some (Parse_abort, us)
    | Parse_return ok c' s \<Rightarrow> \<exists>b' us. feed t c b ss = Some (Parse_return ok c' b', us) \<and>
        buf_inv b' \<and> toString b' @ concat us = s"
  using assms
proof (induction ss arbitrary: c b)
  case Nil
  then show ?case by (simp add: parse_str_stuck)
next
  case (Cons p ss)
  obtain b1 where b1: "append_buf p b = Some b1" "buf_inv b1" "toString b1 = toString b @ p"
    using append_buf_ok [OF Cons.prems(1)] by blast
  note one = parseRequest_facts [OF b1(2) Cons.prems(2), of t, unfolded b1(3)]
  note split = parse_str_split [OF Cons.prems(2), of t "toString b @ p" "concat ss"]
  show ?case
  proof (cases "parse_str t c (toString b @ p)")
    case Parse_abort
    with one split b1(1) show ?thesis by auto
  next
    case (Parse_return ok c' s')
    with one obtain b' where b': "parseRequest t c b1 = Some (Parse_return ok c' b')" "buf_inv b'"
      "toString b' = s'" by auto
    show ?thesis
    proof (cases "ok \<and> \<not> gotAll c'")
      case True
      with split Parse_return have "is_parsing c'" "search_seq kCRLF s' = None"
        and eq: "parse_str t c (toString b @ concat (p # ss)) = parse_str t c' (toString b' @ concat ss)"
        by (auto simp: b'(3))
      with Cons.IH [OF b'(2), of c'] have "case parse_str t c' (toString b' @ concat ss) of
          Parse_abort \<Rightarrow> \<exists>us. feed t c' b' ss = Some (Parse_abort, us)
        | Parse_return ok c'' s \<Rightarrow> \<exists>b'' us. feed t c' b' ss = Some (Parse_return ok c'' b'', us) \<and>
            buf_inv b'' \<and> toString b'' @ concat us = s"
        by (simp add: b'(3))
      moreover have "feed t c b (p # ss) = feed t c' b' ss" using b1(1) b'(1) True by simp
      ultimately show ?thesis unfolding eq by (simp only:)
    next
      case False
      then have "parse_str t c (toString b @ concat (p # ss)) = Parse_return ok c' (s' @ concat ss)"
        using split Parse_return by (auto split: if_splits)
      moreover have "feed t c b (p # ss) = Some (Parse_return ok c' b', ss)"
        using b1(1) b'(1) False by (simp only: feed.simps) auto
      ultimately show ?thesis using b'(2,3) by simp
    qed
  qed
qed

text \<open>C15: how the network cuts a request into pieces does not matter. Feeding the pieces to an
  empty buffer one at a time, parsing after each, ends with the verdict and the request that one
  parse of the whole text gives, and what it leaves in the buffer followed by the pieces not
  looked at is what that parse leaves.\<close>

theorem parse_pieces:
  assumes "buf_inv b" and "toString b = []" and "is_parsing c" and "append_buf (concat ss) b = Some b1"
  shows "case parseRequest t c b1 of
      None \<Rightarrow> False
    | Some Parse_abort \<Rightarrow> \<exists>us. feed t c b ss = Some (Parse_abort, us)
    | Some (Parse_return ok c' b1') \<Rightarrow> \<exists>b' us. feed t c b ss = Some (Parse_return ok c' b', us) \<and>
        buf_inv b' \<and> toString b' @ concat us = toString b1'"
proof -
  have b1: "buf_inv b1" "toString b1 = concat ss"
    using append_buf_ok [OF assms(1), of "concat ss"] assms(2,4) by auto
  have "search_seq kCRLF (toString b) = None" using assms(2) by (simp add: kCRLF_def)
  from feed_refines [OF assms(1,3) this, of t ss] parseRequest_facts [OF b1(1) assms(3), of t]
  show ?thesis using assms(2) b1(2) by (auto split: parse_result.splits)
qed

theorem parse_pieces_witness:
  "\<exists>b1. append_buf (concat [''GE'', ''T /'']) Buffer_new = Some b1 \<and>
    (case parseRequest 1 HttpContext_new b1 of
      None \<Rightarrow> False
    | Some Parse_abort \<Rightarrow> \<exists>us. feed 1 HttpContext_new Buffer_new [''GE'', ''T /''] = Some (Parse_abort, us)
    | Some (Parse_return ok c' b1') \<Rightarrow> \<exists>b' us.
        feed 1 HttpContext_new Buffer_new [''GE'', ''T /''] = Some (Parse_return ok c' b', us) \<and>
        buf_inv b' \<and> toString b' @ concat us = toString b1')"
proof -
  obtain b1 where b1: "append_buf (concat [''GE'', ''T /'']) Buffer_new = Some b1"
    using append_buf_ok [OF Buffer_new_inv] by blast
  show ?thesis
    using b1 parse_pieces [OF Buffer_new_inv Buffer_new_view _ b1, of HttpContext_new 1]
    by (auto simp: HttpContext_new_def)
qed

subsection \<open>Well-formed requests are read back\<close>

definition render_header :: "string \<times> string \<Rightarrow> string" where
  "render_header h = fst h @ '': '' @ snd h @ kCRLF"

definition request_line :: "http_method \<Rightarrow> string \<Rightarrow> string \<Rightarrow> string" where
  "request_line m path query = methodString m @ '' '' @ path @ query @ '' HTTP/1.1''"

definition render_request :: "http_method \<Rightarrow> string \<Rightarrow> string \<Rightarrow> (string \<times> string) list \<Rightarrow> string" where
  "render_request m path query hs =
     request_line m path query @ kCRLF @ concat (map render_header hs) @ kCRLF"

definition cr_free :: "string \<Rightarrow> bool" where
  "cr_free s \<longleftrightarrow> CHR 0x0D \<notin> set s"

definition trimmed :: "string \<Rightarrow> bool" where
  "trimmed v \<longleftrightarrow> v = [] \<or> \<not> isspace (hd v) \<and> \<not> isspace (last v)"

definition header_ok :: "string \<times> string \<Rightarrow> bool" where
  "header_ok h \<longleftrightarrow> CHR '':'' \<notin> set (fst h) \<and> cr_free (fst h) \<and> cr_free (snd h) \<and> trimmed (snd h)"

definition target_ok :: "string \<Rightarrow> string \<Rightarrow> bool" where
  "target_ok path query \<longleftrightarrow> cr_free path \<and> cr_free query \<and>
     CHR '' '' \<notin> set path \<and> CHR '' '' \<notin> set query \<and> CHR ''?'' \<notin> set path \<and>
     (query = [] \<or> hd query = CHR ''?'')"

lemma search_crlf: "cr_free l \<Longrightarrow> search_seq kCRLF (l @ kCRLF @ r) = Some (length l)"
  by (induction l) (auto simp: cr_free_def kCRLF_def)

lemma parse_str_line:
  assumes "cr_free l"
  shows "str_line t c l = Some (ok, True, c') \<Longrightarrow> parse_str t c (l @ kCRLF @ r) = parse_str t c' r"
    "str_line t c l = Some (True, False, c') \<Longrightarrow> parse_str t c (l @ kCRLF @ r) = Parse_return True c' r"
  using parse_str_step(3,4) [OF search_crlf [OF assms, of r], of t c] by (simp_all add: kCRLF_def)

lemma find_space2: "CHR '' '' \<notin> set l \<Longrightarrow> find_char (CHR '' '') (l @ CHR '' '' # r) = length l"
  by (rule find_char_at)

lemma processRequestLine_render:
  assumes "m \<noteq> kInvalid" and "target_ok path query" and "hr_method (hc_request c) = kInvalid"
  shows "processRequestLine (request_line m path query) c =
    Some (True, c\<lparr>hc_request := (if query = [] then setPath path ((hc_request c)\<lparr>hr_method := m\<rparr>)
      else setQuery query (setPath path ((hc_request c)\<lparr>hr_method := m\<rparr>)))\<rparr>)"
proof -
  let ?rest = "path @ query @ '' HTTP/1.1''"
  have sp: "find_char (CHR '' '') (request_line m path query) = length (methodString m)"
    using find_char_at [OF methodString_no_space, of m ?rest] by (simp add: request_line_def)
  have sp2: "find_char (CHR '' '') ?rest = length (path @ query)"
    using find_char_at [of "CHR '' ''" "path @ query" "''HTTP/1.1''"] assms(2)
    by (auto simp: target_ok_def)
  have q: "find_char (CHR ''?'') (path @ query) = length path"
    using assms(2) find_char_at [of "CHR ''?''" path "tl query"] find_char_none [of "CHR ''?''" path]
    by (cases query) (auto simp: target_ok_def)
  have len: "length (methodString m) \<noteq> length (request_line m path query)"
    by (simp add: request_line_def)
  have take: "take (length (methodString m)) (request_line m path query) = methodString m"
    "drop (length (methodString m) + 1) (request_line m path query) = ?rest"
    by (simp_all add: request_line_def)
  have "length (path @ query) \<noteq> length ?rest" by simp
  moreover have "take (length (path @ query)) ?rest = path @ query"
    "drop (length (path @ query) + 1) ?rest = ''HTTP/1.1''" by simp_all
  ultimately have r: "find_char (CHR '' '') ?rest \<noteq> length ?rest"
    "take (find_char (CHR '' '') ?rest) ?rest = path @ query"
    "drop (find_char (CHR '' '') ?rest + 1) ?rest = ''HTTP/1.1''"
    unfolding sp2 by simp_all
  have m: "setMethod (methodString m) (hc_request c) = Some (True, (hc_request c)\<lparr>hr_method := m\<rparr>)"
    by (rule setMethod_methodString [OF assms(3,1)])
  show ?thesis
    unfolding processRequestLine_def Let_def sp take r q m using len r(1) by simp
qed

lemma str_line_header:
  assumes "header_ok (k, v)" and "hc_state c = kExpectHeader"
  shows "str_line t c (k @ '': '' @ v) = Some (True, True,
    c\<lparr>hc_request := (hc_request c)\<lparr>hr_headers := smap_put k v (hr_headers (hc_request c))\<rparr>\<rparr>)"
proof -
  have "find_char (CHR '':'') (k @ '': '' @ v) = length k"
    using find_char_at [of "CHR '':''" k "CHR '' '' # v"] assms(1) by (simp add: header_ok_def)
  moreover have "strip_right (strip_left (CHR '' '' # v)) = v"
    using assms(1) by (auto simp: strip_left_space strip_left_id strip_right_id header_ok_def trimmed_def)
  ultimately show ?thesis using assms(2) by (simp add: str_line_def addHeader_def Let_def)
qed

lemma parse_headers:
  assumes "\<forall>h \<in> set hs. header_ok h" and "hc_state c = kExpectHeader"
  shows "parse_str t c (concat (map render_header hs) @ kCRLF @ rest) =
    Parse_return True (c\<lparr>hc_state := kGotAll, hc_request := (hc_request c)\<lparr>hr_headers :=
      foldl (\<lambda>m (k, v). smap_put k v m) (hr_headers (hc_request c)) hs\<rparr>\<rparr>) rest"
  using assms
proof (induction hs arbitrary: c)
  case Nil
  have "str_line t c [] = Some (True, False, c\<lparr>hc_state := kGotAll\<rparr>)"
    using Nil(2) by (simp add: str_line_def Let_def)
  from parse_str_line(2) [of "[]", OF _ this, of rest] show ?case by (simp add: cr_free_def)
next
  case (Cons h hs)
  obtain k v where h: "h = (k, v)" by (cases h)
  have ok: "header_ok (k, v)" using Cons.prems(1) h by simp
  then have "cr_free (k @ '': '' @ v)" by (auto simp: header_ok_def cr_free_def)
  from parse_str_line(1) [OF this str_line_header [OF ok Cons.prems(2)]]
  show ?case using Cons.IH Cons.prems h by (simp add: render_header_def)
qed

definition request_of :: "int \<Rightarrow> http_method \<Rightarrow> string \<Rightarrow> string \<Rightarrow> (string \<times> string) list \<Rightarrow> http_request" where
  "request_of t m path query hs = \<lparr>hr_method = m, hr_path = path, hr_query = query, hr_receiveTime = t,
     hr_headers = foldl (\<lambda>m (k, v). smap_put k v m) [] hs\<rparr>"

lemma getHeader_request_of:
  "getHeader f (request_of t m path query hs) = (case map_of (rev hs) f of Some v \<Rightarrow> v | None \<Rightarrow> [])"
  using sm.put_all_get [OF sm.empty_law(1), where k = f and kvs = hs]
  by (simp add: sm.empty_law(2) getHeader_def request_of_def split: option.splits)

lemma parse_str_render:
  assumes "m \<noteq> kInvalid" and "target_ok path query" and "\<forall>h \<in> set hs. header_ok h"
  shows "parse_str t HttpContext_new (render_request m path query hs @ rest) =
    Parse_return True \<lparr>hc_state = kGotAll, hc_request = request_of t m path query hs\<rparr> rest"
proof -
  let ?r = "HttpRequest_new\<lparr>hr_method := m, hr_path := path, hr_query := query, hr_receiveTime := t\<rparr>"
  let ?c = "\<lparr>hc_state = kExpectHeader, hc_request = ?r\<rparr>"
  have "processRequestLine (request_line m path query) HttpContext_new =
      Some (True, HttpContext_new\<lparr>hc_request := HttpRequest_new\<lparr>hr_method := m, hr_path := path, hr_query := query\<rparr>\<rparr>)"
    using processRequestLine_render [OF assms(1,2), of HttpContext_new]
    by (simp add: HttpContext_new_def HttpRequest_new_def setPath_def setQuery_def)
  then have line: "str_line t HttpContext_new (request_line m path query) = Some (True, True, ?c)"
    by (simp add: str_line_def HttpContext_new_def setReceiveTime_def)
  have "cr_free (request_line m path query)"
    using assms(2) by (cases m) (auto simp: cr_free_def request_line_def target_ok_def)
  from parse_str_line(1) [OF this line] parse_headers [OF assms(3), of ?c t rest]
  show ?thesis by (simp add: render_request_def HttpRequest_new_def request_of_def)
qed

text \<open>C14: the parser reads back every well-formed request. From a fresh context, a buffer that
  starts with a request line, headers and an empty line gives a complete request with the method,
  path, query and receive time of the text and, for each header name, the last value given; the
  bytes after the request stay in the buffer.\<close>

theorem parse_render:
  assumes "m \<noteq> kInvalid" and "target_ok path query" and "\<forall>h \<in> set hs. header_ok h"
    and "buf_inv b" and "toString b = render_request m path query hs @ rest"
  shows "\<exists>c' b'. parseRequest t HttpContext_new b = Some (Parse_return True c' b') \<and>
    gotAll c' \<and> toString b' = rest \<and> hr_method (hc_request c') = m \<and> hr_path (hc_request c') = path \<and>
    hr_query (hc_request c') = query \<and> hr_receiveTime (hc_request c') = t \<and>
    (\<forall>f. getHeader f (hc_request c') = (case map_of (rev hs) f of Some v \<Rightarrow> v | None \<Rightarrow> []))"
proof -
  have "is_parsing HttpContext_new" by (simp add: HttpContext_new_def)
  from parseRequest_facts [OF assms(4) this, of t] parse_str_render [OF assms(1,2,3), of t rest]
  obtain b' where "parseRequest t HttpContext_new b =
      Some (Parse_return True \<lparr>hc_state = kGotAll, hc_request = request_of t m path query hs\<rparr> b')"
    "toString b' = rest" unfolding assms(5) by auto
  then show ?thesis by (auto simp: gotAll_def getHeader_request_of) (simp_all add: request_of_def)
qed

theorem parse_render_witness:
  "\<exists>b c' b'. parseRequest 9 HttpContext_new b = Some (Parse_return True c' b') \<and> gotAll c' \<and>
    toString b' = ''xy'' \<and> hr_method (hc_request c') = kGet \<and> hr_path (hc_request c') = ''/a'' \<and>
    hr_query (hc_request c') = ''?q'' \<and> getHeader ''Host'' (hc_request c') = ''b c''"
proof -
  obtain b where b: "buf_inv b"
    "toString b = render_request kGet ''/a'' ''?q'' [(''Host'', ''a''), (''Host'', ''b c'')] @ ''xy''"
    using append_buf_ok [OF Buffer_new_inv] Buffer_new_view by (metis append_Nil)
  have h: "\<forall>h \<in> set [(''Host'', ''a''), (''Host'', ''b c'')]. header_ok h"
    by (simp add: header_ok_def cr_free_def trimmed_def isspace_def)
  have t: "target_ok ''/a'' ''?q''" by (simp add: target_ok_def cr_free_def)
  have m: "kGet \<noteq> kInvalid" by simp
  obtain c' b' where "parseRequest 9 HttpContext_new b = Some (Parse_return True c' b')" "gotAll c'"
    "toString b' = ''xy''" "hr_method (hc_request c') = kGet" "hr_path (hc_request c') = ''/a''"
    "hr_query (hc_request c') = ''?q''"
    "getHeader ''Host'' (hc_request c') =
       (case map_of (rev [(''Host'', ''a''), (''Host'', ''b c'')]) ''Host'' of Some v \<Rightarrow> v | None \<Rightarrow> [])"
    using parse_render [OF m t h b, of 9] by metis
  then show ?thesis by auto
qed

subsection \<open>A rejected request line\<close>

lemma processRequestLine_method:
  assumes "processRequestLine line c = Some (ok, c')" and "hr_method (hc_request c') \<noteq> kInvalid"
  shows "processRequestLine line c' = None \<or> hr_method (hc_request c) \<noteq> kInvalid"
proof (cases "find_char (CHR '' '') line = length line")
  case True
  with assms show ?thesis by (simp add: processRequestLine_def)
next
  case False
  then have "processRequestLine line c' = None"
    using assms(2) setMethod_abort [of _ "hc_request c'"] by (simp add: processRequestLine_def)
  then show ?thesis ..
qed

lemma processRequestLine_keeps_state:
  "processRequestLine line c = Some (ok, c') \<Longrightarrow> hc_state c' = hc_state c"
  by (auto simp: processRequestLine_def Let_def Option.bind_eq_Some_conv split: if_splits)

lemma parse_headers_not_refused:
  "hc_state d = kExpectHeader \<Longrightarrow> parse_str t d u \<noteq> Parse_return False c v"
proof (induction "length u" arbitrary: u d rule: less_induct)
  case less
  show ?case
  proof (cases "search_seq kCRLF u")
    case None
    then show ?thesis by (simp add: parse_str_step(1))
  next
    case (Some j)
    show ?thesis
    proof (cases "find_char (CHR '':'') (take j u) = length (take j u)")
      case True
      with less.prems have "str_line t d (take j u) = Some (True, False, d\<lparr>hc_state := kGotAll\<rparr>)"
        by (simp add: str_line_def Let_def)
      from parse_str_step(4) [OF Some this] show ?thesis by simp
    next
      case False
      let ?d = "d\<lparr>hc_request := addHeader (take j u) (find_char (CHR '':'') (take j u)) (hc_request d)\<rparr>"
      from False less.prems have "str_line t d (take j u) = Some (True, True, ?d)"
        by (simp add: str_line_def Let_def)
      note step = parse_str_step(3) [OF Some this]
      have "length (drop (j + 2) u) < length u" using crlf_room [OF Some] by simp
      from less.hyps [OF this, of ?d] less.prems show ?thesis unfolding step by simp
    qed
  qed
qed

lemma rejected_line:
  assumes "buf_inv b" and "hc_state c = kExpectRequestLine" and "hr_method (hc_request c) = kInvalid"
    and "parseRequest t c b = Some (Parse_return False c' b')"
    and "hr_method (hc_request c') \<noteq> kInvalid"
  shows "toString b' = toString b" "hc_state c' = kExpectRequestLine"
    "\<And>b2 s t'. buf_inv b2 \<Longrightarrow> toString b2 = toString b' @ s \<Longrightarrow> parseRequest t' c' b2 = Some Parse_abort"
proof -
  have p: "is_parsing c" using assms(2) by simp
  have spec: "parse_str t c (toString b) = Parse_return False c' (toString b')" and inv: "buf_inv b'"
    using parseRequest_facts [OF assms(1) p, of t] assms(4) by (auto split: parse_result.splits)
  obtain i where i: "search_seq kCRLF (toString b) = Some i"
    using spec by (cases "search_seq kCRLF (toString b)") (auto simp: parse_str_step(1))
  let ?line = "take i (toString b)"
  obtain ok c1 where l: "processRequestLine ?line c = Some (ok, c1)"
    using spec parse_str_step(2) [OF i, of t c] assms(2)
    by (cases "processRequestLine ?line c") (auto simp: str_line_def)
  have bad: "\<not> ok"
  proof
    assume ok
    with l assms(2) have "str_line t c ?line = Some (True, True,
        c1\<lparr>hc_request := setReceiveTime t (hc_request c1), hc_state := kExpectHeader\<rparr>)"
      by (simp add: str_line_def)
    from parse_str_step(3) [OF i this] spec show False
      by (simp add: parse_headers_not_refused parse_headers_not_refused [THEN not_sym])
  qed
  then have "str_line t c ?line = Some (False, False, c1)" using l assms(2) by (simp add: str_line_def)
  from parse_str_step(4) [OF i this] spec have c': "c' = c1" and tb: "toString b' = toString b" by auto
  have st: "hc_state c' = kExpectRequestLine"
    using processRequestLine_keeps_state [OF l] assms(2) c' by simp
  show "toString b' = toString b" "hc_state c' = kExpectRequestLine" by (rule tb, rule st)
  fix b2 s t' assume b2: "buf_inv b2" "toString b2 = toString b' @ s"
  have "str_line t' c' (take i (toString b @ s)) = None"
    unfolding search_seq_append_take [OF i, of s]
    using processRequestLine_method [OF l] assms(3,5) c' st by (simp add: str_line_def)
  then have "parse_str t' c' (toString b2) = Parse_abort"
    using parse_str_step(2) [OF search_seq_append [OF i, of s]] b2(2) tb by simp
  then show "parseRequest t' c' b2 = Some Parse_abort"
    using parseRequest_facts [OF b2(1), of c' t'] st by simp
qed

definition http10_context :: http_context where
  "http10_context = HttpContext_new\<lparr>hc_request := HttpRequest_new\<lparr>hr_method := kGet, hr_path := ''/''\<rparr>\<rparr>"

lemma http10_context_facts:
  "hc_state HttpContext_new = kExpectRequestLine" "hr_method (hc_request HttpContext_new) = kInvalid"
  "hr_method (hc_request http10_context) \<noteq> kInvalid"
  by (simp_all add: HttpContext_new_def HttpRequest_new_def http10_context_def)

lemma parse_http10:
  "parse_str 0 HttpContext_new (''GET / HTTP/1.0'' @ kCRLF) =
    Parse_return False http10_context (''GET / HTTP/1.0'' @ kCRLF)"
proof -
  have "processRequestLine ''GET / HTTP/1.0'' HttpContext_new = Some (False, http10_context)"
    by (simp add: processRequestLine_def setMethod_def setPath_def HttpContext_new_def HttpRequest_new_def
        http10_context_def)
  then have "str_line 0 HttpContext_new ''GET / HTTP/1.0'' = Some (False, False, http10_context)"
    by (simp add: str_line_def http10_context_facts)
  moreover have "search_seq kCRLF (''GET / HTTP/1.0'' @ kCRLF) = Some 14"
    using search_crlf [of "''GET / HTTP/1.0''" "[]"] by (simp add: cr_free_def)
  ultimately show ?thesis
    using parse_str_step(4) [of "''GET / HTTP/1.0'' @ kCRLF" 14 0 HttpContext_new False http10_context] by simp
qed

text \<open>A request line with a known method that is not of the form "target HTTP/1.1" is
  refused, nothing is consumed, and the method stays set. Unless the context is reset, the next
  call of parseRequest, whatever has been appended in between, reads the same line again and
  stops the process in the assertion at the start of setMethod.\<close>

theorem rejected_line_aborts:
  assumes "buf_inv b" and "hc_state c = kExpectRequestLine" and "hr_method (hc_request c) = kInvalid"
    and "parseRequest t c b = Some (Parse_return False c' b')"
    and "hr_method (hc_request c') \<noteq> kInvalid" and "append_buf s b' = Some b2"
  shows "toString b' = toString b \<and> parseRequest t' c' b2 = Some Parse_abort"
proof -
  have "is_parsing c" using assms(2) by simp
  from parseRequest_facts [OF assms(1) this, of t] assms(4) have "buf_inv b'"
    by (auto split: parse_result.splits)
  from append_buf_ok [OF this, of s] assms(6) have "buf_inv b2" "toString b2 = toString b' @ s" by auto
  then show ?thesis using rejected_line [OF assms(1-5)] by blast
qed

theorem rejected_line_aborts_witness:
  "\<exists>b c' b' b2. parseRequest 0 HttpContext_new b = Some (Parse_return False c' b') \<and>
    append_buf ''x'' b' = Some b2 \<and> parseRequest 1 c' b2 = Some Parse_abort"
proof -
  obtain b where b: "buf_inv b" "toString b = ''GET / HTTP/1.0'' @ kCRLF"
    using append_buf_ok [OF Buffer_new_inv] Buffer_new_view by (metis append_Nil)
  obtain b' where b': "parseRequest 0 HttpContext_new b = Some (Parse_return False http10_context b')" "buf_inv b'"
    using parseRequest_facts [OF b(1), of HttpContext_new 0] parse_http10 b(2)
    by (auto simp: http10_context_facts)
  obtain b2 where b2: "append_buf ''x'' b' = Some b2" using append_buf_ok [OF b'(2)] by blast
  from rejected_line_aborts [OF b(1) http10_context_facts(1,2) b'(1) http10_context_facts(3) b2, of 1] b'(1) b2
  show ?thesis by blast
qed

end
