(* ===== verification/HttpResponse.thy ===== *)
theory HttpResponse
  imports HttpContext
begin

text \<open>
  \<^verbatim>\<open>mutlithread/multiThread/http/HttpResponse.{h,cpp}\<close>: the response a handler fills in and
  its serialisation. \<open>snprintf\<close> is the C library's: at most \<open>size - 1\<close> bytes of the formatted
  text and a terminating zero.
\<close>

datatype http_status = kUnknown | k200OK | k301MovedPermanently | k400BadRequest | k404NotFound

fun status_number :: "http_status \<Rightarrow> nat" where
  "status_number kUnknown = 0"
| "status_number k200OK = 200"
| "status_number k301MovedPermanently = 301"
| "status_number k400BadRequest = 400"
| "status_number k404NotFound = 404"

record http_response =
  rs_headers :: smap
  rs_statusCode :: http_status
  rs_statusMessage :: string
  rs_closeConnection :: bool
  rs_body :: string

definition HttpResponse_new :: "bool \<Rightarrow> http_response" where
  "HttpResponse_new close = \<lparr>rs_headers = [], rs_statusCode = kUnknown, rs_statusMessage = [],
     rs_closeConnection = close, rs_body = []\<rparr>"

definition setStatusCode :: "http_status \<Rightarrow> http_response \<Rightarrow> http_response" where
  "setStatusCode code r = r\<lparr>rs_statusCode := code\<rparr>"

definition setStatusMessage :: "string \<Rightarrow> http_response \<Rightarrow> http_response" where
  "setStatusMessage message r = r\<lparr>rs_statusMessage := message\<rparr>"

definition setCloseConnection :: "bool \<Rightarrow> http_response \<Rightarrow> http_response" where
  "setCloseConnection on r = r\<lparr>rs_closeConnection := on\<rparr>"

definition closeConnection :: "http_response \<Rightarrow> bool" where
  "closeConnection r = rs_closeConnection r"

definition response_addHeader :: "string \<Rightarrow> string \<Rightarrow> http_response \<Rightarrow> http_response" where
  "response_addHeader key value r = r\<lparr>rs_headers := smap_put key value (rs_headers r)\<rparr>"

definition setContentType :: "string \<Rightarrow> http_response \<Rightarrow> http_response" where
  "setContentType contentType r = response_addHeader ''Content-Type'' contentType r"

definition setBody :: "string \<Rightarrow> http_response \<Rightarrow> http_response" where
  "setBody body r = r\<lparr>rs_body := body\<rparr>"

definition snprintf :: "nat \<Rightarrow> string \<Rightarrow> string" where
  "snprintf bufsize text = take (bufsize - 1) text"

text \<open>The strings \<^verbatim>\<open>appendToBuffer\<close> appends, one call each, in order.\<close>

definition response_pieces :: "http_response \<Rightarrow> string list" where
  "response_pieces r =
     [snprintf 32 (''HTTP/1.1 '' @ dec (status_number (rs_statusCode r)) @ '' ''),
      rs_statusMessage r, kCRLF] @
     (if rs_closeConnection r
      then [''Connection: close'' @ kCRLF]
      else [snprintf 32 (''Content-Length: '' @ dec (length (rs_body r)) @ kCRLF),
            ''Connection: Keep-Alive'' @ kCRLF]) @
     concat (map (\<lambda>(k, v). [k, '': '', v, kCRLF]) (rs_headers r)) @
     [kCRLF, rs_body r]"

definition appendToBuffer :: "http_response \<Rightarrow> buffer \<Rightarrow> buffer option" where
  "appendToBuffer r output = push_list append_buf (response_pieces r) output"

subsection \<open>What a client reads\<close>

text \<open>
  The receiving side of HTTP/1.1: the lines of the head up to the empty one, then as many bytes
  of body as \<^verbatim>\<open>Content-Length\<close> announces.
\<close>

function head_lines :: "string \<Rightarrow> (string list \<times> string) option" where
  "head_lines s =
     (case search_seq kCRLF s of
        None \<Rightarrow> None
      | Some i \<Rightarrow>
          if i = 0 then Some ([], drop 2 s)
          else map_option (\<lambda>(ls, r). (take i s # ls, r)) (head_lines (drop (i + 2) s)))"
  by pat_completeness auto
termination
  by (relation "measure length") (auto dest!: search_seq_Some simp: kCRLF_def)

declare head_lines.simps [simp del]

definition content_length :: "string list \<Rightarrow> nat option" where
  "content_length ls =
     map_option (\<lambda>l. dec_value (drop 16 l)) (find (\<lambda>l. take 16 l = ''Content-Length: '') ls)"

definition read_response :: "string \<Rightarrow> (string list \<times> string \<times> string) option" where
  "read_response s =
     (case head_lines s of
        None \<Rightarrow> None
      | Some (ls, r) \<Rightarrow>
          (case content_length ls of
             None \<Rightarrow> None
           | Some n \<Rightarrow> if n \<le> length r then Some (ls, take n r, drop n r) else None))"

definition header_line :: "string \<times> string \<Rightarrow> string" where
  "header_line h = fst h @ '': '' @ snd h"

definition response_head :: "http_response \<Rightarrow> string list" where
  "response_head r =
     (''HTTP/1.1 '' @ dec (status_number (rs_statusCode r)) @ '' '' @ rs_statusMessage r) #
     (if rs_closeConnection r then [''Connection: close'']
      else [''Content-Length: '' @ dec (length (rs_body r)), ''Connection: Keep-Alive'']) @
     map header_line (rs_headers r)"

definition response_ok :: "http_response \<Rightarrow> bool" where
  "response_ok r \<longleftrightarrow> cr_free (rs_statusMessage r) \<and> length (rs_body r) < 10 ^ 13 \<and>
     (\<forall>h \<in> set (rs_headers r). cr_free (fst h) \<and> cr_free (snd h))"

lemma length_kCRLF: "length kCRLF = 2"
  by (simp add: kCRLF_def)

lemma head_lines_step:
  "cr_free l \<Longrightarrow> l \<noteq> [] \<Longrightarrow>
   head_lines (l @ kCRLF @ s) = map_option (\<lambda>(ls, r). (l # ls, r)) (head_lines s)"
  by (subst head_lines.simps) (simp add: search_crlf length_kCRLF)

lemma head_lines_end: "head_lines (kCRLF @ s) = Some ([], s)"
  using search_crlf [of "[]" s] by (subst head_lines.simps) (simp add: cr_free_def length_kCRLF)

lemma head_lines_all:
  "\<forall>l \<in> set ls. cr_free l \<and> l \<noteq> [] \<Longrightarrow>
   head_lines (concat (map (\<lambda>l. l @ kCRLF) ls) @ kCRLF @ s) = Some (ls, s)"
  by (induction ls) (simp_all add: head_lines_end head_lines_step)

lemma dec_cr_free: "cr_free (dec n)"
  using dec_chars [of n] by (auto simp: cr_free_def is_digit_def)

lemma status_short: "length (dec (status_number c)) \<le> 3"
  by (rule length_dec) (cases c; simp)+

lemma response_text:
  assumes "length (rs_body r) < 10 ^ 13"
  shows "concat (response_pieces r) =
    concat (map (\<lambda>l. l @ kCRLF) (response_head r)) @ kCRLF @ rs_body r"
proof -
  have s: "snprintf 32 (''HTTP/1.1 '' @ dec (status_number (rs_statusCode r)) @ '' '') =
      ''HTTP/1.1 '' @ dec (status_number (rs_statusCode r)) @ '' ''"
    unfolding snprintf_def using status_short [of "rs_statusCode r"] by (intro take_all) simp
  have c: "snprintf 32 (''Content-Length: '' @ dec (length (rs_body r)) @ kCRLF) =
      ''Content-Length: '' @ dec (length (rs_body r)) @ kCRLF"
    unfolding snprintf_def using length_dec [OF assms] by (intro take_all) (simp add: kCRLF_def)
  have h: "concat (concat (map (\<lambda>(k, v). [k, '': '', v, kCRLF]) hs)) =
      concat (map (\<lambda>l. l @ kCRLF) (map header_line hs))" for hs
    by (induction hs) (auto simp: header_line_def)
  show ?thesis unfolding response_pieces_def s c response_head_def by (simp add: h)
qed

lemma response_head_lines:
  assumes "response_ok r" shows "\<forall>l \<in> set (response_head r). cr_free l \<and> l \<noteq> []"
  using assms dec_cr_free
  by (auto simp: response_head_def response_ok_def header_line_def cr_free_def)

text \<open>C26: a response goes onto the wire as the bytes HTTP/1.1 asks for. Serialising appends to the
  buffer, behind what is already there, the status line, the connection headers, the handler's
  headers in the order of their names with no name twice, an empty line and the body, and nothing
  else.\<close>

theorem appendToBuffer_text:
  assumes "buf_inv b" and "length (rs_body r) < 10 ^ 13" and "smap_inv (rs_headers r)"
  shows "\<exists>b'. appendToBuffer r b = Some b' \<and> buf_inv b' \<and>
    toString b' = toString b @ concat (map (\<lambda>l. l @ kCRLF) (response_head r)) @ kCRLF @ rs_body r \<and>
    sorted_wrt (<) (map fst (rs_headers r))"
  using bq.push_list_law [OF assms(1), of "response_pieces r"] sm.entries_law(1) [OF assms(3)]
  by (simp add: appendToBuffer_def response_text [OF assms(2)])

theorem appendToBuffer_text_witness:
  "\<exists>b'. appendToBuffer (setBody ''hi'' (setContentType ''t'' (HttpResponse_new True))) Buffer_new = Some b' \<and>
    buf_inv b' \<and> toString b' = concat (map (\<lambda>l. l @ kCRLF)
      [''HTTP/1.1 '' @ dec 0 @ '' '', ''Connection: close'', ''Content-Type: t'']) @ kCRLF @ ''hi''"
  using appendToBuffer_text [OF Buffer_new_inv, of "setBody ''hi'' (setContentType ''t'' (HttpResponse_new True))"]
  by (simp add: setBody_def setContentType_def response_addHeader_def HttpResponse_new_def
      smap_inv_def response_head_def header_line_def Buffer_new_view)

text \<open>C27: a keep-alive response is self-delimiting. A client that reads the head up to the empty
  line and takes as many body bytes as Content-Length says gets exactly the handler's body, whatever
  the body contains, and the bytes of the next response are left untouched.\<close>

theorem keep_alive_framing:
  assumes "response_ok r" and "\<not> rs_closeConnection r"
  shows "read_response (concat (response_pieces r) @ rest) = Some (response_head r, rs_body r, rest)"
proof -
  have "content_length (response_head r) = Some (length (rs_body r))"
    using assms(2) by (simp add: content_length_def response_head_def)
  then show ?thesis
    using response_text [of r] assms(1) head_lines_all [OF response_head_lines [OF assms(1)], of "rs_body r @ rest"]
    by (simp add: read_response_def response_ok_def)
qed

theorem keep_alive_framing_witness:
  "read_response (concat (response_pieces (setBody ''Content-Length: 9'' (HttpResponse_new False))) @ ''next'') =
    Some (response_head (setBody ''Content-Length: 9'' (HttpResponse_new False)), ''Content-Length: 9'', ''next'')"
  using keep_alive_framing [of "setBody ''Content-Length: 9'' (HttpResponse_new False)" "''next''"]
  by (simp add: response_ok_def cr_free_def setBody_def HttpResponse_new_def)

end
