(* ===== verification/Socket.thy ===== *)
theory Socket
  imports HttpResponse
begin

text \<open>
  \<^verbatim>\<open>mutlithread/multiThread/net/InternetAddress.{h,cpp}\<close> and \<^verbatim>\<open>Socket.{h,cpp}\<close>: addresses,
  and the owner of a socket descriptor.

  The fields of \<^verbatim>\<open>sockaddr_in\<close> are in network byte order; the machine is little-endian, so
  \<^verbatim>\<open>htobe16\<close> and \<^verbatim>\<open>be16toh\<close> swap the two bytes. \<open>inet_ntop\<close> is the C library's: it writes the
  dotted quad and its terminating zero when they fit in the size given, and otherwise leaves the
  destination as it is. The kernel's side of a connected stream socket is the record \<open>endpoint\<close>:
  what has arrived, what it has taken over for sending, and its answers to the next writes.
\<close>

subsection \<open>Addresses\<close>

record sockaddr_in =
  sin_family :: nat
  sin_port :: "16 word"
  sin_addr :: "32 word"

definition AF_INET :: nat where "AF_INET = 2"

definition INADDR_ANY :: "32 word" where "INADDR_ANY = 0"

definition swap16 :: "16 word \<Rightarrow> 16 word" where
  "swap16 x = of_nat (unat x mod 256 * 256 + unat x div 256)"

definition htobe16 :: "16 word \<Rightarrow> 16 word" where "htobe16 = swap16"

definition be16toh :: "16 word \<Rightarrow> 16 word" where "be16toh = swap16"

definition InternetAddress_port :: "16 word \<Rightarrow> sockaddr_in" where
  "InternetAddress_port port = \<lparr>sin_family = AF_INET, sin_port = htobe16 port, sin_addr = INADDR_ANY\<rparr>"

text \<open>\<open>inet_pton\<close> is a parameter: the address it stores, \<open>None\<close> when it does not parse.\<close>

definition InternetAddress_ip :: "(string \<Rightarrow> 32 word option) \<Rightarrow> string \<Rightarrow> 16 word \<Rightarrow> sockaddr_in" where
  "InternetAddress_ip inet_pton ip port =
     \<lparr>sin_family = AF_INET, sin_port = htobe16 port,
      sin_addr = (case inet_pton ip of Some a \<Rightarrow> a | None \<Rightarrow> 0)\<rparr>"

definition dotted :: "32 word \<Rightarrow> string" where
  "dotted a = dec (unat a mod 256) @ ''.'' @ dec (unat a div 256 mod 256) @ ''.'' @
     dec (unat a div 65536 mod 256) @ ''.'' @ dec (unat a div 16777216)"

definition inet_ntop :: "32 word \<Rightarrow> string \<Rightarrow> nat \<Rightarrow> string" where
  "inet_ntop a dst bufsize = (if length (dotted a) + 1 \<le> bufsize then dotted a else dst)"

definition toIP :: "sockaddr_in \<Rightarrow> string" where
  "toIP address = inet_ntop (sin_addr address) [] 32"

definition toIPPort :: "sockaddr_in \<Rightarrow> string" where
  "toIPPort address =
     (let host0 = ''INVALID'';
          host = inet_ntop (sin_addr address) host0 (length host0);
          port = be16toh (sin_port address)
      in snprintf 32 (host @ '':'' @ dec (unat port)))"

definition setSockAddrInternet :: "sockaddr_in \<Rightarrow> sockaddr_in \<Rightarrow> sockaddr_in" where
  "setSockAddrInternet address this = address"

definition ipNetEnd :: "sockaddr_in \<Rightarrow> 32 word" where "ipNetEnd address = sin_addr address"

definition portNetEnd :: "sockaddr_in \<Rightarrow> 16 word" where "portNetEnd address = sin_port address"

text \<open>\<open>name\<close> is the kernel's answer to \<^verbatim>\<open>getsockname\<close> or \<^verbatim>\<open>getpeername\<close>.\<close>

definition zero_address :: sockaddr_in where
  "zero_address = \<lparr>sin_family = 0, sin_port = 0, sin_addr = 0\<rparr>"

definition getLocalAddress :: "sockaddr_in option \<Rightarrow> sockaddr_in" where
  "getLocalAddress name = (case name of Some a \<Rightarrow> a | None \<Rightarrow> zero_address)"

definition getPeerAddress :: "sockaddr_in option \<Rightarrow> sockaddr_in" where
  "getPeerAddress name = (case name of Some a \<Rightarrow> a | None \<Rightarrow> zero_address)"

lemma swap16_swap16 [simp]: "swap16 (swap16 x) = x"
proof -
  have b: "unat x < 65536" by (rule unat16_bound)
  have lt: "unat x mod 256 * 256 + unat x div 256 < 65536"
  proof -
    have "unat x mod 256 \<le> 255" by (simp add: less_Suc_eq_le [symmetric])
    moreover have "unat x div 256 \<le> 255" using b by simp
    ultimately show ?thesis by linarith
  qed
  then have u: "unat (swap16 x) = unat x mod 256 * 256 + unat x div 256"
    unfolding swap16_def unsigned_of_nat by (simp add: take_bit_nat_eq_self)
  have d: "unat x div 256 < 256" using b by simp
  have "unat (swap16 x) mod 256 * 256 + unat (swap16 x) div 256 = unat x"
    unfolding u using d by simp
  then show ?thesis by (simp add: swap16_def [of "swap16 x"])
qed

lemma dec_pos: "1 \<le> length (dec n)"
  by (cases "dec n") auto

lemma dotted_long: "7 \<le> length (dotted a)"
  using dec_pos [of "unat a mod 256"] dec_pos [of "unat a div 256 mod 256"]
    dec_pos [of "unat a div 65536 mod 256"] dec_pos [of "unat a div 16777216"]
  by (simp add: dotted_def)

lemma dec_byte: "n < 256 \<Longrightarrow> length (dec n) \<le> 3"
  by (rule length_dec) simp_all

lemma dotted_short: "length (dotted a) \<le> 15"
proof -
  have "unat a < 4294967296" by (rule unat32_bound)
  then have "unat a div 16777216 < 256" by simp
  then show ?thesis
    using dec_byte [of "unat a mod 256"] dec_byte [of "unat a div 256 mod 256"]
      dec_byte [of "unat a div 65536 mod 256"] dec_byte [of "unat a div 16777216"]
    by (simp add: dotted_def)
qed

text \<open>ToIP gives the address in dotted notation, but toIPPort never does: it tells inet_ntop that
  the destination has room for 7 bytes (the length of the text "INVALID" already there), which is less
  than the shortest address needs, so the host part is "INVALID" for every address. The port is the
  one the address was made with.\<close>

theorem toIPPort_invalid:
  "toIPPort address = ''INVALID:'' @ dec (unat (be16toh (sin_port address))) \<and>
   toIP address = dotted (sin_addr address) \<and>
   be16toh (sin_port (InternetAddress_port p)) = p"
proof -
  have "unat (be16toh (sin_port address)) < 10 ^ 5"
    using unat16_bound [of "be16toh (sin_port address)"] by simp
  then have "length (dec (unat (be16toh (sin_port address)))) \<le> 5" by (rule length_dec) simp
  then show ?thesis
    using dotted_long [of "sin_addr address"] dotted_short [of "sin_addr address"]
    by (simp add: toIPPort_def toIP_def inet_ntop_def snprintf_def InternetAddress_port_def
        htobe16_def be16toh_def)
qed

subsection \<open>The owner of a descriptor\<close>

text \<open>\<open>os_closed\<close> lists the descriptors \<^verbatim>\<open>close\<close> was called on, \<open>os_options\<close> the options set.\<close>

datatype sock_option = TCP_NODELAY | SO_REUSEADDR | SO_KEEPALIVE

record os =
  os_closed :: "int list"
  os_options :: "(int \<times> sock_option \<times> bool) list"
  os_listening :: "int list"

record socket =
  sockfd :: int

definition Socket_new :: "int \<Rightarrow> socket" where "Socket_new fd = \<lparr>sockfd = fd\<rparr>"

definition setNoneFd :: "socket \<Rightarrow> socket" where "setNoneFd s = s\<lparr>sockfd := -1\<rparr>"

definition socket_isValid :: "socket \<Rightarrow> bool" where "socket_isValid s \<longleftrightarrow> 0 \<le> sockfd s"

definition Socket_delete :: "socket \<Rightarrow> os \<Rightarrow> os" where
  "Socket_delete s os = (if socket_isValid s then os\<lparr>os_closed := os_closed os @ [sockfd s]\<rparr> else os)"

text \<open>Both moves return the new owner and what is left of the old one.\<close>

definition Socket_move :: "socket \<Rightarrow> socket \<times> socket" where
  "Socket_move s = (\<lparr>sockfd = sockfd s\<rparr>, setNoneFd s)"

definition Socket_assign :: "socket \<Rightarrow> socket \<Rightarrow> socket \<times> socket" where
  "Socket_assign this rhs = (this\<lparr>sockfd := sockfd rhs\<rparr>, setNoneFd rhs)"

definition socket_listen :: "socket \<Rightarrow> os \<Rightarrow> os" where
  "socket_listen s os = os\<lparr>os_listening := os_listening os @ [sockfd s]\<rparr>"

datatype accept_log = Log_nothing | Log_eagain | Log_expected | Log_unexpected int | Log_unknown int

definition expected_errors :: "int list" where
  "expected_errors = [103, 4, 71, 1, 24]"

definition unexpected_errors :: "int list" where
  "unexpected_errors = [9, 14, 22, 23, 105, 12, 88, 95]"

text \<open>\<open>answer\<close> is the kernel's answer to \<^verbatim>\<open>accept4\<close>: a descriptor and the peer's address, or an
  error number.\<close>

definition socket_accept :: "(int \<times> sockaddr_in) + int \<Rightarrow> sockaddr_in \<Rightarrow> int \<times> sockaddr_in \<times> accept_log" where
  "socket_accept answer peerAddress =
     (case answer of
        Inl (fd, address) \<Rightarrow> (fd, setSockAddrInternet address peerAddress, Log_nothing)
      | Inr savedErrno \<Rightarrow>
          (-1, peerAddress,
           if savedErrno = eagain then Log_eagain
           else if savedErrno \<in> set expected_errors then Log_expected
           else if savedErrno \<in> set unexpected_errors then Log_unexpected savedErrno
           else Log_unknown savedErrno))"

definition setTcpNoDelay :: "bool \<Rightarrow> socket \<Rightarrow> os \<Rightarrow> os" where
  "setTcpNoDelay on s os = os\<lparr>os_options := os_options os @ [(sockfd s, TCP_NODELAY, on)]\<rparr>"

definition setReuseAddr :: "bool \<Rightarrow> socket \<Rightarrow> os \<Rightarrow> os" where
  "setReuseAddr on s os = os\<lparr>os_options := os_options os @ [(sockfd s, SO_REUSEADDR, on)]\<rparr>"

definition setKeepAlive :: "bool \<Rightarrow> socket \<Rightarrow> os \<Rightarrow> os" where
  "setKeepAlive on s os = os\<lparr>os_options := os_options os @ [(sockfd s, SO_KEEPALIVE, on)]\<rparr>"

text \<open>\<open>answer\<close> is \<^verbatim>\<open>getsockopt\<close>'s: the option's value or an error number.\<close>

definition getSocketError :: "int + int \<Rightarrow> int" where
  "getSocketError answer = (case answer of Inl optval \<Rightarrow> optval | Inr errno \<Rightarrow> errno)"

subsection \<open>The kernel's end of a connection\<close>

datatype write_answer = Write_space nat | Write_error int

record endpoint =
  so_in :: string
  so_in_closed :: bool
  so_out :: string
  so_answers :: "write_answer list"
  so_shut_rd :: bool
  so_shut_wr :: bool

definition endpoint_new :: endpoint where
  "endpoint_new = \<lparr>so_in = [], so_in_closed = False, so_out = [], so_answers = [], so_shut_rd = False,
     so_shut_wr = False\<rparr>"

text \<open>\<^verbatim>\<open>write(2)\<close>: the kernel takes a prefix of the bytes, at most the space it answers with, or
  reports an error; without a prepared answer it has room for everything.\<close>

definition sys_write :: "string \<Rightarrow> endpoint \<Rightarrow> (nat + int) \<times> endpoint" where
  "sys_write s so =
     (case so_answers so of
        [] \<Rightarrow> (Inl (length s), so\<lparr>so_out := so_out so @ s\<rparr>)
      | Write_space n # as \<Rightarrow>
          (Inl (min n (length s)), so\<lparr>so_out := so_out so @ take n s, so_answers := as\<rparr>)
      | Write_error e # as \<Rightarrow> (Inr e, so\<lparr>so_answers := as\<rparr>))"

fun sys_readv :: "nat \<Rightarrow> endpoint \<Rightarrow> readv_result \<times> endpoint" where
  "sys_readv cap so =
     (let (r, p, c) = stream_readv cap (so_in so, so_in_closed so) in (r, so\<lparr>so_in := p\<rparr>))"

lemma sys_readv_stream:
  "sys_readv cap so = (case stream_readv cap (so_in so, so_in_closed so) of (r, p, c) \<Rightarrow> (r, so\<lparr>so_in := p\<rparr>))"
  by simp

lemma readFd_sys:
  assumes "readFd stream_readv k e0 b = Some r" and "k = (so_in so, so_in_closed so)"
  shows "readFd sys_readv so e0 b =
    (case r of (n, err, b', p, c) \<Rightarrow> Some (n, err, b', so\<lparr>so_in := p\<rparr>))"
proof -
  have "\<forall>so :: endpoint. rv = stream_readv \<longrightarrow> k = (so_in so, so_in_closed so) \<longrightarrow> readFd sys_readv so e0 b =
      (case r of (n, err, b', p, c) \<Rightarrow> Some (n, err, b', so\<lparr>so_in := p\<rparr>))"
    if "readFd rv k e0 b = Some r" for rv k e0 b r
  proof (rule readFd.raw_induct [where P = "\<lambda>rv k e0 b r. \<forall>so :: endpoint. rv = stream_readv \<longrightarrow>
      k = (so_in so, so_in_closed so) \<longrightarrow> readFd sys_readv so e0 b =
      (case r of (n, err, b', p, c) \<Rightarrow> Some (n, err, b', so\<lparr>so_in := p\<rparr>))", OF _ that], goal_cases)
    case (1 f rv k e0 b r)
    show ?case
    proof (intro allI impI)
      fix so :: endpoint assume rv: "rv = stream_readv" and k: "k = (so_in so, so_in_closed so)"
      note run = 1(2) [unfolded rv k Let_def]
      let ?cap = "writableBytes b + extrabuf_size"
      note step = readFd.simps [of sys_readv so e0 b, unfolded Let_def]
      show "readFd sys_readv so e0 b = (case r of (n, err, b', p, c) \<Rightarrow> Some (n, err, b', so\<lparr>so_in := p\<rparr>))"
      proof (cases "so_in so = []")
        case True
        then have "so\<lparr>so_in := []\<rparr> = so" by simp
        then show ?thesis using run step True by (cases "so_in_closed so") auto
      next
        case False
        let ?s = "take ?cap (so_in so)" and ?p = "drop ?cap (so_in so)"
        have a: "stream_readv ?cap (so_in so, so_in_closed so) = (Readv_bytes ?s, (?p, so_in_closed so))"
          and a': "sys_readv ?cap so = (Readv_bytes ?s, so\<lparr>so_in := ?p\<rparr>)"
          using False by simp_all
        note step = step [unfolded a']
        show ?thesis
        proof (cases "length ?s \<le> writableBytes b")
          case True
          then show ?thesis using run step unfolding a by auto
        next
          case big: False
          then obtain b1 where b1: "append_buf (drop (writableBytes b) ?s)
              (b\<lparr>buf_data := overwrite (beginWrite b) (take (writableBytes b) ?s) (buf_data b),
                 writerIndex := length (buf_data b)\<rparr>) = Some b1"
            using run unfolding a by (auto simp: Option.bind_eq_Some_conv)
          show ?thesis
          proof (cases "length ?s = ?cap")
            case True
            then obtain m err b2 p c where rec: "f stream_readv (?p, so_in_closed so) e0 b1 = Some (m, err, b2, p, c)"
              and r: "r = (int (length ?s) + m, err, b2, p, c)"
              using run big b1 unfolding a by (auto simp: Option.bind_eq_Some_conv)
            have "readFd sys_readv (so\<lparr>so_in := ?p\<rparr>) e0 b1 = Some (m, err, b2, so\<lparr>so_in := p\<rparr>)"
              using 1(1) [OF rec] by auto
            then show ?thesis using step big b1 True r unfolding a by simp
          next
            case small: False
            then show ?thesis using run step big b1 unfolding a by auto
          qed
        qed
      qed
    qed
  qed
  then show ?thesis using assms by blast
qed

lemma sys_readFd_drains:
  assumes "buf_inv b"
  shows "\<exists>n err b'. readFd sys_readv so e0 b = Some (n, err, b', so\<lparr>so_in := []\<rparr>) \<and> buf_inv b' \<and>
    toString b' = toString b @ so_in so \<and> (so_in so \<noteq> [] \<longrightarrow> 0 < n)"
proof -
  obtain n err b' where "readFd stream_readv (so_in so, so_in_closed so) e0 b =
      Some (n, err, b', ([], so_in_closed so))" "buf_inv b'" "toString b' = toString b @ so_in so"
    "so_in so \<noteq> [] \<longrightarrow> 0 < n"
    using stream_drains [OF assms] by blast
  then show ?thesis using readFd_sys by fastforce
qed

definition shutdownWrite :: "endpoint \<Rightarrow> endpoint" where
  "shutdownWrite so = so\<lparr>so_shut_rd := True\<rparr>"

text \<open>The one owner of a descriptor closes it, once: a socket moved from and its new owner together
  close the descriptor exactly once, in either order. Assigning over a socket forgets the descriptor it
  held: of two valid descriptors only the assigned one is ever closed.\<close>

theorem socket_closed_once:
  assumes "0 \<le> a" and "0 \<le> b"
  shows "(case Socket_move (Socket_new a) of (s, s0) \<Rightarrow>
      os_closed (Socket_delete s0 (Socket_delete s os)) = os_closed os @ [a] \<and>
      os_closed (Socket_delete s (Socket_delete s0 os)) = os_closed os @ [a]) \<and>
    (case Socket_assign (Socket_new a) (Socket_new b) of (s, s0) \<Rightarrow>
      os_closed (Socket_delete s0 (Socket_delete s os)) = os_closed os @ [b])"
  using assms by (simp add: Socket_move_def Socket_assign_def Socket_new_def Socket_delete_def
      socket_isValid_def setNoneFd_def)

theorem socket_closed_once_witness:
  "case Socket_assign (Socket_new 5) (Socket_new 6) of (s, s0) \<Rightarrow>
    os_closed (Socket_delete s0 (Socket_delete s
      \<lparr>os_closed = [], os_options = [], os_listening = []\<rparr>)) = [6]"
  using socket_closed_once [of 5 6 "\<lparr>os_closed = [], os_options = [], os_listening = []\<rparr>"] by simp

end
