(* ===== verification/Channel.thy ===== *)
theory Channel
  imports Prelude
begin

text \<open>
  \<^verbatim>\<open>mutlithread/multiThread/net/Channel.{h,cpp}\<close>: a file descriptor, the events its owner asks
  for and the callbacks to run when they come. A channel's callbacks are a function from the kind
  of event to what the callback does to the world; which of the four are set is part of the
  channel. \<open>Epoll\<close> adds the operations that go through \<^verbatim>\<open>Channel::update\<close>.
\<close>

unbundle bit_operations_syntax

type_synonym events = "32 word"

definition EPOLLIN :: events where "EPOLLIN = 0x001"

definition EPOLLPRI :: events where "EPOLLPRI = 0x002"

definition EPOLLOUT :: events where "EPOLLOUT = 0x004"

definition EPOLLERR :: events where "EPOLLERR = 0x008"

definition EPOLLHUP :: events where "EPOLLHUP = 0x010"

definition EPOLLRDHUP :: events where "EPOLLRDHUP = 0x2000"

lemmas epoll_bits = EPOLLIN_def EPOLLPRI_def EPOLLOUT_def EPOLLERR_def EPOLLHUP_def EPOLLRDHUP_def

definition kNoneEvent :: events where "kNoneEvent = 0"

definition kReadEvent :: events where "kReadEvent = EPOLLIN OR EPOLLPRI"

definition kWriteEvent :: events where "kWriteEvent = EPOLLOUT"

text \<open>The states a channel can have in an \<^verbatim>\<open>Epoll\<close> (\<^verbatim>\<open>Epoll.cpp\<close>).\<close>

definition kNew :: int where "kNew = -1"

definition kAdded :: int where "kAdded = 1"

definition kDeleted :: int where "kDeleted = 2"

datatype callback = Read_cb | Write_cb | Close_cb | Error_cb

record channel =
  ch_loop :: nat
  ch_fd :: int
  ch_events :: events
  ch_revents :: events
  ch_statusInEpoll :: int
  ch_callbacks :: "callback set"
  ch_eventHandling :: bool
  ch_addedToLoop :: bool
  ch_tie :: nat
  ch_tied :: bool

definition Channel_new :: "nat \<Rightarrow> int \<Rightarrow> channel" where
  "Channel_new loop fd = \<lparr>ch_loop = loop, ch_fd = fd, ch_events = 0, ch_revents = 0,
     ch_statusInEpoll = -1, ch_callbacks = {}, ch_eventHandling = False, ch_addedToLoop = False,
     ch_tie = 0, ch_tied = False\<rparr>"

text \<open>The destructor's assertions.\<close>

definition Channel_delete :: "channel \<Rightarrow> unit option" where
  "Channel_delete c = do { assertion (\<not> ch_eventHandling c); assertion (\<not> ch_addedToLoop c) }"

definition channel_tie :: "nat \<Rightarrow> channel \<Rightarrow> channel" where
  "channel_tie obj c = c\<lparr>ch_tie := obj, ch_tied := True\<rparr>"

definition setReadCallback :: "channel \<Rightarrow> channel" where
  "setReadCallback c = c\<lparr>ch_callbacks := insert Read_cb (ch_callbacks c)\<rparr>"

definition setWriteCallback :: "channel \<Rightarrow> channel" where
  "setWriteCallback c = c\<lparr>ch_callbacks := insert Write_cb (ch_callbacks c)\<rparr>"

definition setCloseCallback :: "channel \<Rightarrow> channel" where
  "setCloseCallback c = c\<lparr>ch_callbacks := insert Close_cb (ch_callbacks c)\<rparr>"

definition setErrorCallback :: "channel \<Rightarrow> channel" where
  "setErrorCallback c = c\<lparr>ch_callbacks := insert Error_cb (ch_callbacks c)\<rparr>"

definition setRevents :: "events \<Rightarrow> channel \<Rightarrow> channel" where
  "setRevents revt c = c\<lparr>ch_revents := revt\<rparr>"

definition isNoneEvent :: "channel \<Rightarrow> bool" where
  "isNoneEvent c \<longleftrightarrow> ch_events c = kNoneEvent"

definition isWriting :: "channel \<Rightarrow> bool" where
  "isWriting c \<longleftrightarrow> ch_events c AND kWriteEvent \<noteq> 0"

definition setStatusInEpoll :: "int \<Rightarrow> channel \<Rightarrow> channel" where
  "setStatusInEpoll status c = c\<lparr>ch_statusInEpoll := status\<rparr>"

subsection \<open>Dispatching an event\<close>

definition has :: "events \<Rightarrow> events \<Rightarrow> bool" where
  "has revents bits \<longleftrightarrow> revents AND bits \<noteq> 0"

definition fires :: "channel \<Rightarrow> callback \<Rightarrow> bool" where
  "fires c k \<longleftrightarrow> k \<in> ch_callbacks c \<and>
     (case k of
        Close_cb \<Rightarrow> has (ch_revents c) EPOLLHUP \<and> \<not> has (ch_revents c) EPOLLIN
      | Error_cb \<Rightarrow> has (ch_revents c) EPOLLERR
      | Read_cb \<Rightarrow> has (ch_revents c) (EPOLLIN OR EPOLLPRI OR EPOLLRDHUP)
      | Write_cb \<Rightarrow> has (ch_revents c) EPOLLOUT)"

text \<open>
  The world \<open>'w\<close> holds the channel and whatever the callbacks touch; \<open>gc\<close> and \<open>pc\<close> reach the
  channel in it. The code looks at \<open>revents_\<close> again before each of the four steps, so does this.
\<close>

definition run_callback :: "('w \<Rightarrow> channel) \<Rightarrow> (callback \<Rightarrow> 'w \<Rightarrow> 'w option) \<Rightarrow> callback \<Rightarrow> 'w \<Rightarrow> 'w option" where
  "run_callback gc cb k w = (if fires (gc w) k then cb k w else Some w)"

definition handleEventWithGuard :: "('w \<Rightarrow> channel) \<Rightarrow> (channel \<Rightarrow> 'w \<Rightarrow> 'w)
    \<Rightarrow> (callback \<Rightarrow> 'w \<Rightarrow> 'w option) \<Rightarrow> 'w \<Rightarrow> 'w option" where
  "handleEventWithGuard gc pc cb w = do {
     let w0 = pc ((gc w)\<lparr>ch_eventHandling := True\<rparr>) w;
     w1 \<leftarrow> run_callback gc cb Close_cb w0;
     w2 \<leftarrow> run_callback gc cb Error_cb w1;
     w3 \<leftarrow> run_callback gc cb Read_cb w2;
     w4 \<leftarrow> run_callback gc cb Write_cb w3;
     Some (pc ((gc w4)\<lparr>ch_eventHandling := False\<rparr>) w4) }"

text \<open>\<open>alive\<close> is \<^verbatim>\<open>tie_.lock() != nullptr\<close>.\<close>

definition handleEvent :: "('w \<Rightarrow> channel) \<Rightarrow> (channel \<Rightarrow> 'w \<Rightarrow> 'w)
    \<Rightarrow> (callback \<Rightarrow> 'w \<Rightarrow> 'w option) \<Rightarrow> (nat \<Rightarrow> 'w \<Rightarrow> bool) \<Rightarrow> 'w \<Rightarrow> 'w option" where
  "handleEvent gc pc cb alive w =
     (if ch_tied (gc w)
      then if alive (ch_tie (gc w)) w then handleEventWithGuard gc pc cb w else Some w
      else handleEventWithGuard gc pc cb w)"

subsection \<open>Debug output\<close>

definition events_string :: "int \<Rightarrow> events \<Rightarrow> string" where
  "events_string fd event =
     dec_int fd @ '': '' @
     (if has event EPOLLIN then ''IN '' else []) @
     (if has event EPOLLPRI then ''PRI '' else []) @
     (if has event EPOLLOUT then ''OUT '' else []) @
     (if has event EPOLLHUP then ''HUP '' else []) @
     (if has event EPOLLRDHUP then ''RDHUP '' else []) @
     (if has event EPOLLERR then ''ERR '' else [])"

definition reventsToString :: "channel \<Rightarrow> string" where
  "reventsToString c = events_string (ch_fd c) (ch_revents c)"

definition eventsToString :: "channel \<Rightarrow> string" where
  "eventsToString c = events_string (ch_fd c) (ch_events c)"

subsection \<open>Facts\<close>

text \<open>The order in which the callbacks of one event run, for callbacks that leave the channel's
  \<open>revents_\<close> and callback slots alone.\<close>

definition callback_order :: "channel \<Rightarrow> callback list" where
  "callback_order c = [k \<leftarrow> [Close_cb, Error_cb, Read_cb, Write_cb]. fires c k]"

fun run_all :: "(callback \<Rightarrow> 'w \<Rightarrow> 'w option) \<Rightarrow> callback list \<Rightarrow> 'w \<Rightarrow> 'w option" where
  "run_all cb [] w = Some w"
| "run_all cb (k # ks) w = do { w' \<leftarrow> cb k w; run_all cb ks w' }"

definition same_dispatch :: "channel \<Rightarrow> channel \<Rightarrow> bool" where
  "same_dispatch c c' \<longleftrightarrow> ch_revents c' = ch_revents c \<and> ch_callbacks c' = ch_callbacks c"

lemma same_dispatch_fires: "same_dispatch c c' \<Longrightarrow> fires c' k = fires c k"
  by (cases k) (simp_all add: same_dispatch_def fires_def)

fun run_guarded :: "('w \<Rightarrow> channel) \<Rightarrow> (callback \<Rightarrow> 'w \<Rightarrow> 'w option) \<Rightarrow> callback list \<Rightarrow> 'w \<Rightarrow> 'w option" where
  "run_guarded gc cb [] w = Some w"
| "run_guarded gc cb (k # ks) w = Option.bind (run_callback gc cb k w) (run_guarded gc cb ks)"

lemma run_guarded_all:
  assumes cb: "\<And>k w w'. cb k w = Some w' \<Longrightarrow> same_dispatch (gc w) (gc w')"
    and "same_dispatch c (gc w)"
  shows "run_guarded gc cb ks w = run_all cb [k \<leftarrow> ks. fires c k] w"
  using assms(2)
proof (induction ks arbitrary: w)
  case (Cons k ks)
  note f = same_dispatch_fires [OF Cons.prems, of k]
  show ?case
  proof (cases "fires c k")
    case True
    show ?thesis
    proof (cases "cb k w")
      case (Some w')
      then have "same_dispatch c (gc w')" using cb [OF Some] Cons.prems by (simp add: same_dispatch_def)
      from Cons.IH [OF this] show ?thesis using True f Some by (simp add: run_callback_def)
    qed (use True f in \<open>simp add: run_callback_def\<close>)
  next
    case False
    then show ?thesis using f Cons by (simp add: run_callback_def)
  qed
qed simp


definition logging_cb :: "callback \<Rightarrow> channel \<times> callback list \<Rightarrow> (channel \<times> callback list) option" where
  "logging_cb k w = Some (fst w, snd w @ [k])"


lemma isWriting_simps [simp]:
  "isWriting (c\<lparr>ch_events := ch_events c OR kReadEvent\<rparr>) = isWriting c"
  "isWriting (c\<lparr>ch_events := ch_events c OR kWriteEvent\<rparr>)"
  "\<not> isWriting (c\<lparr>ch_events := ch_events c AND NOT kWriteEvent\<rparr>)"
  "\<not> isWriting (c\<lparr>ch_events := kNoneEvent\<rparr>)"
  by (simp_all add: isWriting_def kNoneEvent_def kReadEvent_def kWriteEvent_def epoll_bits
      word_bw_assocs word_ao_dist)

end
