(* ===== verification/Epoll.thy ===== *)
theory Epoll
  imports Channel
begin

text \<open>
  \<^verbatim>\<open>mutlithread/multiThread/net/Epoll.{h,cpp}\<close> and the operations of \<^verbatim>\<open>Channel\<close> and
  \<^verbatim>\<open>EventLoop\<close> that end in it: a loop's channels, the map from file descriptors to channels, and
  the interest list of the kernel's epoll instance.

  A \<^verbatim>\<open>Channel*\<close> is an address (\<open>nat\<close>) and \<open>ep_heap\<close> holds the live channels. \<open>epoll_ctl\<close> is the
  system call: it adds only what is absent, modifies and deletes only what is present, and
  reports an error otherwise (EEXIST, ENOENT); the code only logs the error, counted in \<open>ep_errors\<close>.
\<close>

datatype ctl_op = EPOLL_CTL_ADD | EPOLL_CTL_DEL | EPOLL_CTL_MOD

type_synonym interest = "int \<rightharpoonup> events \<times> nat"

fun epoll_ctl :: "ctl_op \<Rightarrow> int \<Rightarrow> events \<times> nat \<Rightarrow> interest \<Rightarrow> interest option" where
  "epoll_ctl EPOLL_CTL_ADD fd ev k = (if k fd = None then Some (k(fd \<mapsto> ev)) else None)"
| "epoll_ctl EPOLL_CTL_MOD fd ev k = (if k fd = None then None else Some (k(fd \<mapsto> ev)))"
| "epoll_ctl EPOLL_CTL_DEL fd ev k = (if k fd = None then None else Some (k(fd := None)))"

record epoll =
  ep_owner :: nat
  ep_heap :: "nat \<rightharpoonup> channel"
  ep_channels :: "int \<rightharpoonup> nat"
  ep_interest :: interest
  ep_errors :: nat
  ep_events :: nat

definition kInitEventListSize :: nat where "kInitEventListSize = 16"

definition Epoll_new :: "nat \<Rightarrow> epoll" where
  "Epoll_new loop = \<lparr>ep_owner = loop, ep_heap = Map.empty, ep_channels = Map.empty,
     ep_interest = Map.empty, ep_errors = 0, ep_events = kInitEventListSize\<rparr>"

definition put_channel :: "nat \<Rightarrow> channel \<Rightarrow> epoll \<Rightarrow> epoll" where
  "put_channel p c ep = ep\<lparr>ep_heap := (ep_heap ep)(p \<mapsto> c)\<rparr>"

definition epoll_update :: "ctl_op \<Rightarrow> nat \<Rightarrow> channel \<Rightarrow> epoll \<Rightarrow> epoll" where
  "epoll_update operation p c ep =
     (case epoll_ctl operation (ch_fd c) (ch_events c, p) (ep_interest ep) of
        Some k \<Rightarrow> ep\<lparr>ep_interest := k\<rparr>
      | None \<Rightarrow> ep\<lparr>ep_errors := ep_errors ep + 1\<rparr>)"

definition updateChannel :: "nat \<Rightarrow> epoll \<Rightarrow> epoll option" where
  "updateChannel p ep = do {
     c \<leftarrow> ep_heap ep p;
     let status = ch_statusInEpoll c;
     let fd = ch_fd c;
     if status = kNew \<or> status = kDeleted
     then do {
       ep1 \<leftarrow> (if status = kNew
              then do {
                assertion (ep_channels ep fd = None);
                Some (ep\<lparr>ep_channels := (ep_channels ep)(fd \<mapsto> p)\<rparr>) }
              else do {
                assertion (ep_channels ep fd \<noteq> None);
                assertion (ep_channels ep fd = Some p);
                Some ep });
       let c' = setStatusInEpoll kAdded c;
       Some (epoll_update EPOLL_CTL_ADD p c' (put_channel p c' ep1)) }
     else do {
       assertion (ep_channels ep fd \<noteq> None);
       assertion (ep_channels ep fd = Some p);
       assertion (status = kAdded);
       if isNoneEvent c
       then Some (put_channel p (setStatusInEpoll kDeleted c) (epoll_update EPOLL_CTL_DEL p c ep))
       else Some (epoll_update EPOLL_CTL_MOD p c ep) } }"

definition removeChannel :: "nat \<Rightarrow> epoll \<Rightarrow> epoll option" where
  "removeChannel p ep = do {
     c \<leftarrow> ep_heap ep p;
     let ep1 = ep\<lparr>ep_channels := (ep_channels ep)(ch_fd c := None)\<rparr>;
     let ep2 = (if ch_statusInEpoll c = kAdded then epoll_update EPOLL_CTL_DEL p c ep1 else ep1);
     Some (put_channel p (setStatusInEpoll kNew c) ep2) }"

definition hasChannel :: "nat \<Rightarrow> epoll \<Rightarrow> bool option" where
  "hasChannel p ep = do { c \<leftarrow> ep_heap ep p; Some (ep_channels ep (ch_fd c) = Some p) }"

fun operationToString :: "ctl_op \<Rightarrow> string" where
  "operationToString EPOLL_CTL_ADD = ''epoll add''"
| "operationToString EPOLL_CTL_DEL = ''epoll delete''"
| "operationToString EPOLL_CTL_MOD = ''epoll modify''"

subsection \<open>Channel operations that reach the epoll instance\<close>

text \<open>On the way is the loop, which asserts that the channel is one of its own.\<close>

definition own_channel :: "nat \<Rightarrow> epoll \<Rightarrow> unit option" where
  "own_channel p ep = do { c \<leftarrow> ep_heap ep p; assertion (ch_loop c = ep_owner ep) }"

definition loop_updateChannel :: "nat \<Rightarrow> epoll \<Rightarrow> epoll option" where
  "loop_updateChannel p ep = do { own_channel p ep; updateChannel p ep }"

definition loop_removeChannel :: "nat \<Rightarrow> epoll \<Rightarrow> epoll option" where
  "loop_removeChannel p ep = do { own_channel p ep; removeChannel p ep }"

definition loop_hasChannel :: "nat \<Rightarrow> epoll \<Rightarrow> bool option" where
  "loop_hasChannel p ep = do { own_channel p ep; hasChannel p ep }"

definition new_channel :: "nat \<Rightarrow> int \<Rightarrow> epoll \<Rightarrow> epoll" where
  "new_channel p fd ep = put_channel p (Channel_new (ep_owner ep) fd) ep"

definition channel_update :: "nat \<Rightarrow> epoll \<Rightarrow> epoll option" where
  "channel_update p ep = do {
     c \<leftarrow> ep_heap ep p;
     loop_updateChannel p (put_channel p (c\<lparr>ch_addedToLoop := True\<rparr>) ep) }"

definition enableReading :: "nat \<Rightarrow> epoll \<Rightarrow> epoll option" where
  "enableReading p ep = do {
     c \<leftarrow> ep_heap ep p;
     channel_update p (put_channel p (c\<lparr>ch_events := ch_events c OR kReadEvent\<rparr>) ep) }"

definition enableWriting :: "nat \<Rightarrow> epoll \<Rightarrow> epoll option" where
  "enableWriting p ep = do {
     c \<leftarrow> ep_heap ep p;
     channel_update p (put_channel p (c\<lparr>ch_events := ch_events c OR kWriteEvent\<rparr>) ep) }"

definition disableWriting :: "nat \<Rightarrow> epoll \<Rightarrow> epoll option" where
  "disableWriting p ep = do {
     c \<leftarrow> ep_heap ep p;
     channel_update p (put_channel p (c\<lparr>ch_events := ch_events c AND NOT kWriteEvent\<rparr>) ep) }"

definition disableAll :: "nat \<Rightarrow> epoll \<Rightarrow> epoll option" where
  "disableAll p ep = do {
     c \<leftarrow> ep_heap ep p;
     channel_update p (put_channel p (c\<lparr>ch_events := kNoneEvent\<rparr>) ep) }"

definition channel_remove :: "nat \<Rightarrow> epoll \<Rightarrow> epoll option" where
  "channel_remove p ep = do {
     c \<leftarrow> ep_heap ep p;
     assertion (isNoneEvent c);
     loop_removeChannel p (put_channel p (c\<lparr>ch_addedToLoop := False\<rparr>) ep) }"

definition delete_channel :: "nat \<Rightarrow> epoll \<Rightarrow> epoll option" where
  "delete_channel p ep = do {
     c \<leftarrow> ep_heap ep p;
     Channel_delete c;
     Some (ep\<lparr>ep_heap := (ep_heap ep)(p := None)\<rparr>) }"

subsection \<open>Waiting for events\<close>

fun fillActiveChannels :: "(events \<times> nat) list \<Rightarrow> epoll \<Rightarrow> (nat list \<times> epoll) option" where
  "fillActiveChannels [] ep = Some ([], ep)"
| "fillActiveChannels ((ev, p) # rest) ep = do {
     c \<leftarrow> ep_heap ep p;
     (ps, ep') \<leftarrow> fillActiveChannels rest (put_channel p (setRevents ev c) ep);
     Some (p # ps, ep') }"

text \<open>\<open>ready\<close> is the answer of \<^verbatim>\<open>epoll_wait\<close>: the events stored, \<open>None\<close> for an error return. The
  assertion of \<^verbatim>\<open>fillActiveChannels\<close> is checked here, where the count is known.\<close>

definition poll :: "(events \<times> nat) list option \<Rightarrow> epoll \<Rightarrow> (nat list \<times> epoll) option" where
  "poll ready ep =
     (case ready of
        Some evs \<Rightarrow>
          if 0 < length evs
          then do {
            assertion (length evs \<le> ep_events ep);
            (active, ep') \<leftarrow> fillActiveChannels evs ep;
            Some (active, if length evs = ep_events ep then ep'\<lparr>ep_events := ep_events ep * 2\<rparr> else ep') }
          else Some ([], ep)
      | None \<Rightarrow> Some ([], ep))"

subsection \<open>The registration invariant\<close>

definition registered :: "nat \<Rightarrow> epoll \<Rightarrow> channel \<Rightarrow> bool" where
  "registered p ep c \<longleftrightarrow>
     (if ch_statusInEpoll c = kNew
      then ep_channels ep (ch_fd c) = None \<and> ep_interest ep (ch_fd c) = None \<and> ch_events c = 0
      else if ch_statusInEpoll c = kAdded
      then ep_channels ep (ch_fd c) = Some p \<and> ep_interest ep (ch_fd c) = Some (ch_events c, p)
      else ch_statusInEpoll c = kDeleted \<and> ep_channels ep (ch_fd c) = Some p \<and>
        ep_interest ep (ch_fd c) = None \<and> ch_events c = 0)"

definition epoll_inv :: "epoll \<Rightarrow> bool" where
  "epoll_inv ep \<longleftrightarrow> ep_errors ep = 0 \<and>
     (\<forall>p c. ep_heap ep p = Some c \<longrightarrow> registered p ep c \<and> ch_loop c = ep_owner ep) \<and>
     (\<forall>p q c d. ep_heap ep p = Some c \<longrightarrow> ep_heap ep q = Some d \<longrightarrow> ch_fd c = ch_fd d \<longrightarrow> p = q) \<and>
     (\<forall>fd. (\<forall>p c. ep_heap ep p = Some c \<longrightarrow> ch_fd c \<noteq> fd) \<longrightarrow>
        ep_channels ep fd = None \<and> ep_interest ep fd = None)"

datatype reg_op = New_channel nat int | Enable_reading nat | Enable_writing nat | Disable_writing nat
  | Disable_all nat | Remove nat | Delete nat

fun reg_step :: "reg_op \<Rightarrow> epoll \<Rightarrow> epoll option" where
  "reg_step (New_channel p fd) ep = Some (new_channel p fd ep)"
| "reg_step (Enable_reading p) ep = enableReading p ep"
| "reg_step (Enable_writing p) ep = enableWriting p ep"
| "reg_step (Disable_writing p) ep = disableWriting p ep"
| "reg_step (Disable_all p) ep = disableAll p ep"
| "reg_step (Remove p) ep = channel_remove p ep"
| "reg_step (Delete p) ep = delete_channel p ep"

text \<open>What the callers owe: a new channel is a new object on a descriptor no live channel has,
  a channel that is used is alive, one that is removed asks for no event, and one that is deleted
  has been removed and is not in the middle of an event.\<close>

fun reg_ok :: "reg_op \<Rightarrow> epoll \<Rightarrow> bool" where
  "reg_ok (New_channel p fd) ep \<longleftrightarrow> ep_heap ep p = None \<and> (\<forall>q c. ep_heap ep q = Some c \<longrightarrow> ch_fd c \<noteq> fd)"
| "reg_ok (Enable_reading p) ep \<longleftrightarrow> p \<in> dom (ep_heap ep)"
| "reg_ok (Enable_writing p) ep \<longleftrightarrow> p \<in> dom (ep_heap ep)"
| "reg_ok (Disable_writing p) ep \<longleftrightarrow> p \<in> dom (ep_heap ep)"
| "reg_ok (Disable_all p) ep \<longleftrightarrow> p \<in> dom (ep_heap ep)"
| "reg_ok (Remove p) ep \<longleftrightarrow> (\<exists>c. ep_heap ep p = Some c \<and> isNoneEvent c)"
| "reg_ok (Delete p) ep \<longleftrightarrow> (\<exists>c. ep_heap ep p = Some c \<and> \<not> ch_eventHandling c \<and>
     \<not> ch_addedToLoop c \<and> ch_statusInEpoll c = kNew)"

lemmas epoll_consts = kNew_def kAdded_def kDeleted_def kNoneEvent_def isNoneEvent_def setStatusInEpoll_def
lemmas epoll_ops = loop_updateChannel_def own_channel_def updateChannel_def epoll_update_def put_channel_def channel_update_def Let_def

lemma epoll_invD:
  assumes "epoll_inv ep" and "ep_heap ep p = Some c"
  shows "registered p ep c" "ch_loop c = ep_owner ep" "ep_errors ep = 0"
  using assms by (auto simp: epoll_inv_def)

text \<open>The one shape every operation on a live channel has: the channel changes but keeps its
  descriptor and its loop, and the two maps change at that descriptor only.\<close>

lemma epoll_inv_at:
  assumes inv: "epoll_inv ep" and c: "ep_heap ep p = Some c"
    and h: "ep_heap ep' = (ep_heap ep)(p \<mapsto> c')"
    and o: "ep_owner ep' = ep_owner ep" "ep_errors ep' = 0"
    and c': "ch_fd c' = ch_fd c" "ch_loop c' = ch_loop c"
    and m: "\<And>fd. fd \<noteq> ch_fd c \<Longrightarrow> ep_channels ep' fd = ep_channels ep fd \<and> ep_interest ep' fd = ep_interest ep fd"
    and r: "registered p ep' c'"
  shows "epoll_inv ep'"
proof -
  have inj: "ch_fd d \<noteq> ch_fd c" if "ep_heap ep q = Some d" "q \<noteq> p" for q d
    using inv c that unfolding epoll_inv_def by metis
  have "registered q ep' d \<and> ch_loop d = ep_owner ep'" if d: "ep_heap ep' q = Some d" for q d
  proof (cases "q = p")
    case True
    then show ?thesis using d h r c' o epoll_invD(2) [OF inv c] by simp
  next
    case False
    then have e: "ep_heap ep q = Some d" using d h by simp
    have "registered q ep' d = registered q ep d"
      using m [OF inj [OF e False]] by (simp add: registered_def)
    then show ?thesis using epoll_invD [OF inv e] o by simp
  qed
  moreover have "q = q'" if "ep_heap ep' q = Some d" "ep_heap ep' q' = Some d'" "ch_fd d = ch_fd d'" for q q' d d'
    using that h c'(1) inj inv c unfolding epoll_inv_def by (auto split: if_splits)
  moreover have "ep_channels ep' fd = None \<and> ep_interest ep' fd = None"
    if "\<forall>q d. ep_heap ep' q = Some d \<longrightarrow> ch_fd d \<noteq> fd" for fd
  proof -
    have "ch_fd c \<noteq> fd" using that [rule_format, of p c'] h c'(1) by simp
    moreover have "\<forall>q d. ep_heap ep q = Some d \<longrightarrow> ch_fd d \<noteq> fd"
      using that h c'(1) c by (metis fun_upd_apply option.inject)
    ultimately show ?thesis using m [of fd] inv unfolding epoll_inv_def by auto
  qed
  ultimately show ?thesis using o(2) unfolding epoll_inv_def by blast
qed

lemma channel_update_ok:
  assumes inv: "epoll_inv ep" and c: "ep_heap ep p = Some c"
  shows "\<exists>ep' c'. channel_update p (put_channel p (c\<lparr>ch_events := ev\<rparr>) ep) = Some ep' \<and> epoll_inv ep' \<and>
    ep_heap ep' = (ep_heap ep)(p \<mapsto> c') \<and> ch_events c' = ev \<and> ch_fd c' = ch_fd c \<and>
    ch_addedToLoop c' \<and> ch_revents c' = ch_revents c \<and> ch_callbacks c' = ch_callbacks c \<and>
    ch_eventHandling c' = ch_eventHandling c \<and> ch_tie c' = ch_tie c \<and> ch_tied c' = ch_tied c \<and>
    ch_statusInEpoll c' = (if ch_statusInEpoll c = kAdded \<and> ev = 0 then kDeleted else kAdded)"
proof -
  note r = epoll_invD(1) [OF inv c, unfolded registered_def] and l = epoll_invD(2,3) [OF inv c]
  let ?c = "c\<lparr>ch_events := ev, ch_addedToLoop := True\<rparr>"
  let ?st = "if ch_statusInEpoll c = kAdded \<and> ev = 0 then kDeleted else kAdded"
  let ?upd = "channel_update p (put_channel p (c\<lparr>ch_events := ev\<rparr>) ep)"
  have "\<exists>ep'. ?upd = Some ep' \<and> ep_heap ep' = (ep_heap ep)(p \<mapsto> ?c\<lparr>ch_statusInEpoll := ?st\<rparr>) \<and>
    ep_owner ep' = ep_owner ep \<and> ep_errors ep' = 0 \<and>
    (\<forall>fd. ep_channels ep' fd = (if fd = ch_fd c then Some p else ep_channels ep fd)) \<and>
    (\<forall>fd. ep_interest ep' fd = (if fd = ch_fd c then (if ?st = kDeleted then None else Some (ev, p))
      else ep_interest ep fd))"
  proof (cases "ch_statusInEpoll c = kAdded")
    case True
    then show ?thesis using r l by (cases c; cases "ev = 0") (simp_all add: epoll_ops epoll_consts)
  next
    case False
    then show ?thesis using r l by (auto simp: epoll_ops epoll_consts split: if_splits)
  qed
  then obtain ep' where ep': "?upd = Some ep'" "ep_heap ep' = (ep_heap ep)(p \<mapsto> ?c\<lparr>ch_statusInEpoll := ?st\<rparr>)"
    "ep_owner ep' = ep_owner ep" "ep_errors ep' = 0"
    "\<forall>fd. ep_channels ep' fd = (if fd = ch_fd c then Some p else ep_channels ep fd)"
    "\<forall>fd. ep_interest ep' fd = (if fd = ch_fd c then (if ?st = kDeleted then None else Some (ev, p))
      else ep_interest ep fd)"
    by blast
  have "epoll_inv ep'"
    using ep' by (intro epoll_inv_at [OF inv c ep'(2,3,4)])
      (auto simp: registered_def epoll_consts)
  then show ?thesis using ep'(1,2) by auto
qed

lemma channel_remove_ok:
  assumes inv: "epoll_inv ep" and c: "ep_heap ep p = Some c" and none: "isNoneEvent c"
  shows "\<exists>ep'. channel_remove p ep = Some ep' \<and> epoll_inv ep' \<and>
    ep_heap ep' = (ep_heap ep)(p \<mapsto> c\<lparr>ch_addedToLoop := False, ch_statusInEpoll := kNew\<rparr>)"
proof -
  note r = epoll_invD(1) [OF inv c, unfolded registered_def] and l = epoll_invD(2,3) [OF inv c]
  have "\<exists>ep'. channel_remove p ep = Some ep' \<and>
    ep_heap ep' = (ep_heap ep)(p \<mapsto> c\<lparr>ch_addedToLoop := False, ch_statusInEpoll := kNew\<rparr>) \<and>
    ep_owner ep' = ep_owner ep \<and> ep_errors ep' = 0 \<and>
    (\<forall>fd. ep_channels ep' fd = (if fd = ch_fd c then None else ep_channels ep fd)) \<and>
    (\<forall>fd. ep_interest ep' fd = (if fd = ch_fd c then None else ep_interest ep fd))"
    using r l none c
    by (auto simp: channel_remove_def loop_removeChannel_def removeChannel_def epoll_ops epoll_consts split: if_splits)
  then obtain ep' where ep': "channel_remove p ep = Some ep'"
    "ep_heap ep' = (ep_heap ep)(p \<mapsto> c\<lparr>ch_addedToLoop := False, ch_statusInEpoll := kNew\<rparr>)"
    "ep_owner ep' = ep_owner ep" "ep_errors ep' = 0"
    "\<forall>fd. ep_channels ep' fd = (if fd = ch_fd c then None else ep_channels ep fd)"
    "\<forall>fd. ep_interest ep' fd = (if fd = ch_fd c then None else ep_interest ep fd)"
    by blast
  have "epoll_inv ep'"
    using ep' none by (intro epoll_inv_at [OF inv c ep'(2,3,4)]) (auto simp: registered_def epoll_consts)
  then show ?thesis using ep'(1,2) by blast
qed

lemma new_channel_inv:
  assumes inv: "epoll_inv ep" and "ep_heap ep p = None"
    and fd: "\<forall>q c. ep_heap ep q = Some c \<longrightarrow> ch_fd c \<noteq> fd"
  shows "epoll_inv (new_channel p fd ep)"
proof -
  let ?ep = "new_channel p fd ep"
  have h: "ep_heap ?ep = (ep_heap ep)(p \<mapsto> Channel_new (ep_owner ep) fd)"
    and same: "ep_channels ?ep = ep_channels ep" "ep_interest ?ep = ep_interest ep"
      "ep_errors ?ep = ep_errors ep" "ep_owner ?ep = ep_owner ep"
    by (simp_all add: new_channel_def put_channel_def)
  have none: "ep_channels ep fd = None" "ep_interest ep fd = None"
    using inv fd by (auto simp: epoll_inv_def)
  have "registered q ?ep d \<and> ch_loop d = ep_owner ep" if "ep_heap ?ep q = Some d" for q d
    using that h inv none
    by (auto simp: epoll_inv_def registered_def same Channel_new_def kNew_def split: if_splits)
  moreover have "q = q'" if "ep_heap ?ep q = Some d" "ep_heap ?ep q' = Some d'" "ch_fd d = ch_fd d'" for q q' d d'
  proof (cases "q = p \<or> q' = p")
    case True
    then show ?thesis using that h fd [rule_format, of q d] fd [rule_format, of q' d']
      by (auto simp: Channel_new_def split: if_splits)
  next
    case False
    then show ?thesis using that h inv by (auto simp: epoll_inv_def)
  qed
  moreover have "ep_channels ep g = None \<and> ep_interest ep g = None"
    if "\<forall>q d. ep_heap ?ep q = Some d \<longrightarrow> ch_fd d \<noteq> g" for g
  proof -
    have "\<forall>q d. ep_heap ep q = Some d \<longrightarrow> ch_fd d \<noteq> g"
      using that h assms(2) by (metis fun_upd_other option.distinct(1))
    then show ?thesis using inv by (auto simp: epoll_inv_def)
  qed
  ultimately show ?thesis using inv unfolding epoll_inv_def same by blast
qed

lemma delete_channel_ok:
  assumes inv: "epoll_inv ep" and c: "ep_heap ep p = Some c"
    and ok: "\<not> ch_eventHandling c" "\<not> ch_addedToLoop c" "ch_statusInEpoll c = kNew"
  shows "\<exists>ep'. delete_channel p ep = Some ep' \<and> epoll_inv ep' \<and> ep_heap ep' = (ep_heap ep)(p := None)"
proof -
  let ?ep = "ep\<lparr>ep_heap := (ep_heap ep)(p := None)\<rparr>"
  have r: "ep_channels ep (ch_fd c) = None" "ep_interest ep (ch_fd c) = None"
    using epoll_invD(1) [OF inv c] ok(3) by (simp_all add: registered_def)
  have "ep_channels ep g = None \<and> ep_interest ep g = None"
    if "\<forall>q d. ((ep_heap ep)(p := None)) q = Some d \<longrightarrow> ch_fd d \<noteq> g" for g
  proof (cases "g = ch_fd c")
    case False
    then have "\<forall>q d. ep_heap ep q = Some d \<longrightarrow> ch_fd d \<noteq> g" using that c by (metis fun_upd_other option.inject)
    then show ?thesis using inv by (auto simp: epoll_inv_def)
  qed (use r in simp)
  then have "epoll_inv ?ep"
    using inv by (auto simp: epoll_inv_def registered_def split: if_splits)
  then show ?thesis using c ok by (simp add: delete_channel_def Channel_delete_def)
qed

text \<open>C20: the kernel watches exactly what the channels ask for. Any operation on a loop's channels
  that its caller may perform succeeds without a failed assertion and without an error from
  epoll_ctl, and afterwards again: a channel the poller counts as added is registered under its
  descriptor with exactly its events, one counted as deleted asks for nothing and is not
  registered, and no descriptor without a live channel is in the map or in the kernel.\<close>

theorem registration_step:
  assumes "epoll_inv ep" and "reg_ok op ep"
  shows "\<exists>ep'. reg_step op ep = Some ep' \<and> epoll_inv ep'"
proof (cases op)
  case (New_channel p fd)
  then show ?thesis using new_channel_inv [OF assms(1)] assms(2) by auto
next
  case (Remove p)
  then show ?thesis using channel_remove_ok [OF assms(1)] assms(2) by auto
next
  case (Delete p)
  then show ?thesis using delete_channel_ok [OF assms(1)] assms(2) by auto
next
  case (Enable_reading p)
  then show ?thesis using channel_update_ok [OF assms(1)] assms(2)
    by (fastforce simp: enableReading_def)
next
  case (Enable_writing p)
  then show ?thesis using channel_update_ok [OF assms(1)] assms(2)
    by (fastforce simp: enableWriting_def)
next
  case (Disable_writing p)
  then show ?thesis using channel_update_ok [OF assms(1)] assms(2)
    by (fastforce simp: disableWriting_def)
next
  case (Disable_all p)
  then show ?thesis using channel_update_ok [OF assms(1)] assms(2)
    by (fastforce simp: disableAll_def)
qed

lemma Epoll_new_inv: "epoll_inv (Epoll_new loop)"
  by (simp add: epoll_inv_def Epoll_new_def)

theorem registration_step_witness:
  "\<exists>ep'. reg_step (New_channel 5 9) (Epoll_new 1) = Some ep' \<and> epoll_inv ep'"
  by (rule registration_step [OF Epoll_new_inv]) (simp add: Epoll_new_def)

text \<open>Poll hands on exactly the kernel's answer. Every channel reported appears once per report,
  in order, among the active channels, its received events are those of its last report, channels
  not reported keep theirs, the registrations do not change, and the event array doubles when the
  answer filled it.\<close>

theorem poll_active:
  assumes "epoll_inv ep" and "0 < length evs" and "length evs \<le> ep_events ep"
    and "\<forall>(ev, p) \<in> set evs. p \<in> dom (ep_heap ep)"
  shows "\<exists>ep'. poll (Some evs) ep = Some (map snd evs, ep') \<and> epoll_inv ep' \<and>
    ep_events ep' = (if length evs = ep_events ep then 2 * ep_events ep else ep_events ep) \<and>
    (\<forall>p c. ep_heap ep p = Some c \<longrightarrow> ep_heap ep' p = Some (c\<lparr>ch_revents :=
       (case map_of (map (\<lambda>(ev, p). (p, ev)) (rev evs)) p of Some ev \<Rightarrow> ev | None \<Rightarrow> ch_revents c)\<rparr>))"
proof -
  have fill: "\<exists>ep'. fillActiveChannels evs ep = Some (map snd evs, ep') \<and> epoll_inv ep' \<and>
    ep_events ep' = ep_events ep \<and>
    (\<forall>p c. ep_heap ep p = Some c \<longrightarrow> ep_heap ep' p = Some (c\<lparr>ch_revents :=
       (case map_of (map (\<lambda>(ev, p). (p, ev)) (rev evs)) p of Some ev \<Rightarrow> ev | None \<Rightarrow> ch_revents c)\<rparr>))"
    if "epoll_inv ep" "\<forall>(ev, p) \<in> set evs. p \<in> dom (ep_heap ep)" for evs ep
    using that
  proof (induction evs arbitrary: ep)
    case Nil
    then show ?case by simp
  next
    case (Cons x evs)
    obtain ev p where x: "x = (ev, p)" by (cases x)
    obtain c where c: "ep_heap ep p = Some c" using Cons.prems(2) x by auto
    let ?c = "setRevents ev c" and ?ep = "put_channel p (setRevents ev c) ep"
    have inv: "epoll_inv ?ep"
      by (rule epoll_inv_at [OF Cons.prems(1) c, of _ ?c])
        (use epoll_invD [OF Cons.prems(1) c] in
          \<open>auto simp: put_channel_def setRevents_def registered_def\<close>)
    have "\<forall>(ev, p) \<in> set evs. p \<in> dom (ep_heap ?ep)" using Cons.prems(2) by (auto simp: put_channel_def)
    from Cons.IH [OF inv this] obtain ep' where ep': "fillActiveChannels evs ?ep = Some (map snd evs, ep')"
      "epoll_inv ep'" "ep_events ep' = ep_events ?ep"
      "\<forall>q d. ep_heap ?ep q = Some d \<longrightarrow> ep_heap ep' q = Some (d\<lparr>ch_revents :=
        (case map_of (map (\<lambda>(ev, p). (p, ev)) (rev evs)) q of Some ev \<Rightarrow> ev | None \<Rightarrow> ch_revents d)\<rparr>)"
      by blast
    have "ep_heap ep' q = Some (d\<lparr>ch_revents :=
        (case map_of (map (\<lambda>(ev, p). (p, ev)) (rev (x # evs))) q of Some ev \<Rightarrow> ev | None \<Rightarrow> ch_revents d)\<rparr>)"
      if "ep_heap ep q = Some d" for q d
      using ep'(4) that c x
      by (cases "q = p") (auto simp: put_channel_def setRevents_def map_add_def split: option.splits)
    then show ?case using ep'(1,2,3) c x by (auto simp: put_channel_def)
  qed
  obtain ep1 where ep1: "fillActiveChannels evs ep = Some (map snd evs, ep1)" "epoll_inv ep1"
    "ep_events ep1 = ep_events ep"
    "\<forall>p c. ep_heap ep p = Some c \<longrightarrow> ep_heap ep1 p = Some (c\<lparr>ch_revents :=
       (case map_of (map (\<lambda>(ev, p). (p, ev)) (rev evs)) p of Some ev \<Rightarrow> ev | None \<Rightarrow> ch_revents c)\<rparr>)"
    using fill [OF assms(1,4)] by blast
  let ?ep = "if length evs = ep_events ep then ep1\<lparr>ep_events := ep_events ep * 2\<rparr> else ep1"
  have "poll (Some evs) ep = Some (map snd evs, ?ep)"
    using assms(2,3) ep1(1) by (simp add: poll_def)
  moreover have "epoll_inv ?ep" using ep1(2) by (simp add: epoll_inv_def registered_def)
  ultimately show ?thesis using ep1(3,4) by auto
qed

theorem poll_active_witness:
  "\<exists>ep'. poll (Some [(EPOLLIN, 5), (EPOLLOUT, 5)]) (new_channel 5 9 (Epoll_new 1)) = Some ([5, 5], ep') \<and>
    epoll_inv ep' \<and> ep_heap ep' 5 = Some ((Channel_new 1 9)\<lparr>ch_revents := EPOLLOUT\<rparr>)"
proof -
  have "epoll_inv (new_channel 5 9 (Epoll_new 1))"
    by (rule new_channel_inv [OF Epoll_new_inv]) (simp_all add: Epoll_new_def)
  from poll_active [OF this, of "[(EPOLLIN, 5), (EPOLLOUT, 5)]"] show ?thesis
    by (auto simp: new_channel_def put_channel_def Epoll_new_def kInitEventListSize_def)
qed

end
