(* ===== verification/TcpConnection.thy ===== *)
theory TcpConnection
  imports Socket Epoll
begin

text \<open>
  \<^verbatim>\<open>mutlithread/multiThread/net/TcpConnection.{h,cpp}\<close>: one connection, with the poller its
  channel is registered in and the kernel's end of its socket.

  The callbacks the owner installs are a record of functions on connections. A functor handed to
  the loop for later is a \<open>conn_task\<close> in \<open>cn_tasks\<close>; \<open>inLoop\<close> says whether the caller is the
  loop's thread. \<^verbatim>\<open>context_\<close> is an \<^verbatim>\<open>any\<close> holding a value of type \<open>'c\<close> or nothing. \<open>None\<close> is a
  failed assertion.
\<close>

datatype conn_state = kDisconnected | kConnecting | kConnected | kDisconnecting

datatype conn_task = Task_sendInLoop string | Task_shutdownInLoop | Task_writeComplete

record 'c connection =
  cn_name :: string
  cn_state :: conn_state
  cn_socket :: endpoint
  cn_channel :: nat
  cn_ep :: epoll
  cn_localAddress :: sockaddr_in
  cn_peerAddress :: sockaddr_in
  cn_inputBuffer :: buffer
  cn_outputBuffer :: buffer
  cn_context :: "'c option"
  cn_highWaterMark :: nat
  cn_tasks :: "conn_task list"
  cn_errors :: nat

record 'c conn_callbacks =
  cb_connection :: "('c connection \<Rightarrow> 'c connection option) option"
  cb_message :: "(int \<Rightarrow> 'c connection \<Rightarrow> 'c connection option) option"
  cb_close :: "('c connection \<Rightarrow> 'c connection option) option"
  cb_writeComplete :: bool

subsection \<open>The channel\<close>

definition on_channel :: "(nat \<Rightarrow> epoll \<Rightarrow> epoll option) \<Rightarrow> 'c connection \<Rightarrow> 'c connection option" where
  "on_channel f c = do { ep \<leftarrow> f (cn_channel c) (cn_ep c); Some (c\<lparr>cn_ep := ep\<rparr>) }"

definition conn_channel :: "'c connection \<Rightarrow> channel" where
  "conn_channel c = the (ep_heap (cn_ep c) (cn_channel c))"

definition conn_isWriting :: "'c connection \<Rightarrow> bool" where
  "conn_isWriting c = isWriting (conn_channel c)"

subsection \<open>Construction\<close>

definition TcpConnection_new :: "string \<Rightarrow> nat \<Rightarrow> int \<Rightarrow> sockaddr_in \<Rightarrow> sockaddr_in \<Rightarrow> epoll \<Rightarrow> 'c connection" where
  "TcpConnection_new name p fd localAddress peerAddress ep =
     \<lparr>cn_name = name, cn_state = kConnecting, cn_socket = endpoint_new, cn_channel = p,
      cn_ep = put_channel p (setErrorCallback (setCloseCallback (setWriteCallback (setReadCallback
                (Channel_new (ep_owner ep) fd))))) ep,
      cn_localAddress = localAddress, cn_peerAddress = peerAddress,
      cn_inputBuffer = Buffer_new, cn_outputBuffer = Buffer_new, cn_context = None,
      cn_highWaterMark = 0, cn_tasks = [], cn_errors = 0\<rparr>"

definition TcpConnection_delete :: "'c connection \<Rightarrow> unit option" where
  "TcpConnection_delete c = assertion (cn_state c = kDisconnected)"

definition setState :: "conn_state \<Rightarrow> 'c connection \<Rightarrow> 'c connection" where
  "setState s c = c\<lparr>cn_state := s\<rparr>"

definition setContext :: "'c \<Rightarrow> 'c connection \<Rightarrow> 'c connection" where
  "setContext context c = c\<lparr>cn_context := Some context\<rparr>"

definition setHighWaterMark :: "nat \<Rightarrow> 'c connection \<Rightarrow> 'c connection" where
  "setHighWaterMark mark c = c\<lparr>cn_highWaterMark := mark\<rparr>"

definition connected :: "'c connection \<Rightarrow> bool" where
  "connected c \<longleftrightarrow> cn_state c = kConnected"

definition disconnected :: "'c connection \<Rightarrow> bool" where
  "disconnected c \<longleftrightarrow> cn_state c = kDisconnected"

definition conn_queueInLoop :: "conn_task \<Rightarrow> 'c connection \<Rightarrow> 'c connection" where
  "conn_queueInLoop t c = c\<lparr>cn_tasks := cn_tasks c @ [t]\<rparr>"

definition conn_log_error :: "'c connection \<Rightarrow> 'c connection" where
  "conn_log_error c = c\<lparr>cn_errors := cn_errors c + 1\<rparr>"

subsection \<open>Sending\<close>

definition sendInLoop :: "'c conn_callbacks \<Rightarrow> string \<Rightarrow> 'c connection \<Rightarrow> 'c connection option" where
  "sendInLoop cbs message c =
     (if \<not> conn_isWriting c \<and> readableBytes (cn_outputBuffer c) = 0
      then
        let (answer, so) = sys_write message (cn_socket c);
            c1 = c\<lparr>cn_socket := so\<rparr>;
            (n, c2) = (case answer of
                Inl n \<Rightarrow>
                  (n, if n < length message then c1
                      else if cb_writeComplete cbs then conn_queueInLoop Task_writeComplete c1 else c1)
              | Inr e \<Rightarrow> (0, if e \<noteq> eagain then conn_log_error c1 else c1))
        in
          if n < length message
          then do {
            out \<leftarrow> append_buf (drop n message) (cn_outputBuffer c2);
            let c3 = c2\<lparr>cn_outputBuffer := out\<rparr>;
            if \<not> conn_isWriting c3 then on_channel enableWriting c3 else Some c3 }
          else Some c2
      else Some c)"

definition conn_send :: "'c conn_callbacks \<Rightarrow> bool \<Rightarrow> string \<Rightarrow> 'c connection \<Rightarrow> 'c connection option" where
  "conn_send cbs inLoop message c =
     (if cn_state c = kConnected
      then if inLoop then sendInLoop cbs message c
           else Some (conn_queueInLoop (Task_sendInLoop message) c)
      else Some c)"

definition shutdownInLoop :: "'c connection \<Rightarrow> 'c connection option" where
  "shutdownInLoop c =
     (if \<not> conn_isWriting c then Some (c\<lparr>cn_socket := shutdownWrite (cn_socket c)\<rparr>) else Some c)"

definition conn_shutdown :: "bool \<Rightarrow> 'c connection \<Rightarrow> 'c connection option" where
  "conn_shutdown inLoop c =
     (if cn_state c = kConnected
      then let c' = setState kDisconnecting c in
           if inLoop then shutdownInLoop c' else Some (conn_queueInLoop Task_shutdownInLoop c')
      else Some c)"

subsection \<open>Life cycle\<close>

definition run_connection_cb :: "'c conn_callbacks \<Rightarrow> 'c connection \<Rightarrow> 'c connection option" where
  "run_connection_cb cbs c = (case cb_connection cbs of Some f \<Rightarrow> f c | None \<Rightarrow> Some c)"

definition connectionEstablished :: "'c conn_callbacks \<Rightarrow> nat \<Rightarrow> 'c connection \<Rightarrow> 'c connection option" where
  "connectionEstablished cbs self c = do {
     assertion (cn_state c = kConnecting);
     let c1 = setState kConnected c;
     let c2 = c1\<lparr>cn_ep := put_channel (cn_channel c1) (channel_tie self (conn_channel c1)) (cn_ep c1)\<rparr>;
     c3 \<leftarrow> on_channel enableReading c2;
     run_connection_cb cbs c3 }"

definition connectionDestroyed :: "'c conn_callbacks \<Rightarrow> 'c connection \<Rightarrow> 'c connection option" where
  "connectionDestroyed cbs c = do {
     c1 \<leftarrow> (if cn_state c = kConnected
           then do { c' \<leftarrow> on_channel disableAll (setState kDisconnected c); run_connection_cb cbs c' }
           else Some c);
     on_channel channel_remove c1 }"

definition handleClose :: "'c conn_callbacks \<Rightarrow> 'c connection \<Rightarrow> 'c connection option" where
  "handleClose cbs c = do {
     assertion (cn_state c = kConnected \<or> cn_state c = kDisconnecting);
     c1 \<leftarrow> on_channel disableAll (setState kDisconnected c);
     case cb_close cbs of Some f \<Rightarrow> f c1 | None \<Rightarrow> Some c1 }"

definition handleError :: "'c connection \<Rightarrow> 'c connection" where
  "handleError c = conn_log_error c"

subsection \<open>Events\<close>

definition conn_handleRead :: "'c conn_callbacks \<Rightarrow> int \<Rightarrow> 'c connection \<Rightarrow> 'c connection option" where
  "conn_handleRead cbs receiveTime c = do {
     (n, err, b, so) \<leftarrow> readFd sys_readv (cn_socket c) 0 (cn_inputBuffer c);
     let c1 = c\<lparr>cn_inputBuffer := b, cn_socket := so\<rparr>;
     if 0 < n
     then (case cb_message cbs of Some f \<Rightarrow> f receiveTime c1 | None \<Rightarrow> Some c1)
     else if n = 0 then handleClose cbs c1
     else Some (handleError (conn_log_error c1)) }"

definition handleWrite :: "'c conn_callbacks \<Rightarrow> 'c connection \<Rightarrow> 'c connection option" where
  "handleWrite cbs c =
     (if conn_isWriting c
      then
        let (answer, so) = sys_write (toString (cn_outputBuffer c)) (cn_socket c);
            c1 = c\<lparr>cn_socket := so\<rparr>
        in (case answer of
              Inr e \<Rightarrow> Some c1
            | Inl n \<Rightarrow>
                if 0 < n
                then do {
                  out \<leftarrow> retrieve n (cn_outputBuffer c1);
                  let c2 = c1\<lparr>cn_outputBuffer := out\<rparr>;
                  if readableBytes out = 0
                  then do {
                    c3 \<leftarrow> on_channel disableWriting c2;
                    let c4 = (if cb_writeComplete cbs then conn_queueInLoop Task_writeComplete c3 else c3);
                    if cn_state c4 = kDisconnecting then shutdownInLoop c4 else Some c4 }
                  else Some c2 }
                else Some c1)
      else Some (conn_log_error c))"

text \<open>The functors the loop runs later.\<close>

definition run_conn_task :: "'c conn_callbacks \<Rightarrow> conn_task \<Rightarrow> 'c connection \<Rightarrow> 'c connection option" where
  "run_conn_task cbs t c =
     (case t of
        Task_sendInLoop message \<Rightarrow> sendInLoop cbs message c
      | Task_shutdownInLoop \<Rightarrow> shutdownInLoop c
      | Task_writeComplete \<Rightarrow> Some c)"

fun stateToString :: "conn_state \<Rightarrow> string" where
  "stateToString kDisconnected = ''kDisconnected''"
| "stateToString kConnecting = ''kConnecting''"
| "stateToString kConnected = ''kConnected''"
| "stateToString kDisconnecting = ''kDisconnecting''"

definition defaultMessageCallback :: "int \<Rightarrow> 'c connection \<Rightarrow> 'c connection option" where
  "defaultMessageCallback receiveTime c = Some (c\<lparr>cn_inputBuffer := retrieveAll (cn_inputBuffer c)\<rparr>)"

subsection \<open>The invariant\<close>

definition conn_ok :: "'c connection \<Rightarrow> bool" where
  "conn_ok c \<longleftrightarrow> epoll_inv (cn_ep c) \<and> cn_channel c \<in> dom (ep_heap (cn_ep c)) \<and>
     buf_inv (cn_inputBuffer c) \<and> buf_inv (cn_outputBuffer c)"

definition unsent :: "'c connection \<Rightarrow> string" where
  "unsent c = toString (cn_outputBuffer c)"

definition open_state :: "'c connection \<Rightarrow> bool" where
  "open_state c \<longleftrightarrow> cn_state c = kConnected \<or> cn_state c = kDisconnecting"

definition conn_inv :: "'c connection \<Rightarrow> bool" where
  "conn_inv c \<longleftrightarrow> conn_ok c \<and>
     (open_state c \<longrightarrow> (conn_isWriting c \<longleftrightarrow> unsent c \<noteq> [])) \<and>
     (\<not> open_state c \<longrightarrow> ch_events (conn_channel c) = 0) \<and>
     (cn_state c = kConnecting \<longrightarrow> unsent c = []) \<and>
     (cn_state c = kConnecting \<or> cn_state c = kConnected \<longrightarrow> \<not> so_shut_rd (cn_socket c)) \<and>
     (cn_state c = kDisconnecting \<longrightarrow> (so_shut_rd (cn_socket c) \<longleftrightarrow> unsent c = []))"

lemma conn_okE:
  assumes "conn_ok c"
  obtains ch where "epoll_inv (cn_ep c)" "ep_heap (cn_ep c) (cn_channel c) = Some ch" "conn_channel c = ch"
    "buf_inv (cn_inputBuffer c)" "buf_inv (cn_outputBuffer c)"
  using assms by (auto simp: conn_ok_def conn_channel_def)

text \<open>A channel operation changes the poller only, and the channel's events as asked.\<close>

lemma on_channel_update:
  assumes ok: "conn_ok c"
    and f: "\<And>ch. f (cn_channel c) (cn_ep c) = do { ch \<leftarrow> ep_heap (cn_ep c) (cn_channel c);
      channel_update (cn_channel c) (put_channel (cn_channel c) (ch\<lparr>ch_events := g (ch_events ch)\<rparr>) (cn_ep c)) }"
  shows "\<exists>ep. on_channel f c = Some (c\<lparr>cn_ep := ep\<rparr>) \<and> conn_ok (c\<lparr>cn_ep := ep\<rparr>) \<and>
    ch_events (conn_channel (c\<lparr>cn_ep := ep\<rparr>)) = g (ch_events (conn_channel c))"
proof -
  obtain ch where ch: "epoll_inv (cn_ep c)" "ep_heap (cn_ep c) (cn_channel c) = Some ch" "conn_channel c = ch"
    "buf_inv (cn_inputBuffer c)" "buf_inv (cn_outputBuffer c)" using ok by (rule conn_okE)
  obtain ep ch' where ep: "f (cn_channel c) (cn_ep c) = Some ep" "epoll_inv ep"
    "ep_heap ep = (ep_heap (cn_ep c))(cn_channel c \<mapsto> ch')" "ch_events ch' = g (ch_events ch)"
    using channel_update_ok [OF ch(1,2), of "g (ch_events ch)"] f ch(2) by auto
  then show ?thesis using ch
    by (intro exI [of _ ep]) (auto simp: on_channel_def conn_ok_def conn_channel_def)
qed

lemmas channel_ops_def = enableReading_def enableWriting_def disableWriting_def disableAll_def

lemma on_enableReading: "conn_ok c \<Longrightarrow> \<exists>ep. on_channel enableReading c = Some (c\<lparr>cn_ep := ep\<rparr>) \<and>
    conn_ok (c\<lparr>cn_ep := ep\<rparr>) \<and>
    ch_events (conn_channel (c\<lparr>cn_ep := ep\<rparr>)) = ch_events (conn_channel c) OR kReadEvent"
  by (rule on_channel_update [where g = "\<lambda>e. e OR kReadEvent"]) (simp_all add: channel_ops_def)

lemma on_enableWriting: "conn_ok c \<Longrightarrow> \<exists>ep. on_channel enableWriting c = Some (c\<lparr>cn_ep := ep\<rparr>) \<and>
    conn_ok (c\<lparr>cn_ep := ep\<rparr>) \<and>
    ch_events (conn_channel (c\<lparr>cn_ep := ep\<rparr>)) = ch_events (conn_channel c) OR kWriteEvent"
  by (rule on_channel_update [where g = "\<lambda>e. e OR kWriteEvent"]) (simp_all add: channel_ops_def)

lemma on_disableWriting: "conn_ok c \<Longrightarrow> \<exists>ep. on_channel disableWriting c = Some (c\<lparr>cn_ep := ep\<rparr>) \<and>
    conn_ok (c\<lparr>cn_ep := ep\<rparr>) \<and>
    ch_events (conn_channel (c\<lparr>cn_ep := ep\<rparr>)) = ch_events (conn_channel c) AND NOT kWriteEvent"
  by (rule on_channel_update [where g = "\<lambda>e. e AND NOT kWriteEvent"]) (simp_all add: channel_ops_def)

lemma on_disableAll: "conn_ok c \<Longrightarrow> \<exists>ep. on_channel disableAll c = Some (c\<lparr>cn_ep := ep\<rparr>) \<and>
    conn_ok (c\<lparr>cn_ep := ep\<rparr>) \<and> ch_events (conn_channel (c\<lparr>cn_ep := ep\<rparr>)) = kNoneEvent"
  by (rule on_channel_update [where g = "\<lambda>e. kNoneEvent"]) (simp_all add: channel_ops_def)

lemma writing_events:
  "ch_events (conn_channel c') = ch_events (conn_channel c) OR kReadEvent \<Longrightarrow> conn_isWriting c' = conn_isWriting c"
  "ch_events (conn_channel c') = ch_events (conn_channel c) OR kWriteEvent \<Longrightarrow> conn_isWriting c'"
  "ch_events (conn_channel c') = ch_events (conn_channel c) AND NOT kWriteEvent \<Longrightarrow> \<not> conn_isWriting c'"
  "ch_events (conn_channel c') = kNoneEvent \<Longrightarrow> \<not> conn_isWriting c'"
  "ch_events (conn_channel c) = 0 \<Longrightarrow> \<not> conn_isWriting c"
  using isWriting_simps [of "conn_channel c"]
  by (simp_all add: conn_isWriting_def isWriting_def kNoneEvent_def)

text \<open>Updates of fields the channel and the buffers do not depend on.\<close>

lemma conn_field_simps [simp]:
  "conn_channel (c\<lparr>cn_state := s\<rparr>) = conn_channel c"
  "conn_channel (c\<lparr>cn_socket := so\<rparr>) = conn_channel c"
  "conn_channel (c\<lparr>cn_inputBuffer := b\<rparr>) = conn_channel c"
  "conn_channel (c\<lparr>cn_outputBuffer := b\<rparr>) = conn_channel c"
  "conn_channel (c\<lparr>cn_tasks := ts\<rparr>) = conn_channel c"
  "conn_channel (c\<lparr>cn_errors := n\<rparr>) = conn_channel c"
  "conn_channel (c\<lparr>cn_context := x\<rparr>) = conn_channel c"
  "conn_isWriting (c\<lparr>cn_state := s\<rparr>) = conn_isWriting c"
  "conn_isWriting (c\<lparr>cn_socket := so\<rparr>) = conn_isWriting c"
  "conn_isWriting (c\<lparr>cn_inputBuffer := b\<rparr>) = conn_isWriting c"
  "conn_isWriting (c\<lparr>cn_outputBuffer := b\<rparr>) = conn_isWriting c"
  "conn_isWriting (c\<lparr>cn_tasks := ts\<rparr>) = conn_isWriting c"
  "conn_isWriting (c\<lparr>cn_errors := n\<rparr>) = conn_isWriting c"
  "conn_isWriting (c\<lparr>cn_context := x\<rparr>) = conn_isWriting c"
  by (simp_all add: conn_channel_def conn_isWriting_def)

lemma conn_ok_field_simps [simp]:
  "conn_ok (c\<lparr>cn_state := s\<rparr>) = conn_ok c"
  "conn_ok (c\<lparr>cn_socket := so\<rparr>) = conn_ok c"
  "conn_ok (c\<lparr>cn_tasks := ts\<rparr>) = conn_ok c"
  "conn_ok (c\<lparr>cn_errors := n\<rparr>) = conn_ok c"
  "conn_ok (c\<lparr>cn_context := x\<rparr>) = conn_ok c"
  by (simp_all add: conn_ok_def)

definition outstream :: "'c connection \<Rightarrow> string" where
  "outstream c = so_out (cn_socket c) @ unsent c"

text \<open>What an operation inside the loop may leave behind: the input side, the peer's side of the
  socket and the state's place in the life cycle.\<close>

lemma unsent_readable: "conn_ok c \<Longrightarrow> readableBytes (cn_outputBuffer c) = 0 \<longleftrightarrow> unsent c = []"
  using length_toString [of "cn_outputBuffer c"] by (auto simp: conn_ok_def unsent_def)

lemma sys_write_cases:
  obtains (Took) n where "sys_write s so = (Inl n, so\<lparr>so_out := so_out so @ take n s, so_answers := tl (so_answers so)\<rparr>)"
      "n \<le> length s"
    | (Failed) e where "sys_write s so = (Inr e, so\<lparr>so_answers := tl (so_answers so)\<rparr>)"
proof (cases "so_answers so")
  case Nil
  then show ?thesis using Took [of "length s"] by (cases so) (simp add: sys_write_def)
next
  case (Cons a as)
  show ?thesis
  proof (cases a)
    case (Write_space n)
    then show ?thesis using Cons Took [of "min n (length s)"] by (simp add: sys_write_def min_def)
  next
    case (Write_error e)
    then show ?thesis using Cons Failed by (simp add: sys_write_def)
  qed
qed

text \<open>The tail of \<^verbatim>\<open>sendInLoop\<close>: the rest is buffered and writing enabled.\<close>

lemma buffer_rest:
  assumes ok: "conn_ok c" and w: "\<not> conn_isWriting c" and e: "unsent c = []"
  shows "\<exists>c'. do { out \<leftarrow> append_buf rest (cn_outputBuffer c);
      let c3 = c\<lparr>cn_outputBuffer := out\<rparr>;
      if \<not> conn_isWriting c3 then on_channel enableWriting c3 else Some c3 } = Some c' \<and>
    conn_ok c' \<and> conn_isWriting c' \<and> unsent c' = rest \<and> cn_state c' = cn_state c \<and>
    cn_socket c' = cn_socket c \<and> cn_context c' = cn_context c \<and> cn_inputBuffer c' = cn_inputBuffer c \<and>
    cn_tasks c' = cn_tasks c \<and> cn_channel c' = cn_channel c"
proof -
  obtain out where out: "append_buf rest (cn_outputBuffer c) = Some out" "buf_inv out" "toString out = rest"
    using append_buf_ok [of "cn_outputBuffer c" rest] ok e by (auto simp: conn_ok_def unsent_def)
  let ?c = "c\<lparr>cn_outputBuffer := out\<rparr>"
  have "conn_ok ?c" using ok out(2) by (simp add: conn_ok_def)
  from on_enableWriting [OF this] obtain ep where ep: "on_channel enableWriting ?c = Some (?c\<lparr>cn_ep := ep\<rparr>)"
    "conn_ok (?c\<lparr>cn_ep := ep\<rparr>)"
    "ch_events (conn_channel (?c\<lparr>cn_ep := ep\<rparr>)) = ch_events (conn_channel ?c) OR kWriteEvent" by blast
  show ?thesis using out ep w writing_events(2) [OF ep(3)] by (simp add: unsent_def)
qed

lemma sendInLoop_idle:
  assumes ok: "conn_ok c" and w: "\<not> conn_isWriting c" and e: "unsent c = []"
  shows "\<exists>c'. sendInLoop cbs m c = Some c' \<and> conn_ok c' \<and> cn_state c' = cn_state c \<and>
    outstream c' = outstream c @ m \<and> (conn_isWriting c' \<longleftrightarrow> unsent c' \<noteq> []) \<and>
    so_shut_rd (cn_socket c') = so_shut_rd (cn_socket c) \<and> cn_context c' = cn_context c \<and>
    cn_inputBuffer c' = cn_inputBuffer c \<and> cn_channel c' = cn_channel c \<and>
    so_answers (cn_socket c') = tl (so_answers (cn_socket c)) \<and>
    (so_answers (cn_socket c) = [] \<longrightarrow> unsent c' = [])"
proof (cases rule: sys_write_cases [of m "cn_socket c"])
  case (Took n)
  let ?so = "(cn_socket c)\<lparr>so_out := so_out (cn_socket c) @ take n m, so_answers := tl (so_answers (cn_socket c))\<rparr>"
  let ?c1 = "c\<lparr>cn_socket := ?so\<rparr>"
  have full: "n = length m" if "so_answers (cn_socket c) = []" using Took that by (simp add: sys_write_def)
  show ?thesis
  proof (cases "n < length m")
    case True
    obtain c' where c': "do { out \<leftarrow> append_buf (drop n m) (cn_outputBuffer ?c1);
        let c3 = ?c1\<lparr>cn_outputBuffer := out\<rparr>;
        if \<not> conn_isWriting c3 then on_channel enableWriting c3 else Some c3 } = Some c'"
      "conn_ok c'" "conn_isWriting c'" "unsent c' = drop n m" "cn_state c' = cn_state c" "cn_socket c' = ?so"
      "cn_context c' = cn_context c" "cn_inputBuffer c' = cn_inputBuffer c" "cn_channel c' = cn_channel c"
      using buffer_rest [of ?c1 "drop n m"] ok w e by (auto simp: unsent_def)
    have "sendInLoop cbs m c = Some c'"
      using c'(1) Took(1) True w e unsent_readable [OF ok] by (simp add: sendInLoop_def Let_def)
    then show ?thesis using c' True full e by (auto simp: outstream_def)
  next
    case False
    let ?c2 = "if cb_writeComplete cbs then conn_queueInLoop Task_writeComplete ?c1 else ?c1"
    have "sendInLoop cbs m c = Some ?c2"
      using Took(1) False w e unsent_readable [OF ok] by (simp add: sendInLoop_def Let_def)
    moreover have "n = length m" using False Took(2) by simp
    ultimately show ?thesis using ok w e by (auto simp: conn_queueInLoop_def outstream_def unsent_def)
  qed
next
  case (Failed er)
  let ?so = "(cn_socket c)\<lparr>so_answers := tl (so_answers (cn_socket c))\<rparr>"
  let ?c1 = "c\<lparr>cn_socket := ?so\<rparr>"
  let ?c2 = "if er \<noteq> eagain then conn_log_error ?c1 else ?c1"
  have c2: "conn_ok ?c2" "\<not> conn_isWriting ?c2" "unsent ?c2 = []" "cn_state ?c2 = cn_state c"
    "cn_socket ?c2 = ?so" "cn_context ?c2 = cn_context c" "cn_inputBuffer ?c2 = cn_inputBuffer c"
    "cn_channel ?c2 = cn_channel c"
    using ok w e by (auto simp: conn_log_error_def unsent_def)
  have na: "so_answers (cn_socket c) \<noteq> []" using Failed by (auto simp: sys_write_def)
  show ?thesis
  proof (cases "m = []")
    case True
    then have "sendInLoop cbs m c = Some ?c2"
      using Failed(1) w e unsent_readable [OF ok] by (simp add: sendInLoop_def Let_def)
    then show ?thesis using c2 True e na by (simp add: outstream_def del: if_split)
  next
    case False
    obtain c' where c': "do { out \<leftarrow> append_buf m (cn_outputBuffer ?c2);
        let c3 = ?c2\<lparr>cn_outputBuffer := out\<rparr>;
        if \<not> conn_isWriting c3 then on_channel enableWriting c3 else Some c3 } = Some c'"
      "conn_ok c'" "conn_isWriting c'" "unsent c' = m" "cn_state c' = cn_state ?c2" "cn_socket c' = cn_socket ?c2"
      "cn_context c' = cn_context ?c2" "cn_inputBuffer c' = cn_inputBuffer ?c2" "cn_channel c' = cn_channel ?c2"
      using buffer_rest [OF c2(1,2,3), of m] by auto
    have "sendInLoop cbs m c = Some c'"
      using c'(1) Failed(1) False w e unsent_readable [OF ok] by (simp add: sendInLoop_def Let_def)
    then show ?thesis using c' c2(4-) False e na by (simp add: outstream_def del: if_split)
  qed
qed

subsection \<open>What the owner's callbacks do\<close>

text \<open>A callback, like any other code that uses a connection in the loop's thread, sends, shuts down
  and consumes input.\<close>

datatype app_cmd = App_send string | App_shutdown | App_consume nat

definition quiet_cbs :: "bool \<Rightarrow> 'c conn_callbacks" where
  "quiet_cbs wc = \<lparr>cb_connection = None, cb_message = None, cb_close = None, cb_writeComplete = wc\<rparr>"

fun run_app :: "bool \<Rightarrow> app_cmd list \<Rightarrow> 'c connection \<Rightarrow> 'c connection option" where
  "run_app wc [] c = Some c"
| "run_app wc (App_send m # cmds) c = do { c' \<leftarrow> conn_send (quiet_cbs wc) True m c; run_app wc cmds c' }"
| "run_app wc (App_shutdown # cmds) c = do { c' \<leftarrow> conn_shutdown True c; run_app wc cmds c' }"
| "run_app wc (App_consume n # cmds) c = do {
     b \<leftarrow> retrieve (min n (readableBytes (cn_inputBuffer c))) (cn_inputBuffer c);
     run_app wc cmds (c\<lparr>cn_inputBuffer := b\<rparr>) }"

definition app_cbs :: "bool \<Rightarrow> app_cmd list \<Rightarrow> 'c conn_callbacks" where
  "app_cbs wc cmds = \<lparr>cb_connection = Some (run_app wc cmds), cb_message = Some (\<lambda>t. run_app wc cmds),
     cb_close = Some Some, cb_writeComplete = wc\<rparr>"

text \<open>Events in the life of a connection: what the server and the loop call, and what the peer and
  the kernel do.\<close>

datatype conn_event = Ev_established nat "app_cmd list" | Ev_read int "app_cmd list" | Ev_write | Ev_close
  | Ev_error | Ev_app "app_cmd list" | Ev_destroyed "app_cmd list" | Ev_arrive string bool
  | Ev_answers "write_answer list"

fun conn_run :: "bool \<Rightarrow> conn_event \<Rightarrow> 'c connection \<Rightarrow> 'c connection option" where
  "conn_run wc (Ev_established self cmds) c = connectionEstablished (app_cbs wc cmds) self c"
| "conn_run wc (Ev_read t cmds) c = conn_handleRead (app_cbs wc cmds) t c"
| "conn_run wc Ev_write c = handleWrite (app_cbs wc []) c"
| "conn_run wc Ev_close c = handleClose (app_cbs wc []) c"
| "conn_run wc Ev_error c = Some (handleError c)"
| "conn_run wc (Ev_app cmds) c = run_app wc cmds c"
| "conn_run wc (Ev_destroyed cmds) c = connectionDestroyed (app_cbs wc cmds) c"
| "conn_run wc (Ev_arrive s closed) c =
     Some (c\<lparr>cn_socket := (cn_socket c)\<lparr>so_in := so_in (cn_socket c) @ s,
       so_in_closed := (so_in_closed (cn_socket c) \<or> closed)\<rparr>\<rparr>)"
| "conn_run wc (Ev_answers as) c = Some (c\<lparr>cn_socket := (cn_socket c)\<lparr>so_answers := as\<rparr>\<rparr>)"

text \<open>The server establishes a connection once, the poller reports reading and closing only for a
  registered channel, and the server destroys a connection that is closed or still fully open.\<close>

fun conn_event_ok :: "conn_event \<Rightarrow> 'c connection \<Rightarrow> bool" where
  "conn_event_ok (Ev_established self cmds) c \<longleftrightarrow> cn_state c = kConnecting"
| "conn_event_ok (Ev_read t cmds) c \<longleftrightarrow> open_state c"
| "conn_event_ok Ev_close c \<longleftrightarrow> open_state c"
| "conn_event_ok (Ev_destroyed cmds) c \<longleftrightarrow> cn_state c = kConnected \<or> cn_state c = kDisconnected"
| "conn_event_ok _ c \<longleftrightarrow> True"

fun life_rank :: "conn_state \<Rightarrow> nat" where
  "life_rank kConnecting = 0"
| "life_rank kConnected = 1"
| "life_rank kDisconnecting = 2"
| "life_rank kDisconnected = 3"

text \<open>One event's effect: the invariant holds again, the state does not go back, and what was
  sent or waits to be sent stays, in order.\<close>

definition conn_ext :: "'c connection \<Rightarrow> 'c connection \<Rightarrow> bool" where
  "conn_ext c c' \<longleftrightarrow> conn_inv c' \<and> life_rank (cn_state c) \<le> life_rank (cn_state c') \<and>
     (\<exists>m. outstream c' = outstream c @ m)"

lemma conn_ext_refl: "conn_inv c \<Longrightarrow> conn_ext c c"
  by (simp add: conn_ext_def)

lemma conn_ext_trans: "conn_ext a b \<Longrightarrow> conn_ext b c \<Longrightarrow> conn_ext a c"
  by (auto simp: conn_ext_def)

lemma conn_ext_inv: "conn_ext c c' \<Longrightarrow> conn_inv c'"
  by (simp add: conn_ext_def)

lemma conn_send_effect:
  assumes inv: "conn_inv c"
  shows "\<exists>c'. conn_send cbs True m c = Some c' \<and> conn_inv c' \<and> cn_state c' = cn_state c \<and>
    outstream c' = outstream c @ (if connected c \<and> unsent c = [] then m else []) \<and>
    cn_inputBuffer c' = cn_inputBuffer c \<and> cn_context c' = cn_context c \<and>
    (so_answers (cn_socket c) = [] \<longrightarrow> unsent c = [] \<longrightarrow> unsent c' = [] \<and> so_answers (cn_socket c') = [])"
proof (cases "connected c")
  case False
  then show ?thesis using inv by (simp add: conn_send_def connected_def)
next
  case True
  then have w: "conn_isWriting c \<longleftrightarrow> unsent c \<noteq> []" and ok: "conn_ok c" and nsh: "\<not> so_shut_rd (cn_socket c)"
    using inv by (auto simp: conn_inv_def open_state_def connected_def)
  show ?thesis
  proof (cases "unsent c = []")
    case e: True
    obtain c' where c': "sendInLoop cbs m c = Some c'" "conn_ok c'" "cn_state c' = cn_state c"
      "outstream c' = outstream c @ m" "conn_isWriting c' \<longleftrightarrow> unsent c' \<noteq> []"
      "so_shut_rd (cn_socket c') = so_shut_rd (cn_socket c)" "cn_context c' = cn_context c"
      "cn_inputBuffer c' = cn_inputBuffer c" "so_answers (cn_socket c') = tl (so_answers (cn_socket c))"
      "so_answers (cn_socket c) = [] \<longrightarrow> unsent c' = []"
      using sendInLoop_idle [OF ok _ e, of cbs m] w e by blast
    moreover have "conn_inv c'" using c' True nsh by (simp add: conn_inv_def connected_def open_state_def)
    ultimately show ?thesis using True e by (simp add: conn_send_def connected_def)
  next
    case False
    then have "sendInLoop cbs m c = Some c" using w by (simp add: sendInLoop_def)
    then show ?thesis using True False inv by (simp add: conn_send_def connected_def)
  qed
qed

lemma conn_shutdown_effect:
  assumes inv: "conn_inv c"
  shows "\<exists>c'. conn_shutdown True c = Some c' \<and> conn_inv c' \<and> outstream c' = outstream c \<and>
    cn_inputBuffer c' = cn_inputBuffer c \<and> cn_context c' = cn_context c \<and> unsent c' = unsent c \<and>
    so_answers (cn_socket c') = so_answers (cn_socket c) \<and>
    cn_state c' = (if connected c then kDisconnecting else cn_state c)"
proof (cases "connected c")
  case False
  then show ?thesis using inv by (simp add: conn_shutdown_def connected_def)
next
  case True
  let ?c = "c\<lparr>cn_state := kDisconnecting\<rparr>"
  let ?c' = "if conn_isWriting c then ?c else ?c\<lparr>cn_socket := shutdownWrite (cn_socket c)\<rparr>"
  have "conn_shutdown True c = Some ?c'"
    using True by (simp add: conn_shutdown_def connected_def setState_def shutdownInLoop_def Let_def)
  moreover have "conn_inv ?c'"
    using inv True by (auto simp: conn_inv_def connected_def open_state_def unsent_def shutdownWrite_def)
  ultimately show ?thesis using True by (auto simp: outstream_def unsent_def shutdownWrite_def)
qed

lemma run_app_ok:
  "conn_inv c \<Longrightarrow> \<exists>c'. run_app wc cmds c = Some c' \<and> conn_ext c c'"
proof (induction cmds arbitrary: c)
  case Nil
  then show ?case by (simp add: conn_ext_refl)
next
  case (Cons cmd cmds)
  have "\<exists>c1. run_app wc [cmd] c = Some c1 \<and> conn_ext c c1"
  proof (cases cmd)
    case (App_send m)
    then show ?thesis using conn_send_effect [OF Cons.prems, of "quiet_cbs wc" m] by (auto simp: conn_ext_def)
  next
    case App_shutdown
    then show ?thesis using conn_shutdown_effect [OF Cons.prems]
      by (auto simp: conn_ext_def connected_def)
  next
    case (App_consume n)
    let ?b = "cn_inputBuffer c"
    have b: "buf_inv ?b" using Cons.prems by (simp add: conn_inv_def conn_ok_def)
    have "min n (readableBytes ?b) \<le> length (toString ?b)" by (simp add: length_toString [OF b])
    from retrieve_ok [OF b this] obtain b' where b': "retrieve (min n (readableBytes ?b)) ?b = Some b'" "buf_inv b'"
      by blast
    have "conn_inv (c\<lparr>cn_inputBuffer := b'\<rparr>)"
      using Cons.prems b'(2) by (simp add: conn_inv_def conn_ok_def open_state_def unsent_def)
    then show ?thesis using App_consume b'(1) by (simp add: conn_ext_def outstream_def unsent_def)
  qed
  then obtain c1 where c1: "run_app wc [cmd] c = Some c1" "conn_ext c c1" by blast
  obtain c' where c': "run_app wc cmds c1 = Some c'" "conn_ext c1 c'"
    using Cons.IH [OF conn_ext_inv [OF c1(2)]] by blast
  have "run_app wc (cmd # cmds) c = Option.bind (run_app wc [cmd] c) (run_app wc cmds)"
    by (cases cmd) (simp_all add: Option.bind_assoc)
  then show ?case using c1 c' conn_ext_trans by auto
qed

lemma handleClose_effect:
  assumes inv: "conn_inv c" and st: "open_state c" and cb: "cb_close cbs = Some Some \<or> cb_close cbs = None"
  shows "\<exists>c'. handleClose cbs c = Some c' \<and> conn_ext c c' \<and> cn_state c' = kDisconnected"
proof -
  have "conn_ok (setState kDisconnected c)" using inv by (simp add: conn_inv_def setState_def)
  from on_disableAll [OF this] obtain ep where ep:
    "on_channel disableAll (setState kDisconnected c) = Some (setState kDisconnected c\<lparr>cn_ep := ep\<rparr>)"
    "conn_ok (setState kDisconnected c\<lparr>cn_ep := ep\<rparr>)"
    "ch_events (conn_channel (setState kDisconnected c\<lparr>cn_ep := ep\<rparr>)) = kNoneEvent" by blast
  let ?c = "setState kDisconnected c\<lparr>cn_ep := ep\<rparr>"
  have "conn_inv ?c" using ep(2,3) by (simp add: conn_inv_def setState_def open_state_def kNoneEvent_def)
  moreover have "handleClose cbs c = Some ?c"
    using ep(1) st cb by (auto simp: handleClose_def open_state_def)
  moreover have "life_rank (cn_state c) \<le> 3" by (cases "cn_state c") simp_all
  ultimately show ?thesis by (simp add: conn_ext_def outstream_def unsent_def setState_def)
qed

lemma handleRead_effect:
  assumes inv: "conn_inv c" and st: "open_state c"
  shows "\<exists>c'. conn_handleRead (app_cbs wc cmds) t c = Some c' \<and> conn_ext c c'"
proof -
  let ?so = "cn_socket c"
  have b: "buf_inv (cn_inputBuffer c)" using inv by (simp add: conn_inv_def conn_ok_def)
  obtain n err b' where r: "readFd sys_readv ?so 0 (cn_inputBuffer c) = Some (n, err, b', ?so\<lparr>so_in := []\<rparr>)"
    "buf_inv b'"
    using sys_readFd_drains [OF b] by blast
  let ?c = "c\<lparr>cn_inputBuffer := b', cn_socket := ?so\<lparr>so_in := []\<rparr>\<rparr>"
  have ci: "conn_inv ?c"
    using inv r(2) by (simp add: conn_inv_def conn_ok_def open_state_def unsent_def)
  have ext: "conn_ext c ?c" using ci by (simp add: conn_ext_def outstream_def unsent_def)
  consider "0 < n" | "n = 0" | "n < 0" by linarith
  then show ?thesis
  proof cases
    case 1
    then have "conn_handleRead (app_cbs wc cmds) t c = run_app wc cmds ?c"
      using r(1) by (simp add: conn_handleRead_def app_cbs_def)
    then show ?thesis using run_app_ok [OF ci, of wc cmds] ext conn_ext_trans by fastforce
  next
    case 2
    have "open_state ?c" using st by (simp add: open_state_def)
    moreover have "conn_handleRead (app_cbs wc cmds) t c = handleClose (app_cbs wc cmds) ?c"
      using r(1) 2 by (simp add: conn_handleRead_def)
    ultimately show ?thesis using handleClose_effect [OF ci, of "app_cbs wc cmds"] ext conn_ext_trans
      by (fastforce simp: app_cbs_def)
  next
    case 3
    let ?d = "handleError (conn_log_error ?c)"
    have "conn_inv ?d" using ci
      by (simp add: handleError_def conn_log_error_def conn_inv_def open_state_def unsent_def)
    then have "conn_ext c ?d"
      by (simp add: conn_ext_def outstream_def unsent_def handleError_def conn_log_error_def)
    then show ?thesis using r(1) 3 by (simp add: conn_handleRead_def)
  qed
qed

text \<open>The end of \<^verbatim>\<open>handleWrite\<close> when the buffer has been emptied.\<close>

lemma drained:
  assumes ok: "conn_ok c" and e: "unsent c = []" and st: "open_state c"
    and sh: "\<not> so_shut_rd (cn_socket c)"
  shows "\<exists>c'. do { c3 \<leftarrow> on_channel disableWriting c;
      let c4 = (if wc then conn_queueInLoop Task_writeComplete c3 else c3);
      if cn_state c4 = kDisconnecting then shutdownInLoop c4 else Some c4 } = Some c' \<and>
    conn_inv c' \<and> unsent c' = [] \<and> cn_state c' = cn_state c \<and> so_out (cn_socket c') = so_out (cn_socket c) \<and>
    (cn_state c = kDisconnecting \<longrightarrow> so_shut_rd (cn_socket c'))"
proof -
  obtain ep where ep: "on_channel disableWriting c = Some (c\<lparr>cn_ep := ep\<rparr>)" "conn_ok (c\<lparr>cn_ep := ep\<rparr>)"
    "ch_events (conn_channel (c\<lparr>cn_ep := ep\<rparr>)) = ch_events (conn_channel c) AND NOT kWriteEvent"
    using on_disableWriting [OF ok] by blast
  let ?c = "c\<lparr>cn_ep := ep\<rparr>"
  note w = writing_events(3) [OF ep(3)]
  let ?c4 = "if wc then conn_queueInLoop Task_writeComplete ?c else ?c"
  let ?c5 = "if cn_state c = kDisconnecting then ?c4\<lparr>cn_socket := shutdownWrite (cn_socket c)\<rparr> else ?c4"
  have c4: "conn_ok ?c4" "\<not> conn_isWriting ?c4" "unsent ?c4 = []" "cn_state ?c4 = cn_state c" "cn_socket ?c4 = cn_socket c"
    using ep(2) w e by (auto simp: conn_queueInLoop_def unsent_def)
  have "conn_inv ?c5"
    using c4 st sh by (auto simp: conn_inv_def open_state_def unsent_def shutdownWrite_def)
  moreover have "(if cn_state ?c4 = kDisconnecting then shutdownInLoop ?c4 else Some ?c4) = Some ?c5"
    unfolding c4(4) using c4(2,5) by (simp add: shutdownInLoop_def)
  ultimately show ?thesis using ep(1) c4(3,4,5)
    by (intro exI [of _ ?c5]) (auto simp: unsent_def shutdownWrite_def)
qed

lemma handleWrite_effect:
  assumes inv: "conn_inv c"
  shows "\<exists>c'. handleWrite cbs c = Some c' \<and> conn_inv c' \<and> cn_state c' = cn_state c \<and>
    outstream c' = outstream c \<and>
    (conn_isWriting c \<and> so_answers (cn_socket c) = [] \<longrightarrow> unsent c' = [] \<and>
      (cn_state c = kDisconnecting \<longrightarrow> so_shut_rd (cn_socket c')))"
proof (cases "conn_isWriting c")
  case False
  then show ?thesis using inv
    by (simp add: handleWrite_def conn_log_error_def conn_inv_def open_state_def outstream_def unsent_def)
next
  case w: True
  have ok: "conn_ok c" and st: "open_state c" and ne: "unsent c \<noteq> []"
    using inv w writing_events(5) [of c] by (auto simp: conn_inv_def)
  have sh: "\<not> so_shut_rd (cn_socket c)" using inv st ne by (auto simp: conn_inv_def open_state_def)
  show ?thesis
  proof (cases rule: sys_write_cases [of "toString (cn_outputBuffer c)" "cn_socket c"])
    case (Failed e)
    let ?c = "c\<lparr>cn_socket := (cn_socket c)\<lparr>so_answers := tl (so_answers (cn_socket c))\<rparr>\<rparr>"
    have "so_answers (cn_socket c) \<noteq> []" using Failed by (auto simp: sys_write_def)
    moreover have "conn_inv ?c" using inv by (simp add: conn_inv_def open_state_def unsent_def)
    ultimately show ?thesis using Failed w by (simp add: handleWrite_def outstream_def unsent_def Let_def)
  next
    case (Took n)
    let ?so = "(cn_socket c)\<lparr>so_out := so_out (cn_socket c) @ take n (unsent c), so_answers := tl (so_answers (cn_socket c))\<rparr>"
    let ?c1 = "c\<lparr>cn_socket := ?so\<rparr>"
    note took = Took(1) [folded unsent_def]
    have full: "n = length (unsent c)" if "so_answers (cn_socket c) = []"
      using took that by (simp add: sys_write_def)
    show ?thesis
    proof (cases "n = 0")
      case True
      have "conn_inv ?c1" using inv by (simp add: conn_inv_def open_state_def unsent_def)
      moreover have "handleWrite cbs c = Some ?c1" using took True w by (simp add: handleWrite_def unsent_def Let_def)
      ultimately show ?thesis using True full ne by (auto simp: outstream_def unsent_def)
    next
      case False
      have b: "buf_inv (cn_outputBuffer c)" using ok by (simp add: conn_ok_def)
      obtain out where out: "retrieve n (cn_outputBuffer c) = Some out" "buf_inv out" "toString out = drop n (unsent c)"
        using retrieve_ok [OF b, of n] Took(2) by (auto simp: unsent_def)
      let ?c2 = "?c1\<lparr>cn_outputBuffer := out\<rparr>"
      have ok2: "conn_ok ?c2" using ok out(2) by (simp add: conn_ok_def)
      have u2: "unsent ?c2 = drop n (unsent c)" using out(3) by (simp add: unsent_def)
      have r0: "readableBytes out = 0 \<longleftrightarrow> unsent ?c2 = []" using unsent_readable [OF ok2] by simp
      show ?thesis
      proof (cases "unsent ?c2 = []")
        case e: True
        have "open_state ?c2" "\<not> so_shut_rd (cn_socket ?c2)" using st sh by (simp_all add: open_state_def)
        from drained [OF ok2 e this, of "cb_writeComplete cbs"] obtain c' where
          c': "do { c3 \<leftarrow> on_channel disableWriting ?c2;
            let c4 = (if cb_writeComplete cbs then conn_queueInLoop Task_writeComplete c3 else c3);
            if cn_state c4 = kDisconnecting then shutdownInLoop c4 else Some c4 } = Some c'"
          "conn_inv c'" "unsent c' = []" "cn_state c' = cn_state c" "so_out (cn_socket c') = so_out ?so"
          "cn_state c = kDisconnecting \<longrightarrow> so_shut_rd (cn_socket c')" by auto
        have "handleWrite cbs c = Some c'"
          using took False w out(1) r0 e c'(1) by (simp add: handleWrite_def unsent_def Let_def)
        moreover have "take n (unsent c) = unsent c" using e u2 by simp
        ultimately show ?thesis using c' by (simp add: outstream_def)
      next
        case ne2: False
        have "conn_inv ?c2" using inv ok2 w ne2 st sh by (auto simp: conn_inv_def open_state_def)
        moreover have "handleWrite cbs c = Some ?c2"
          using took False w out(1) r0 ne2 by (simp add: handleWrite_def unsent_def Let_def)
        ultimately show ?thesis using u2 full ne2 by (auto simp: outstream_def)
      qed
    qed
  qed
qed

lemma connectionEstablished_core:
  assumes inv: "conn_inv c" and st: "cn_state c = kConnecting"
  shows "\<exists>c'. (\<forall>cbs. connectionEstablished cbs self c = run_connection_cb cbs c') \<and> conn_inv c' \<and>
    connected c' \<and> cn_socket c' = cn_socket c \<and> unsent c' = [] \<and> cn_inputBuffer c' = cn_inputBuffer c"
proof -
  have ok: "conn_ok c" and ev: "ch_events (conn_channel c) = 0" and un: "unsent c = []"
    and sh: "\<not> so_shut_rd (cn_socket c)"
    using inv st by (auto simp: conn_inv_def open_state_def)
  obtain ch where ch: "epoll_inv (cn_ep c)" "ep_heap (cn_ep c) (cn_channel c) = Some ch" "conn_channel c = ch"
    "buf_inv (cn_inputBuffer c)" "buf_inv (cn_outputBuffer c)" using ok by (rule conn_okE)
  let ?ep = "put_channel (cn_channel c) (channel_tie self ch) (cn_ep c)"
  let ?c2 = "(setState kConnected c)\<lparr>cn_ep := ?ep\<rparr>"
  have "epoll_inv ?ep"
    by (rule epoll_inv_at [OF ch(1,2), of _ "channel_tie self ch"])
      (use epoll_invD [OF ch(1,2)] in \<open>auto simp: put_channel_def channel_tie_def registered_def\<close>)
  then have ok2: "conn_ok ?c2" using ch by (simp add: conn_ok_def put_channel_def setState_def)
  have ev2: "ch_events (conn_channel ?c2) = 0" using ev ch(3)
    by (simp add: conn_channel_def put_channel_def setState_def channel_tie_def)
  obtain ep where ep: "on_channel enableReading ?c2 = Some (?c2\<lparr>cn_ep := ep\<rparr>)" "conn_ok (?c2\<lparr>cn_ep := ep\<rparr>)"
    "ch_events (conn_channel (?c2\<lparr>cn_ep := ep\<rparr>)) = ch_events (conn_channel ?c2) OR kReadEvent"
    using on_enableReading [OF ok2] by blast
  let ?c3 = "?c2\<lparr>cn_ep := ep\<rparr>"
  have nw: "\<not> conn_isWriting ?c3" using writing_events(1) [OF ep(3)] writing_events(5) [OF ev2] by simp
  have inv3: "conn_inv ?c3"
    using ep(2) nw un sh by (simp add: conn_inv_def open_state_def setState_def unsent_def)
  have "connectionEstablished cbs self c = run_connection_cb cbs ?c3" for cbs
    using st ep(1) ch(3) by (simp add: connectionEstablished_def setState_def)
  moreover have "connected ?c3 \<and> cn_socket ?c3 = cn_socket c \<and> unsent ?c3 = [] \<and>
      cn_inputBuffer ?c3 = cn_inputBuffer c"
    using un by (simp add: connected_def setState_def unsent_def)
  ultimately show ?thesis using inv3 by blast
qed

lemma connectionEstablished_effect:
  assumes inv: "conn_inv c" and st: "cn_state c = kConnecting"
  shows "\<exists>c'. connectionEstablished (app_cbs wc cmds) self c = Some c' \<and> conn_ext c c'"
proof -
  obtain d where d: "\<And>cbs. connectionEstablished cbs self c = run_connection_cb cbs d" "conn_inv d"
    "connected d" "cn_socket d = cn_socket c" "unsent d = []" using connectionEstablished_core [OF assms] by blast
  have "unsent c = []" using inv st by (auto simp: conn_inv_def open_state_def)
  then have "conn_ext c d" using d st by (simp add: conn_ext_def outstream_def)
  then show ?thesis using run_app_ok [OF d(2), of wc cmds] conn_ext_trans d(1)
    by (fastforce simp: run_connection_cb_def app_cbs_def)
qed

lemma connectionDestroyed_effect:
  assumes inv: "conn_inv c" and st: "cn_state c = kConnected \<or> cn_state c = kDisconnected"
  shows "\<exists>c'. connectionDestroyed (app_cbs wc cmds) c = Some c' \<and> conn_ext c c'"
proof -
  have rm: "\<exists>c'. on_channel channel_remove d = Some c' \<and> conn_ext d c'"
    if d: "conn_inv d" "cn_state d = kDisconnected" for d :: "'a connection"
  proof -
    have "conn_ok d" "ch_events (conn_channel d) = 0" using d by (auto simp: conn_inv_def open_state_def)
    then obtain ch where ch: "epoll_inv (cn_ep d)" "ep_heap (cn_ep d) (cn_channel d) = Some ch"
      "isNoneEvent ch" "buf_inv (cn_inputBuffer d)" "buf_inv (cn_outputBuffer d)"
      by (auto elim!: conn_okE simp: isNoneEvent_def kNoneEvent_def)
    obtain ep where ep: "channel_remove (cn_channel d) (cn_ep d) = Some ep" "epoll_inv ep"
      "ep_heap ep = (ep_heap (cn_ep d))(cn_channel d \<mapsto> ch\<lparr>ch_addedToLoop := False, ch_statusInEpoll := kNew\<rparr>)"
      using channel_remove_ok [OF ch(1,2,3)] by blast
    have "conn_inv (d\<lparr>cn_ep := ep\<rparr>)"
      using ep ch d(2) by (simp add: conn_inv_def conn_ok_def open_state_def conn_channel_def isNoneEvent_def kNoneEvent_def)
    then show ?thesis using ep(1) by (simp add: on_channel_def conn_ext_def outstream_def unsent_def)
  qed
  show ?thesis
  proof (cases "cn_state c = kConnected")
    case False
    then show ?thesis using rm [OF inv] st by (simp add: connectionDestroyed_def)
  next
    case True
    have "conn_ok (setState kDisconnected c)" using inv by (simp add: conn_inv_def setState_def)
    from on_disableAll [OF this] obtain ep where ep:
      "on_channel disableAll (setState kDisconnected c) = Some (setState kDisconnected c\<lparr>cn_ep := ep\<rparr>)"
      "conn_ok (setState kDisconnected c\<lparr>cn_ep := ep\<rparr>)"
      "ch_events (conn_channel (setState kDisconnected c\<lparr>cn_ep := ep\<rparr>)) = kNoneEvent" by blast
    let ?c = "setState kDisconnected c\<lparr>cn_ep := ep\<rparr>"
    have inv1: "conn_inv ?c" using ep(2,3) by (simp add: conn_inv_def setState_def open_state_def kNoneEvent_def)
    have ext1: "conn_ext c ?c" using inv1 True by (simp add: conn_ext_def outstream_def unsent_def setState_def)
    obtain c2 where c2: "run_app wc cmds ?c = Some c2" "conn_ext ?c c2" using run_app_ok [OF inv1] by blast
    have "life_rank (cn_state ?c) = 3" by (simp add: setState_def)
    then have "cn_state c2 = kDisconnected" using c2(2) by (cases "cn_state c2") (auto simp: conn_ext_def)
    from rm [OF conn_ext_inv [OF c2(2)] this] obtain c' where c': "on_channel channel_remove c2 = Some c'" "conn_ext c2 c'"
      by blast
    have "connectionDestroyed (app_cbs wc cmds) c = Some c'"
      using True ep(1) c2(1) c'(1) by (simp add: connectionDestroyed_def run_connection_cb_def app_cbs_def)
    then show ?thesis using conn_ext_trans [OF ext1 conn_ext_trans [OF c2(2) c'(2)]] by blast
  qed
qed

lemma conn_run_ok:
  assumes "conn_inv c" and "conn_event_ok e c"
  shows "\<exists>c'. conn_run wc e c = Some c' \<and> conn_ext c c'"
proof (cases e)
  case (Ev_established self cmds)
  then show ?thesis using connectionEstablished_effect [OF assms(1)] assms(2) by simp
next
  case (Ev_read t cmds)
  then show ?thesis using handleRead_effect [OF assms(1)] assms(2) by simp
next
  case Ev_write
  then show ?thesis using handleWrite_effect [OF assms(1), of "app_cbs wc []"] by (auto simp: conn_ext_def)
next
  case Ev_close
  then show ?thesis using handleClose_effect [OF assms(1), of "app_cbs wc []"] assms(2)
    by (auto simp: app_cbs_def)
next
  case Ev_error
  have "conn_inv (handleError c)" using assms(1)
    by (simp add: handleError_def conn_log_error_def conn_inv_def open_state_def unsent_def)
  then show ?thesis using Ev_error
    by (simp add: conn_ext_def outstream_def unsent_def handleError_def conn_log_error_def)
next
  case (Ev_app cmds)
  then show ?thesis using run_app_ok [OF assms(1)] by simp
next
  case (Ev_destroyed cmds)
  then show ?thesis using connectionDestroyed_effect [OF assms(1)] assms(2) by simp
qed (use assms(1) in \<open>auto simp: conn_ext_def conn_inv_def open_state_def outstream_def unsent_def\<close>)

subsection \<open>Properties\<close>


lemma TcpConnection_new_inv:
  assumes "epoll_inv ep" and "ep_heap ep p = None" and "\<forall>q d. ep_heap ep q = Some d \<longrightarrow> ch_fd d \<noteq> fd"
  shows "conn_inv (TcpConnection_new name p fd la pa ep)"
proof -
  let ?ch = "setErrorCallback (setCloseCallback (setWriteCallback (setReadCallback (Channel_new (ep_owner ep) fd))))"
  note cbs = setErrorCallback_def setCloseCallback_def setWriteCallback_def setReadCallback_def
  have inv: "epoll_inv (new_channel p fd ep)" by (rule new_channel_inv [OF assms])
  have at: "ep_heap (new_channel p fd ep) p = Some (Channel_new (ep_owner ep) fd)"
    by (simp add: new_channel_def put_channel_def)
  have "epoll_inv (put_channel p ?ch ep)"
    by (rule epoll_inv_at [OF inv at, of _ ?ch])
      (use epoll_invD [OF inv at] in \<open>auto simp: put_channel_def new_channel_def cbs registered_def Channel_new_def\<close>)
  then show ?thesis using Buffer_new_inv Buffer_new_view
    by (simp add: conn_inv_def conn_ok_def TcpConnection_new_def put_channel_def open_state_def conn_channel_def
        unsent_def endpoint_new_def cbs Channel_new_def)
qed

definition conn0 :: "nat connection" where
  "conn0 = TcpConnection_new ''c'' 5 9 zero_address zero_address (Epoll_new 1)"

lemma conn0_inv: "conn_inv conn0"
  unfolding conn0_def by (rule TcpConnection_new_inv [OF Epoll_new_inv]) (simp_all add: Epoll_new_def)


text \<open>C18: what happens to a message. Sent on a connected connection with nothing waiting, it joins the
  stream whole, whatever part of it the kernel takes at once. Sent while earlier bytes still wait it
  is dropped without a word: the append to the output buffer stands inside the test for an idle
  connection. The poller's report of writability loses and reorders nothing, and once the kernel takes
  everything the buffer is empty, and a shutdown asked for meanwhile is carried out.\<close>

theorem send_and_flush:
  assumes "conn_inv c"
  shows "(\<exists>c'. conn_send cbs True m c = Some c' \<and> conn_inv c' \<and>
      outstream c' = outstream c @ (if connected c \<and> unsent c = [] then m else [])) \<and>
    (\<exists>c'. handleWrite cbs c = Some c' \<and> conn_inv c' \<and> outstream c' = outstream c \<and>
      (unsent c \<noteq> [] \<and> open_state c \<and> so_answers (cn_socket c) = [] \<longrightarrow>
        unsent c' = [] \<and> so_out (cn_socket c') = outstream c \<and>
        (cn_state c = kDisconnecting \<longrightarrow> so_shut_rd (cn_socket c'))))"
proof -
  obtain c' where c': "handleWrite cbs c = Some c'" "conn_inv c'" "outstream c' = outstream c"
    "conn_isWriting c \<and> so_answers (cn_socket c) = [] \<longrightarrow> unsent c' = [] \<and>
      (cn_state c = kDisconnecting \<longrightarrow> so_shut_rd (cn_socket c'))"
    using handleWrite_effect [OF assms, of cbs] by blast
  moreover have "open_state c \<Longrightarrow> conn_isWriting c \<longleftrightarrow> unsent c \<noteq> []" using assms by (simp add: conn_inv_def)
  ultimately show ?thesis using conn_send_effect [OF assms, of cbs m] by (auto simp: outstream_def)
qed

theorem send_and_flush_witness:
  "\<exists>c. conn_send (quiet_cbs False) True ''x'' conn0 = Some c \<and> conn_inv c \<and> outstream c = []"
  using send_and_flush [OF conn0_inv, of "quiet_cbs False" "''x''"]
  by (auto simp: conn0_def TcpConnection_new_def connected_def outstream_def unsent_def endpoint_new_def Buffer_new_view)

text \<open>Tearing down a connection whose shutdown is still in progress stops the process. In the state
  kDisconnecting connectionDestroyed does not take the channel's events back, so removing the channel
  fails the assertion that it asks for none, whenever the channel asks for any.\<close>

theorem destroyed_while_disconnecting:
  assumes "cn_state c = kDisconnecting" and "conn_ok c" and "ch_events (conn_channel c) \<noteq> 0"
  shows "connectionDestroyed cbs c = None"
proof -
  obtain ch where "ep_heap (cn_ep c) (cn_channel c) = Some ch" "conn_channel c = ch"
    using assms(2) by (rule conn_okE)
  then show ?thesis using assms(1,3)
    by (simp add: connectionDestroyed_def on_channel_def channel_remove_def isNoneEvent_def kNoneEvent_def)
qed

lemma conn_established0:
  "\<exists>c. conn_run False (Ev_established 7 [App_shutdown]) conn0 = Some c \<and> cn_state c = kDisconnecting \<and>
    ch_events (conn_channel c) \<noteq> 0"
  by (simp add: connectionEstablished_def conn0_def TcpConnection_new_def setState_def conn_channel_def
      setErrorCallback_def setCloseCallback_def setWriteCallback_def setReadCallback_def Channel_new_def
      Epoll_new_def put_channel_def on_channel_def enableReading_def channel_update_def loop_updateChannel_def own_channel_def updateChannel_def
      channel_tie_def kNew_def kAdded_def kDeleted_def setStatusInEpoll_def epoll_update_def Let_def
      run_connection_cb_def app_cbs_def conn_shutdown_def shutdownInLoop_def conn_isWriting_def isWriting_def
      kReadEvent_def kWriteEvent_def epoll_bits)

theorem destroyed_while_disconnecting_witness:
  "\<exists>c. conn_run False (Ev_established 7 [App_shutdown]) conn0 = Some c \<and>
    connectionDestroyed (app_cbs False []) c = None"
proof -
  obtain c where c: "conn_run False (Ev_established 7 [App_shutdown]) conn0 = Some c" "cn_state c = kDisconnecting"
    "ch_events (conn_channel c) \<noteq> 0" using conn_established0 by blast
  have "cn_state conn0 = kConnecting" by (simp add: conn0_def TcpConnection_new_def)
  from connectionEstablished_effect [OF conn0_inv this, of False "[App_shutdown]" 7] c(1) have "conn_ok c"
    by (auto simp: conn_inv_def conn_ext_def)
  from destroyed_while_disconnecting [OF c(2) this c(3)] c(1) show ?thesis by blast
qed

text \<open>A send handed over by another thread that runs after the connection has closed brings the
  channel back. sendInLoop does not look at the state: when the write fails, the message is buffered
  and the closed connection's channel asks for writability again, so the kernel watches its descriptor
  once more.\<close>

theorem late_send_revives:
  assumes "conn_inv c" and "cn_state c = kDisconnected" and "unsent c = []" and "m \<noteq> []"
    and "so_answers (cn_socket c) = [Write_error e]"
  shows "\<exists>c'. run_conn_task cbs (Task_sendInLoop m) c = Some c' \<and> cn_state c' = kDisconnected \<and>
    unsent c' = m \<and> conn_isWriting c' \<and> \<not> conn_inv c'"
proof -
  have ok: "conn_ok c" and ev: "ch_events (conn_channel c) = 0" using assms(1,2) by (auto simp: conn_inv_def open_state_def)
  have w: "\<not> conn_isWriting c" by (rule writing_events(5) [OF ev])
  obtain c' where c': "sendInLoop cbs m c = Some c'" "cn_state c' = cn_state c" "outstream c' = outstream c @ m"
    "conn_isWriting c' \<longleftrightarrow> unsent c' \<noteq> []"
    using sendInLoop_idle [OF ok w assms(3), of cbs m] by blast
  have "so_out (cn_socket c') = so_out (cn_socket c)"
  proof -
    let ?so = "(cn_socket c)\<lparr>so_answers := []\<rparr>"
    have wr: "sys_write m (cn_socket c) = (Inr e, ?so)" using assms(5) by (simp add: sys_write_def)
    let ?c2 = "if e \<noteq> eagain then conn_log_error (c\<lparr>cn_socket := ?so\<rparr>) else c\<lparr>cn_socket := ?so\<rparr>"
    have "conn_ok ?c2" "\<not> conn_isWriting ?c2" "unsent ?c2 = []" using ok w assms(3)
      by (auto simp: conn_log_error_def unsent_def)
    from buffer_rest [OF this, of m] obtain d where d: "do { out \<leftarrow> append_buf m (cn_outputBuffer ?c2);
        let c3 = ?c2\<lparr>cn_outputBuffer := out\<rparr>;
        if \<not> conn_isWriting c3 then on_channel enableWriting c3 else Some c3 } = Some d"
      "cn_socket d = cn_socket ?c2" by blast
    have "sendInLoop cbs m c = Some d"
      using d(1) wr assms(4) w unsent_readable [OF ok] assms(3) by (simp add: sendInLoop_def Let_def)
    then show ?thesis using c'(1) d(2) by (simp add: conn_log_error_def)
  qed
  then have "unsent c' = m" using c'(3) assms(3) by (simp add: outstream_def)
  then have wr: "conn_isWriting c'" using c'(4) assms(4) by simp
  have "\<not> conn_inv c'"
  proof
    assume "conn_inv c'"
    then have "ch_events (conn_channel c') = 0" using c'(2) assms(2) by (simp add: conn_inv_def open_state_def)
    from writing_events(5) [OF this] wr show False by simp
  qed
  then show ?thesis using c' \<open>unsent c' = m\<close> wr assms(2) by (simp add: run_conn_task_def)
qed

lemma conn_closed0:
  "\<exists>c. conn_inv c \<and> cn_state c = kDisconnected \<and> unsent c = [] \<and>
    so_answers (cn_socket (c :: nat connection)) = [Write_error 32]"
proof -
  let ?c = "conn0\<lparr>cn_state := kDisconnected, cn_socket := endpoint_new\<lparr>so_answers := [Write_error 32]\<rparr>\<rparr>"
  have "unsent conn0 = []" by (simp add: conn0_def TcpConnection_new_def unsent_def Buffer_new_view)
  moreover have "cn_state conn0 = kConnecting" by (simp add: conn0_def TcpConnection_new_def)
  ultimately have "conn_inv ?c \<and> cn_state ?c = kDisconnected \<and> unsent ?c = [] \<and>
      so_answers (cn_socket ?c) = [Write_error 32]"
    using conn0_inv by (simp add: conn_inv_def open_state_def unsent_def)
  then show ?thesis by blast
qed

theorem late_send_revives_witness:
  "\<exists>c c' :: nat connection. run_conn_task (quiet_cbs False) (Task_sendInLoop ''late'') c = Some c' \<and>
    cn_state c' = kDisconnected \<and> conn_isWriting c'"
proof -
  obtain c :: "nat connection" where c: "conn_inv c" "cn_state c = kDisconnected" "unsent c = []"
    "so_answers (cn_socket c) = [Write_error 32]" using conn_closed0 by blast
  show ?thesis using late_send_revives [OF c(1-3) _ c(4), of "''late''" "quiet_cbs False"] by auto
qed

end
