(* ===== verification/TimerQueue.thy ===== *)
theory TimerQueue
  imports Prelude "HOL-Library.Product_Lexorder"
begin

text \<open>
  \<^verbatim>\<open>mutlithread/multiThread/net/Timer.{h,cpp}\<close>, \<^verbatim>\<open>TimerId.h\<close> and \<^verbatim>\<open>TimerQueue.{h,cpp}\<close>: the
  timers of one event loop, run in the loop's thread.

  A \<^verbatim>\<open>shared_ptr<Timer>\<close> is an address; the null pointer is 0. The two \<^verbatim>\<open>std::set\<close>s are
  sorted lists: \<open>tq_timers\<close> by (expiry, address), \<open>tq_active\<close> by (address, sequence number).
  A timer lives as long as one of the containers refers to it, \<open>tq_expired\<close> being the vector
  \<^verbatim>\<open>handleRead\<close> holds while it runs the callbacks. \<^verbatim>\<open>Timer::now()\<close> takes the next reading of
  \<open>tq_clock\<close>, \<^verbatim>\<open>new Timer\<close> the next address of \<open>tq_addrs\<close>. What a callback does to the queue is a
  list of commands; \<open>tq_ran\<close> records which callbacks have run.
\<close>

subsection \<open>Timers\<close>

datatype timer_cb = Timer_cb "timer_cmd list"
  and timer_cmd = Cmd_add timer_cb int int | Cmd_cancel nat

record timer =
  tm_callback :: timer_cb
  tm_expiredTime :: int
  tm_interval :: int
  tm_repeat :: bool
  tm_sequence :: int

definition kMicroSecondsPerSecond :: int where "kMicroSecondsPerSecond = 1000 * 1000"

definition Timer_new :: "timer_cb \<Rightarrow> int \<Rightarrow> int \<Rightarrow> int \<Rightarrow> timer" where
  "Timer_new cb timeout interval sequence = \<lparr>tm_callback = cb, tm_expiredTime = timeout,
     tm_interval = interval, tm_repeat = (interval > 0), tm_sequence = sequence\<rparr>"

definition updateExpiredTime :: "int \<Rightarrow> timer \<Rightarrow> timer" where
  "updateExpiredTime timeout t = t\<lparr>tm_expiredTime := timeout\<rparr>"

definition timer_invalid :: int where "timer_invalid = 0"

definition restart :: "int \<Rightarrow> timer \<Rightarrow> timer" where
  "restart now t =
     (if tm_repeat t then t\<lparr>tm_expiredTime := now + tm_interval t\<rparr>
      else t\<lparr>tm_expiredTime := timer_invalid\<rparr>)"

definition timer_isValid :: "int \<Rightarrow> timer \<Rightarrow> bool" where
  "timer_isValid now t \<longleftrightarrow> now \<le> tm_expiredTime t"

subsection \<open>The timer file descriptor\<close>

record timespec =
  tv_sec :: int
  tv_nsec :: int

definition howMuchTimeFromNow :: "int \<Rightarrow> int \<Rightarrow> timespec" where
  "howMuchTimeFromNow when now =
     (let microseconds = when - now;
          microseconds' = (if microseconds < 100 then 100 else microseconds)
      in \<lparr>tv_sec = microseconds' div kMicroSecondsPerSecond,
          tv_nsec = (microseconds' mod kMicroSecondsPerSecond) * 1000\<rparr>)"

record timer_queue =
  tq_heap :: "nat \<Rightarrow> timer"
  tq_timers :: "(int \<times> nat) list"
  tq_active :: "(nat \<times> int) list"
  tq_callingExpiredTimers :: bool
  tq_canceling :: "(nat \<times> int) list"
  tq_expired :: "(int \<times> nat) list"
  tq_armed :: "(int \<times> timespec) option"
  tq_created :: int
  tq_clock :: "nat \<Rightarrow> int"
  tq_addrs :: "nat \<Rightarrow> nat"
  tq_ran :: "nat list"

definition TimerQueue_new :: "(nat \<Rightarrow> int) \<Rightarrow> (nat \<Rightarrow> nat) \<Rightarrow> timer_queue" where
  "TimerQueue_new clock addrs = \<lparr>tq_heap = (\<lambda>_. Timer_new (Timer_cb []) 0 0 0), tq_timers = [],
     tq_active = [], tq_callingExpiredTimers = False, tq_canceling = [], tq_expired = [],
     tq_armed = None, tq_created = 0, tq_clock = clock, tq_addrs = addrs, tq_ran = []\<rparr>"

definition Timer_now :: "timer_queue \<Rightarrow> int \<times> timer_queue" where
  "Timer_now q = (tq_clock q 0, q\<lparr>tq_clock := (\<lambda>i. tq_clock q (Suc i))\<rparr>)"

definition resetTimerfd :: "int \<Rightarrow> timer_queue \<Rightarrow> timer_queue" where
  "resetTimerfd when q =
     (let (now, q') = Timer_now q in q'\<lparr>tq_armed := Some (now, howMuchTimeFromNow when now)\<rparr>)"

text \<open>The timer is one-shot: reading the expiration leaves it disarmed.\<close>

definition readTimerfd :: "timer_queue \<Rightarrow> timer_queue" where
  "readTimerfd q = q\<lparr>tq_armed := None\<rparr>"

subsection \<open>Ordered sets\<close>

definition oset_insert :: "'a::linorder \<Rightarrow> 'a list \<Rightarrow> 'a list \<times> bool" where
  "oset_insert x xs = (if x \<in> set xs then (xs, False) else (insort x xs, True))"

definition oset_erase :: "'a::linorder \<Rightarrow> 'a list \<Rightarrow> 'a list \<times> nat" where
  "oset_erase x xs = (if x \<in> set xs then (remove1 x xs, 1) else (xs, 0))"

definition oset_below :: "'a::linorder \<Rightarrow> 'a list \<Rightarrow> 'a list" where
  "oset_below x xs = takeWhile (\<lambda>y. y < x) xs"

definition oset_from :: "'a::linorder \<Rightarrow> 'a list \<Rightarrow> 'a list" where
  "oset_from x xs = dropWhile (\<lambda>y. y < x) xs"

subsection \<open>The queue's operations, in the loop's thread\<close>

definition timer_alive :: "timer_queue \<Rightarrow> nat \<Rightarrow> bool" where
  "timer_alive q p \<longleftrightarrow> p \<in> snd ` set (tq_timers q) \<or> p \<in> snd ` set (tq_expired q) \<or>
     p \<in> fst ` set (tq_canceling q)"

definition same_size :: "timer_queue \<Rightarrow> bool" where
  "same_size q \<longleftrightarrow> length (tq_timers q) = length (tq_active q)"

definition timer_insert :: "nat \<Rightarrow> timer_queue \<Rightarrow> (bool \<times> timer_queue) option" where
  "timer_insert p q = do {
     assertion (same_size q);
     let t = tq_heap q p;
     let isEarliest = (tq_timers q = [] \<or> tm_expiredTime t < fst (hd (tq_timers q)));
     let (timers, ok1) = oset_insert (tm_expiredTime t, p) (tq_timers q);
     assertion ok1;
     let (active, ok2) = oset_insert (p, tm_sequence t) (tq_active q);
     assertion ok2;
     let q' = q\<lparr>tq_timers := timers, tq_active := active\<rparr>;
     assertion (same_size q');
     Some (isEarliest, q') }"

definition addTimerInLoop :: "nat \<Rightarrow> timer_queue \<Rightarrow> timer_queue option" where
  "addTimerInLoop p q = do {
     let expiredTime = tm_expiredTime (tq_heap q p);
     (isEarliest, q') \<leftarrow> timer_insert p q;
     Some (if isEarliest then resetTimerfd expiredTime q' else q') }"

definition addTimer :: "timer_cb \<Rightarrow> int \<Rightarrow> int \<Rightarrow> timer_queue \<Rightarrow> (nat \<times> timer_queue) option" where
  "addTimer cb timeout interval q = do {
     let p = tq_addrs q 0;
     let sequence = tq_created q + 1;
     let q1 = q\<lparr>tq_addrs := (\<lambda>i. tq_addrs q (Suc i)), tq_created := sequence,
                tq_heap := (tq_heap q)(p := Timer_new cb timeout interval sequence)\<rparr>;
     q2 \<leftarrow> addTimerInLoop p q1;
     Some (p, q2) }"

definition cancelInLoop :: "nat \<Rightarrow> timer_queue \<Rightarrow> timer_queue option" where
  "cancelInLoop p q = do {
     assertion (same_size q);
     assertion (timer_alive q p);
     let timer = (p, tm_sequence (tq_heap q p));
     q' \<leftarrow> (if timer \<in> set (tq_active q)
           then do {
             let (timers, n) = oset_erase (tm_expiredTime (tq_heap q p), p) (tq_timers q);
             assertion (n = 1);
             Some (q\<lparr>tq_timers := timers, tq_active := fst (oset_erase timer (tq_active q))\<rparr>) }
           else if tq_callingExpiredTimers q
           then Some (q\<lparr>tq_canceling := fst (oset_insert timer (tq_canceling q))\<rparr>)
           else Some q);
     assertion (same_size q');
     Some q' }"

definition timer_cancel :: "nat \<Rightarrow> timer_queue \<Rightarrow> timer_queue option" where
  "timer_cancel p q = (if timer_alive q p then cancelInLoop p q else Some q)"

fun erase_active :: "(int \<times> nat) list \<Rightarrow> timer_queue \<Rightarrow> timer_queue option" where
  "erase_active [] q = Some q"
| "erase_active ((t, p) # es) q = do {
     let (active, n) = oset_erase (p, tm_sequence (tq_heap q p)) (tq_active q);
     assertion (n = 1);
     erase_active es (q\<lparr>tq_active := active\<rparr>) }"

definition getExpired :: "int \<Rightarrow> timer_queue \<Rightarrow> ((int \<times> nat) list \<times> timer_queue) option" where
  "getExpired now q = do {
     assertion (same_size q);
     let sentry = (now, 0);
     let expired = oset_below sentry (tq_timers q);
     let rest = oset_from sentry (tq_timers q);
     assertion (rest = [] \<or> now < fst (hd rest));
     q' \<leftarrow> erase_active expired (q\<lparr>tq_timers := rest\<rparr>);
     assertion (same_size q');
     Some (expired, q') }"

fun run_cmds :: "timer_cmd list \<Rightarrow> timer_queue \<Rightarrow> timer_queue option" where
  "run_cmds [] q = Some q"
| "run_cmds (Cmd_add cb timeout interval # cs) q =
     do { (p, q') \<leftarrow> addTimer cb timeout interval q; run_cmds cs q' }"
| "run_cmds (Cmd_cancel p # cs) q = do { q' \<leftarrow> timer_cancel p q; run_cmds cs q' }"

fun timer_cmds :: "timer_cb \<Rightarrow> timer_cmd list" where
  "timer_cmds (Timer_cb cs) = cs"

definition timer_run :: "nat \<Rightarrow> timer_queue \<Rightarrow> timer_queue option" where
  "timer_run p q = run_cmds (timer_cmds (tm_callback (tq_heap q p))) (q\<lparr>tq_ran := tq_ran q @ [p]\<rparr>)"

fun run_expired :: "(int \<times> nat) list \<Rightarrow> timer_queue \<Rightarrow> timer_queue option" where
  "run_expired [] q = Some q"
| "run_expired ((t, p) # es) q = do { q' \<leftarrow> timer_run p q; run_expired es q' }"

fun reinsert :: "int \<Rightarrow> (int \<times> nat) list \<Rightarrow> timer_queue \<Rightarrow> timer_queue option" where
  "reinsert now [] q = Some q"
| "reinsert now ((t, p) # es) q =
     (if tm_repeat (tq_heap q p) \<and> (p, tm_sequence (tq_heap q p)) \<notin> set (tq_canceling q)
      then do {
        (isEarliest, q') \<leftarrow> timer_insert p (q\<lparr>tq_heap := (tq_heap q)(p := restart now (tq_heap q p))\<rparr>);
        reinsert now es q' }
      else reinsert now es q)"

definition timer_reset :: "(int \<times> nat) list \<Rightarrow> int \<Rightarrow> timer_queue \<Rightarrow> timer_queue option" where
  "timer_reset expired now q = do {
     q1 \<leftarrow> reinsert now expired q;
     if tq_timers q1 \<noteq> []
     then let earliest = tq_heap q1 (snd (hd (tq_timers q1))); (now', q2) = Timer_now q1 in
       if timer_isValid now' earliest then Some (resetTimerfd (tm_expiredTime earliest) q2) else Some q2
     else Some q1 }"

definition handleRead :: "timer_queue \<Rightarrow> timer_queue option" where
  "handleRead q = do {
     let (now, q0) = Timer_now q;
     (expiredTimers, q1) \<leftarrow> getExpired now (readTimerfd q0);
     q2 \<leftarrow> run_expired expiredTimers
             (q1\<lparr>tq_callingExpiredTimers := True, tq_canceling := [], tq_expired := expiredTimers\<rparr>);
     q3 \<leftarrow> timer_reset expiredTimers now (q2\<lparr>tq_callingExpiredTimers := False\<rparr>);
     Some (q3\<lparr>tq_expired := []\<rparr>) }"

subsection \<open>What the loop offers its users\<close>

definition runAt :: "int \<Rightarrow> timer_cb \<Rightarrow> timer_queue \<Rightarrow> (nat \<times> timer_queue) option" where
  "runAt time cb q = addTimer cb time 0 q"

definition runAfter :: "int \<Rightarrow> timer_cb \<Rightarrow> timer_queue \<Rightarrow> (nat \<times> timer_queue) option" where
  "runAfter delay cb q = (let (now, q') = Timer_now q in runAt (now + delay) cb q')"

definition runEvery :: "int \<Rightarrow> timer_cb \<Rightarrow> timer_queue \<Rightarrow> (nat \<times> timer_queue) option" where
  "runEvery interval cb q = (let (now, q') = Timer_now q in addTimer cb now interval q')"

definition cancle :: "nat \<Rightarrow> timer_queue \<Rightarrow> timer_queue option" where
  "cancle p q = timer_cancel p q"

subsection \<open>The invariant\<close>

definition pending :: "timer_queue \<Rightarrow> nat set" where
  "pending q = snd ` set (tq_timers q)"

definition tq_inv :: "timer_queue \<Rightarrow> bool" where
  "tq_inv q \<longleftrightarrow> sorted_wrt (<) (tq_timers q) \<and> sorted_wrt (<) (tq_active q) \<and>
     set (tq_timers q) = (\<lambda>p. (tm_expiredTime (tq_heap q p), p)) ` pending q \<and>
     set (tq_active q) = (\<lambda>p. (p, tm_sequence (tq_heap q p))) ` pending q \<and>
     0 \<notin> pending q \<and> inj (tq_addrs q) \<and> (\<forall>i. tq_addrs q i \<noteq> 0 \<and> tq_addrs q i \<notin> pending q \<and>
       tq_addrs q i \<notin> snd ` set (tq_expired q) \<and> tq_addrs q i \<notin> fst ` set (tq_canceling q))"

lemma alive_pending: "timer_alive q p \<longleftrightarrow> p \<in> pending q \<or> p \<in> snd ` set (tq_expired q) \<or>
    p \<in> fst ` set (tq_canceling q)"
  by (simp add: timer_alive_def pending_def)

lemma strict_insort: "sorted_wrt (<) xs \<Longrightarrow> x \<notin> set xs \<Longrightarrow> sorted_wrt (<) (insort (x::'a::linorder) xs)"
  by (simp add: strict_sorted_iff sorted_insort distinct_insort)

lemma strict_remove1: "sorted_wrt (<) xs \<Longrightarrow> sorted_wrt (<) (remove1 (x::'a::linorder) xs)"
  by (simp add: strict_sorted_iff sorted_remove1)

lemma strict_set_remove1: "sorted_wrt (<) xs \<Longrightarrow> set (remove1 (x::'a::linorder) xs) = set xs - {x}"
  by (simp add: strict_sorted_iff set_remove1_eq)

lemma tq_inv_sizes: "tq_inv q \<Longrightarrow> same_size q"
proof -
  assume inv: "tq_inv q"
  have "length (tq_timers q) = card (pending q)"
    using inv card_image [of "\<lambda>p. (tm_expiredTime (tq_heap q p), p)" "pending q"]
      distinct_card [of "tq_timers q"] by (auto simp: tq_inv_def strict_sorted_iff inj_on_def)
  moreover have "length (tq_active q) = card (pending q)"
    using inv card_image [of "\<lambda>p. (p, tm_sequence (tq_heap q p))" "pending q"]
      distinct_card [of "tq_active q"] by (auto simp: tq_inv_def strict_sorted_iff inj_on_def)
  ultimately show ?thesis by (simp add: same_size_def)
qed

lemma pending_timers: "tq_inv q \<Longrightarrow> p \<in> pending q \<longleftrightarrow> (tm_expiredTime (tq_heap q p), p) \<in> set (tq_timers q)"
  unfolding tq_inv_def by auto

lemma pending_active: "tq_inv q \<Longrightarrow> p \<in> pending q \<longleftrightarrow> (p, tm_sequence (tq_heap q p)) \<in> set (tq_active q)"
  unfolding tq_inv_def by auto

text \<open>The fields an operation on the two sets leaves alone.\<close>

definition tq_same :: "timer_queue \<Rightarrow> timer_queue \<Rightarrow> bool" where
  "tq_same q q' \<longleftrightarrow> tq_heap q' = tq_heap q \<and> tq_callingExpiredTimers q' = tq_callingExpiredTimers q \<and>
     tq_canceling q' = tq_canceling q \<and> tq_expired q' = tq_expired q \<and> tq_addrs q' = tq_addrs q \<and>
     tq_ran q' = tq_ran q \<and> tq_created q' = tq_created q"

lemma timer_insert_ok:
  assumes inv: "tq_inv q" and p: "p \<notin> pending q" "p \<noteq> 0" "p \<notin> range (tq_addrs q)"
  shows "\<exists>q'. timer_insert p q = Some (tq_timers q = [] \<or> tm_expiredTime (tq_heap q p) < fst (hd (tq_timers q)), q') \<and>
    tq_inv q' \<and> pending q' = insert p (pending q) \<and> tq_same q q' \<and>
    tq_armed q' = tq_armed q \<and> tq_clock q' = tq_clock q"
proof -
  let ?e = "(tm_expiredTime (tq_heap q p), p)" and ?a = "(p, tm_sequence (tq_heap q p))"
  let ?q = "q\<lparr>tq_timers := insort ?e (tq_timers q), tq_active := insort ?a (tq_active q)\<rparr>"
  have e: "?e \<notin> set (tq_timers q)" "?a \<notin> set (tq_active q)"
    using p(1) pending_timers [OF inv] pending_active [OF inv] by auto
  have pend: "pending ?q = insert p (pending q)" by (auto simp: pending_def set_insort_key)
  have inv': "tq_inv ?q"
    using inv p e unfolding tq_inv_def pend
    by (auto simp: strict_insort set_insort_key)
  have "timer_insert p q = Some (tq_timers q = [] \<or> tm_expiredTime (tq_heap q p) < fst (hd (tq_timers q)), ?q)"
    using e tq_inv_sizes [OF inv] tq_inv_sizes [OF inv'] by (simp add: timer_insert_def oset_insert_def Let_def)
  then show ?thesis using pend inv' by (simp add: tq_same_def)
qed

lemma tq_inv_clock [simp]: "tq_inv (q\<lparr>tq_clock := c\<rparr>) = tq_inv q"
  by (simp add: tq_inv_def pending_def)

lemma tq_inv_armed [simp]: "tq_inv (q\<lparr>tq_armed := a\<rparr>) = tq_inv q"
  by (simp add: tq_inv_def pending_def)

lemma tq_inv_ran [simp]:
  "tq_inv (q\<lparr>tq_ran := r\<rparr>) = tq_inv q" "pending (q\<lparr>tq_ran := r\<rparr>) = pending q"
  by (simp_all add: tq_inv_def pending_def)

lemma resetTimerfd_inv [simp]:
  "tq_inv (resetTimerfd w q) = tq_inv q" "pending (resetTimerfd w q) = pending q"
  "tq_same r (resetTimerfd w q) = tq_same r q" "timer_alive (resetTimerfd w q) p = timer_alive q p"
  by (simp_all add: resetTimerfd_def Timer_now_def pending_def tq_same_def timer_alive_def)

text \<open>What the callbacks of a round leave: the invariant, the timers that are not the queue's own
  any more, and the record of the round.\<close>

definition round_ext :: "timer_queue \<Rightarrow> timer_queue \<Rightarrow> bool" where
  "round_ext q q' \<longleftrightarrow> tq_inv q' \<and> range (tq_addrs q') \<subseteq> range (tq_addrs q) \<and>
     (\<forall>p. p \<notin> range (tq_addrs q) \<longrightarrow> tq_heap q' p = tq_heap q p) \<and>
     pending q' \<subseteq> pending q \<union> range (tq_addrs q) \<and>
     tq_callingExpiredTimers q' = tq_callingExpiredTimers q \<and> tq_expired q' = tq_expired q \<and>
     tq_ran q' = tq_ran q"

lemma round_ext_inv: "round_ext q q' \<Longrightarrow> tq_inv q'"
  by (simp add: round_ext_def)

lemma round_ext_refl: "tq_inv q \<Longrightarrow> round_ext q q"
  by (simp add: round_ext_def)

lemma round_ext_trans: "round_ext q q' \<Longrightarrow> round_ext q' q'' \<Longrightarrow> round_ext q q''"
proof -
  assume 1: "round_ext q q'" and 2: "round_ext q' q''"
  have addrs: "range (tq_addrs q'') \<subseteq> range (tq_addrs q')" "range (tq_addrs q') \<subseteq> range (tq_addrs q)"
    using 1 2 by (simp_all add: round_ext_def)
  have "tq_heap q'' p = tq_heap q p" if "p \<notin> range (tq_addrs q)" for p
  proof -
    have "p \<notin> range (tq_addrs q')" using that addrs(2) by blast
    then show ?thesis using 1 2 that by (simp add: round_ext_def)
  qed
  moreover have "pending q'' \<subseteq> pending q \<union> range (tq_addrs q)"
  proof -
    have "pending q'' \<subseteq> pending q' \<union> range (tq_addrs q')" "pending q' \<subseteq> pending q \<union> range (tq_addrs q)"
      using 1 2 by (simp_all add: round_ext_def)
    then show ?thesis using addrs(2) by blast
  qed
  moreover have "range (tq_addrs q'') \<subseteq> range (tq_addrs q)" using addrs by blast
  ultimately show ?thesis using 1 2 by (simp add: round_ext_def)
qed

lemma addTimer_ok:
  assumes inv: "tq_inv q"
  shows "\<exists>q'. addTimer cb timeout interval q = Some (tq_addrs q 0, q') \<and> round_ext q q' \<and>
    pending q' = insert (tq_addrs q 0) (pending q) \<and> tq_canceling q' = tq_canceling q \<and>
    tq_heap q' (tq_addrs q 0) = Timer_new cb timeout interval (tq_created q + 1)"
proof -
  let ?p = "tq_addrs q 0"
  let ?q = "q\<lparr>tq_addrs := (\<lambda>i. tq_addrs q (Suc i)), tq_created := tq_created q + 1,
    tq_heap := (tq_heap q)(?p := Timer_new cb timeout interval (tq_created q + 1))\<rparr>"
  have p: "?p \<notin> pending q" "?p \<noteq> 0" using inv by (auto simp: tq_inv_def)
  have new: "?p \<notin> range (tq_addrs ?q)" using inv by (auto simp: tq_inv_def dest: injD)
  have pend: "pending ?q = pending q" by (simp add: pending_def)
  have "inj (\<lambda>i. tq_addrs q (Suc i))" using inv by (auto simp: tq_inv_def inj_on_def)
  moreover have "(\<lambda>r. (tm_expiredTime (tq_heap ?q r), r)) ` pending q = (\<lambda>r. (tm_expiredTime (tq_heap q r), r)) ` pending q"
    "(\<lambda>r. (r, tm_sequence (tq_heap ?q r))) ` pending q = (\<lambda>r. (r, tm_sequence (tq_heap q r))) ` pending q"
    using p(1) by (auto intro!: image_cong)
  ultimately have inv': "tq_inv ?q"
    using inv unfolding tq_inv_def pend by simp
  obtain b q' where q': "timer_insert ?p ?q = Some (b, q')" "tq_inv q'" "pending q' = insert ?p (pending q)"
    "tq_same ?q q'"
    using timer_insert_ok [OF inv', of ?p] p new pend by auto
  let ?r = "if b then resetTimerfd timeout q' else q'"
  have "addTimer cb timeout interval q = Some (?p, ?r)"
    using q'(1) by (simp add: addTimer_def addTimerInLoop_def Let_def Timer_new_def)
  moreover have "tq_inv ?r" "pending ?r = insert ?p (pending q)" "tq_same ?q ?r" using q' by auto
  ultimately show ?thesis by (auto simp: round_ext_def tq_same_def)
qed

lemma timer_cancel_ok:
  assumes inv: "tq_inv q"
  shows "\<exists>q'. timer_cancel p q = Some q' \<and> round_ext q q' \<and> pending q' = pending q - {p} \<and>
    tq_heap q' = tq_heap q \<and>
    set (tq_canceling q') = set (tq_canceling q) \<union>
      (if timer_alive q p \<and> p \<notin> pending q \<and> tq_callingExpiredTimers q then {(p, tm_sequence (tq_heap q p))} else {})"
proof (cases "timer_alive q p")
  case False
  then have "p \<notin> pending q" by (simp add: alive_pending)
  with False show ?thesis using inv by (simp add: timer_cancel_def round_ext_refl)
next
  case alive: True
  note size = tq_inv_sizes [OF inv]
  show ?thesis
  proof (cases "p \<in> pending q")
    case True
    let ?e = "(tm_expiredTime (tq_heap q p), p)" and ?a = "(p, tm_sequence (tq_heap q p))"
    let ?q = "q\<lparr>tq_timers := remove1 ?e (tq_timers q), tq_active := remove1 ?a (tq_active q)\<rparr>"
    have e: "?e \<in> set (tq_timers q)" "?a \<in> set (tq_active q)"
      using True pending_timers [OF inv] pending_active [OF inv] by auto
    have s: "sorted_wrt (<) (tq_timers q)" "sorted_wrt (<) (tq_active q)"
      and st: "set (tq_timers q) = (\<lambda>p. (tm_expiredTime (tq_heap q p), p)) ` pending q"
      and sa: "set (tq_active q) = (\<lambda>p. (p, tm_sequence (tq_heap q p))) ` pending q"
      using inv by (auto simp: tq_inv_def)
    have pend: "pending ?q = pending q - {p}"
      unfolding pending_def using s(1) st by (auto simp: strict_set_remove1 image_iff)
    have inv': "tq_inv ?q"
      using inv s unfolding tq_inv_def pend
      by (auto simp: strict_remove1 strict_set_remove1)
    have "timer_cancel p q = Some ?q"
      using alive e size tq_inv_sizes [OF inv']
      by (simp add: timer_cancel_def cancelInLoop_def oset_erase_def Let_def)
    then show ?thesis using inv' pend True by (auto simp: round_ext_def)
  next
    case False
    let ?a = "(p, tm_sequence (tq_heap q p))"
    have na: "?a \<notin> set (tq_active q)" using False pending_active [OF inv] by blast
    let ?q = "if tq_callingExpiredTimers q then q\<lparr>tq_canceling := fst (oset_insert ?a (tq_canceling q))\<rparr> else q"
    have "tq_inv ?q" "pending ?q = pending q"
      using inv alive by (auto simp: tq_inv_def alive_pending pending_def oset_insert_def set_insort_key)
    moreover have "timer_cancel p q = Some ?q"
      using alive na size by (simp add: timer_cancel_def cancelInLoop_def Let_def same_size_def)
    ultimately show ?thesis using False alive
      by (auto simp: round_ext_def oset_insert_def set_insort_key)
  qed
qed

lemma run_cmds_ok: "tq_inv q \<Longrightarrow> \<exists>q'. run_cmds cs q = Some q' \<and> round_ext q q'"
proof (induction cs arbitrary: q)
  case Nil
  then show ?case by (simp add: round_ext_refl)
next
  case (Cons c cs)
  show ?case
  proof (cases c)
    case (Cmd_add cb t i)
    obtain p q1 where q1: "addTimer cb t i q = Some (p, q1)" "round_ext q q1"
      using addTimer_ok [OF Cons.prems] by blast
    then obtain q' where "run_cmds cs q1 = Some q'" "round_ext q1 q'"
      using Cons.IH [OF round_ext_inv] by blast
    then show ?thesis using q1 round_ext_trans Cmd_add by auto
  next
    case (Cmd_cancel p)
    obtain q1 where q1: "timer_cancel p q = Some q1" "round_ext q q1"
      using timer_cancel_ok [OF Cons.prems] by blast
    then obtain q' where "run_cmds cs q1 = Some q'" "round_ext q1 q'"
      using Cons.IH [OF round_ext_inv] by blast
    then show ?thesis using q1 round_ext_trans Cmd_cancel by auto
  qed
qed

subsection \<open>A round of expired timers\<close>

lemma oset_below_filter: "sorted_wrt (<) xs \<Longrightarrow> oset_below (x::'a::linorder) xs = filter (\<lambda>y. y < x) xs"
proof (induction xs)
  case (Cons a xs)
  then have "\<not> a < x \<Longrightarrow> filter (\<lambda>y. y < x) xs = []" by (auto simp: filter_empty_conv)
  then show ?case using Cons by (auto simp: oset_below_def)
qed (simp add: oset_below_def)

lemma oset_from_filter: "sorted_wrt (<) xs \<Longrightarrow> oset_from (x::'a::linorder) xs = filter (\<lambda>y. \<not> y < x) xs"
proof (induction xs)
  case (Cons a xs)
  then have "\<not> a < x \<Longrightarrow> filter (\<lambda>y. \<not> y < x) xs = xs" by (auto simp: filter_id_conv)
  then show ?case using Cons by (auto simp: oset_from_def)
qed (simp add: oset_from_def)

lemma below_sentry: "(e::int \<times> nat) < (now, 0) \<longleftrightarrow> fst e < now"
  by (cases e) auto

lemma remove1_filter: "distinct xs \<Longrightarrow> remove1 x xs = filter (\<lambda>y. y \<noteq> x) xs"
  by (induction xs) (auto intro!: filter_True [symmetric])

lemma erase_active_ok:
  assumes "sorted_wrt (<) (tq_active q)" and "distinct (map snd es)"
    and "\<forall>a \<in> set (tq_active q). snd a = tm_sequence (tq_heap q (fst a))"
    and "\<forall>e \<in> set es. (snd e, tm_sequence (tq_heap q (snd e))) \<in> set (tq_active q)"
  shows "erase_active es q = Some (q\<lparr>tq_active := filter (\<lambda>a. fst a \<notin> snd ` set es) (tq_active q)\<rparr>)"
  using assms
proof (induction es arbitrary: q)
  case Nil
  then show ?case by simp
next
  case (Cons e es)
  obtain t p where e: "e = (t, p)" by (cases e)
  let ?a = "(p, tm_sequence (tq_heap q p))"
  let ?q = "q\<lparr>tq_active := remove1 ?a (tq_active q)\<rparr>"
  have d: "distinct (tq_active q)" using Cons.prems(1) by (simp add: strict_sorted_iff)
  have r: "remove1 ?a (tq_active q) = filter (\<lambda>a. fst a \<noteq> p) (tq_active q)"
    unfolding remove1_filter [OF d] using Cons.prems(3) by (intro filter_cong) (auto simp: prod_eq_iff)
  have "erase_active es ?q = Some (?q\<lparr>tq_active := filter (\<lambda>a. fst a \<notin> snd ` set es) (tq_active ?q)\<rparr>)"
    by (rule Cons.IH) (use Cons.prems e r in \<open>auto simp: sorted_wrt_filter\<close>)
  moreover have "filter (\<lambda>a. fst a \<notin> snd ` set es) (filter (\<lambda>a. fst a \<noteq> p) (tq_active q)) =
      filter (\<lambda>a. fst a \<notin> snd ` set (e # es)) (tq_active q)"
    using e by (auto simp: conj_commute)
  ultimately show ?case using Cons.prems(4) e r by (simp add: oset_erase_def)
qed

definition expired_at :: "int \<Rightarrow> timer_queue \<Rightarrow> (int \<times> nat) list" where
  "expired_at now q = filter (\<lambda>e. fst e < now) (tq_timers q)"

lemma expired_at_distinct: "tq_inv q \<Longrightarrow> distinct (map snd (expired_at now q))"
proof -
  assume inv: "tq_inv q"
  then have "distinct (tq_timers q)" and "inj_on snd (set (tq_timers q))"
    by (auto simp: tq_inv_def strict_sorted_iff inj_on_def)
  then show ?thesis
    unfolding expired_at_def distinct_map by (auto intro: inj_on_subset)
qed

lemma getExpired_ok:
  assumes inv: "tq_inv q" and no: "\<forall>p \<in> pending q. tm_expiredTime (tq_heap q p) \<noteq> now"
  shows "\<exists>q'. getExpired now q = Some (expired_at now q, q') \<and> tq_inv q' \<and>
    pending q' = pending q - snd ` set (expired_at now q) \<and> tq_same q q' \<and> tq_armed q' = tq_armed q \<and>
    tq_clock q' = tq_clock q"
proof -
  let ?es = "expired_at now q"
  let ?timers = "filter (\<lambda>e. \<not> fst e < now) (tq_timers q)"
  let ?active = "filter (\<lambda>a. fst a \<notin> snd ` set ?es) (tq_active q)"
  let ?q = "q\<lparr>tq_timers := ?timers, tq_active := ?active\<rparr>"
  have s: "sorted_wrt (<) (tq_timers q)" "sorted_wrt (<) (tq_active q)"
    and st: "set (tq_timers q) = (\<lambda>p. (tm_expiredTime (tq_heap q p), p)) ` pending q"
    and sa: "set (tq_active q) = (\<lambda>p. (p, tm_sequence (tq_heap q p))) ` pending q"
    using inv by (auto simp: tq_inv_def)
  have es: "snd ` set ?es = {p \<in> pending q. tm_expiredTime (tq_heap q p) < now}"
    unfolding expired_at_def using st by (auto simp: image_iff)
  have pend: "pending ?q = pending q - snd ` set ?es"
  proof -
    have "pending ?q = snd ` {e \<in> set (tq_timers q). \<not> fst e < now}" by (simp add: pending_def)
    then show ?thesis unfolding es st by (auto simp: image_iff)
  qed
  have inv': "tq_inv ?q"
    using inv s unfolding tq_inv_def pend
    by (auto simp: sorted_wrt_filter es)
  have erase: "erase_active ?es (q\<lparr>tq_timers := ?timers\<rparr>) = Some ?q"
    using erase_active_ok [of "q\<lparr>tq_timers := ?timers\<rparr>" ?es] s sa st expired_at_distinct [OF inv, of now] es
    by (auto simp: expired_at_def)
  have late: "?timers = [] \<or> now < fst (hd ?timers)"
  proof (cases ?timers)
    case (Cons e r)
    then have "e \<in> set ?timers" by simp
    with st no have "fst e \<noteq> now" "\<not> fst e < now" by auto
    then show ?thesis using Cons by simp
  qed simp
  have "getExpired now q = Some (?es, ?q)"
    using erase late tq_inv_sizes [OF inv] tq_inv_sizes [OF inv'] s(1)
    by (simp add: getExpired_def oset_below_filter oset_from_filter below_sentry expired_at_def Let_def)
  then show ?thesis using inv' pend by (simp add: tq_same_def)
qed

lemma run_expired_ok:
  "tq_inv q \<Longrightarrow> \<exists>q'. run_expired es q = Some q' \<and> round_ext (q\<lparr>tq_ran := tq_ran q @ map snd es\<rparr>) q'"
proof (induction es arbitrary: q)
  case Nil
  then show ?case by (simp add: round_ext_refl)
next
  case (Cons e es)
  obtain t p where e: "e = (t, p)" by (cases e)
  let ?q = "q\<lparr>tq_ran := tq_ran q @ [p]\<rparr>"
  have "tq_inv ?q" using Cons.prems by simp
  then obtain q1 where q1: "timer_run p q = Some q1" "round_ext ?q q1"
    using run_cmds_ok [of ?q] by (auto simp: timer_run_def)
  obtain q' where q': "run_expired es q1 = Some q'" "round_ext (q1\<lparr>tq_ran := tq_ran q1 @ map snd es\<rparr>) q'"
    using Cons.IH [OF round_ext_inv [OF q1(2)]] by blast
  have "round_ext (q\<lparr>tq_ran := tq_ran q @ map snd (e # es)\<rparr>) (q1\<lparr>tq_ran := tq_ran q1 @ map snd es\<rparr>)"
    using q1(2) e by (simp add: round_ext_def)
  from round_ext_trans [OF this q'(2)] show ?case using q1(1) q'(1) e by auto
qed

definition rearmed :: "timer_queue \<Rightarrow> (int \<times> nat) list \<Rightarrow> nat set" where
  "rearmed q es = {p \<in> snd ` set es. tm_repeat (tq_heap q p) \<and> (p, tm_sequence (tq_heap q p)) \<notin> set (tq_canceling q)}"

lemma reinsert_ok:
  assumes "tq_inv q" and "distinct (map snd es)"
    and "\<forall>e \<in> set es. snd e \<notin> pending q \<and> snd e \<noteq> 0 \<and> snd e \<notin> range (tq_addrs q)"
  shows "\<exists>q'. reinsert now es q = Some q' \<and> tq_inv q' \<and> pending q' = pending q \<union> rearmed q es \<and>
    tq_heap q' = (\<lambda>p. if p \<in> rearmed q es then restart now (tq_heap q p) else tq_heap q p) \<and>
    tq_canceling q' = tq_canceling q \<and> tq_ran q' = tq_ran q \<and> tq_armed q' = tq_armed q \<and>
    tq_clock q' = tq_clock q"
  using assms
proof (induction es arbitrary: q)
  case Nil
  then show ?case by (simp add: rearmed_def)
next
  case (Cons e es)
  obtain t p where e: "e = (t, p)" by (cases e)
  have p: "p \<notin> pending q" "p \<noteq> 0" "p \<notin> range (tq_addrs q)" "p \<notin> snd ` set es"
    using Cons.prems(2,3) e by (auto simp: image_iff)
  let ?again = "tm_repeat (tq_heap q p) \<and> (p, tm_sequence (tq_heap q p)) \<notin> set (tq_canceling q)"
  show ?case
  proof (cases ?again)
    case False
    then have "rearmed q (e # es) = rearmed q es" using e p(4) by (auto simp: rearmed_def)
    then show ?thesis using Cons.IH [OF Cons.prems(1)] Cons.prems(2,3) False e by auto
  next
    case True
    let ?q = "q\<lparr>tq_heap := (tq_heap q)(p := restart now (tq_heap q p))\<rparr>"
    have pend: "pending ?q = pending q" by (simp add: pending_def)
    have img: "(\<lambda>r. (tm_expiredTime (tq_heap ?q r), r)) ` pending q = (\<lambda>r. (tm_expiredTime (tq_heap q r), r)) ` pending q"
      "(\<lambda>r. (r, tm_sequence (tq_heap ?q r))) ` pending q = (\<lambda>r. (r, tm_sequence (tq_heap q r))) ` pending q"
      using p(1) by (auto intro!: image_cong)
    have inv: "tq_inv ?q" using Cons.prems(1) img unfolding tq_inv_def pend by simp
    obtain b q1 where q1: "timer_insert p ?q = Some (b, q1)" "tq_inv q1" "pending q1 = insert p (pending q)"
      "tq_same ?q q1" "tq_armed q1 = tq_armed ?q" "tq_clock q1 = tq_clock ?q"
      using timer_insert_ok [OF inv, of p] p pend by auto
    have pre: "\<forall>e \<in> set es. snd e \<notin> pending q1 \<and> snd e \<noteq> 0 \<and> snd e \<notin> range (tq_addrs q1)"
      using Cons.prems(3) q1(3,4) p(4) by (auto simp: tq_same_def image_iff)
    obtain q' where q': "reinsert now es q1 = Some q'" "tq_inv q'" "pending q' = pending q1 \<union> rearmed q1 es"
      "tq_heap q' = (\<lambda>p. if p \<in> rearmed q1 es then restart now (tq_heap q1 p) else tq_heap q1 p)"
      "tq_canceling q' = tq_canceling q1" "tq_ran q' = tq_ran q1" "tq_armed q' = tq_armed q1"
      "tq_clock q' = tq_clock q1"
      using Cons.IH [OF q1(2) _ pre] Cons.prems(2) by auto
    have r1: "rearmed q1 es = rearmed q es"
      using q1(4) p(4) by (auto simp: rearmed_def tq_same_def image_iff)
    have r: "rearmed q (e # es) = insert p (rearmed q es)" using True e by (auto simp: rearmed_def)
    have "p \<notin> rearmed q es" using p(4) by (auto simp: rearmed_def)
    then show ?thesis using q' q1 r1 r True e by (auto simp: tq_same_def fun_eq_iff)
  qed
qed

lemma handleRead_steps:
  assumes inv: "tq_inv q"
    and no: "\<forall>p \<in> pending q. tm_expiredTime (tq_heap q p) \<noteq> tq_clock q 0"
  defines "now \<equiv> tq_clock q 0"
  defines "es \<equiv> expired_at now q"
  shows "\<exists>q1 q2 q3. getExpired now (readTimerfd (snd (Timer_now q))) = Some (es, q1) \<and>
    pending q1 = pending q - snd ` set es \<and>
    run_expired es (q1\<lparr>tq_callingExpiredTimers := True, tq_canceling := [], tq_expired := es\<rparr>) = Some q2 \<and>
    round_ext (q1\<lparr>tq_callingExpiredTimers := True, tq_canceling := [], tq_expired := es,
       tq_ran := tq_ran q @ map snd es\<rparr>) q2 \<and> tq_heap q1 = tq_heap q \<and> tq_addrs q1 = tq_addrs q \<and>
    timer_reset es now (q2\<lparr>tq_callingExpiredTimers := False\<rparr>) = Some q3 \<and>
    handleRead q = Some (q3\<lparr>tq_expired := []\<rparr>) \<and> tq_inv (q3\<lparr>tq_expired := []\<rparr>) \<and>
    pending q3 = pending q2 \<union> rearmed q2 es \<and>
    tq_heap q3 = (\<lambda>p. if p \<in> rearmed q2 es then restart now (tq_heap q2 p) else tq_heap q2 p) \<and>
    tq_canceling q3 = tq_canceling q2 \<and> tq_ran q3 = tq_ran q2"
proof -
  let ?q0 = "readTimerfd (snd (Timer_now q))"
  have q0: "tq_inv ?q0" "pending ?q0 = pending q" "tq_heap ?q0 = tq_heap q" "tq_addrs ?q0 = tq_addrs q"
    "expired_at now ?q0 = es" "tq_ran ?q0 = tq_ran q"
    using inv by (simp_all add: readTimerfd_def Timer_now_def pending_def es_def expired_at_def)
  obtain q1 where q1: "getExpired now ?q0 = Some (es, q1)" "tq_inv q1" "pending q1 = pending q - snd ` set es"
    "tq_same ?q0 q1"
    using getExpired_ok [OF q0(1), of now, unfolded q0(2,3,5)] no [folded now_def] by blast
  let ?q1 = "q1\<lparr>tq_callingExpiredTimers := True, tq_canceling := [], tq_expired := es\<rparr>"
  have es: "snd ` set es \<subseteq> pending q" by (auto simp: es_def expired_at_def pending_def)
  have addrs: "tq_addrs q1 = tq_addrs q" and heap: "tq_heap q1 = tq_heap q" and ran: "tq_ran q1 = tq_ran q"
    using q1(4) q0 by (auto simp: tq_same_def)
  have fresh: "tq_addrs q i \<notin> snd ` set es" for i using es inv by (auto simp: tq_inv_def)
  have p1: "pending ?q1 = pending q1" by (simp add: pending_def)
  have inv1: "tq_inv ?q1"
    using q1(2) fresh unfolding tq_inv_def p1 by (simp add: addrs)
  obtain q2 where q2: "run_expired es ?q1 = Some q2" "round_ext (?q1\<lparr>tq_ran := tq_ran q @ map snd es\<rparr>) q2"
    using run_expired_ok [OF inv1, of es] ran by auto
  let ?q2 = "q2\<lparr>tq_callingExpiredTimers := False\<rparr>"
  have p2: "pending ?q2 = pending q2" "rearmed ?q2 es = rearmed q2 es" "tq_heap ?q2 = tq_heap q2"
    by (simp_all add: pending_def rearmed_def)
  have inv2: "tq_inv ?q2" using round_ext_inv [OF q2(2)] unfolding tq_inv_def p2 by simp
  have sub: "pending q2 \<subseteq> pending q1 \<union> range (tq_addrs q)" "range (tq_addrs q2) \<subseteq> range (tq_addrs q)"
    using q2(2) p1 addrs by (simp_all add: round_ext_def)
  have pre: "\<forall>e \<in> set es. snd e \<notin> pending ?q2 \<and> snd e \<noteq> 0 \<and> snd e \<notin> range (tq_addrs ?q2)"
  proof
    fix e assume "e \<in> set es"
    then have e: "snd e \<in> snd ` set es" by simp
    then have "snd e \<notin> range (tq_addrs q)" using fresh by (metis rangeE)
    moreover have "snd e \<noteq> 0"
    proof -
      have "snd e \<in> pending q" using e es by blast
      moreover have "0 \<notin> pending q" using inv by (simp add: tq_inv_def)
      ultimately show ?thesis by metis
    qed
    moreover have "snd e \<notin> pending q1" using e q1(3) by blast
    ultimately show "snd e \<notin> pending ?q2 \<and> snd e \<noteq> 0 \<and> snd e \<notin> range (tq_addrs ?q2)"
      using sub unfolding p2 by auto
  qed
  have "distinct (map snd es)" unfolding es_def by (rule expired_at_distinct [OF inv])
  from reinsert_ok [OF inv2 this pre, of now] obtain r where r: "reinsert now es ?q2 = Some r" "tq_inv r"
    "pending r = pending q2 \<union> rearmed q2 es"
    "tq_heap r = (\<lambda>p. if p \<in> rearmed q2 es then restart now (tq_heap q2 p) else tq_heap q2 p)"
    "tq_canceling r = tq_canceling q2" "tq_ran r = tq_ran q2"
    unfolding p2 by auto
  let ?r2 = "snd (Timer_now r)"
  let ?e = "tq_heap r (snd (hd (tq_timers r)))"
  define q3 where "q3 = (if tq_timers r = [] then r
    else if timer_isValid (tq_clock r 0) ?e then resetTimerfd (tm_expiredTime ?e) ?r2 else ?r2)"
  have q3: "timer_reset es now ?q2 = Some q3"
    using r(1) by (simp add: timer_reset_def Timer_now_def Let_def q3_def)
  have same: "tq_inv q3" "pending q3 = pending r" "tq_heap q3 = tq_heap r" "tq_canceling q3 = tq_canceling r"
    "tq_ran q3 = tq_ran r"
    using r(2) by (simp_all add: q3_def resetTimerfd_def Timer_now_def pending_def)
  have inv3: "tq_inv (q3\<lparr>tq_expired := []\<rparr>)"
    using same(1) by (simp add: tq_inv_def pending_def)
  have "handleRead q = Some (q3\<lparr>tq_expired := []\<rparr>)"
    using q1(1) q2(1) q3 by (simp add: handleRead_def Let_def now_def Timer_now_def)
  then show ?thesis
    by (intro exI [of _ q1] exI [of _ q2] exI [of _ q3] conjI)
      (simp_all add: q1(1,3) q2 heap addrs q3 inv3 same r)
qed

subsection \<open>Properties\<close>

text \<open>C4: adding and cancelling timers never trips an assertion, whatever sequence of commands a
  callback (or the owner of the loop) issues, and keeps the two sets in step: both sorted, both
  about the same timers, each filed under its own expiry time and its own sequence number. An added
  timer is pending with the expiry asked for, a cancelled one is not pending, the others are
  untouched.\<close>

theorem timer_commands_safe:
  assumes "tq_inv q"
  shows "\<exists>q1 q2 q3. run_cmds cs q = Some q1 \<and> tq_inv q1 \<and> tq_ran q1 = tq_ran q \<and>
    addTimer cb timeout interval q1 = Some (tq_addrs q1 0, q2) \<and> tq_inv q2 \<and>
    pending q2 = insert (tq_addrs q1 0) (pending q1) \<and>
    tm_expiredTime (tq_heap q2 (tq_addrs q1 0)) = timeout \<and>
    timer_cancel p q2 = Some q3 \<and> tq_inv q3 \<and> pending q3 = pending q2 - {p}"
proof -
  obtain q1 where q1: "run_cmds cs q = Some q1" "round_ext q q1" using run_cmds_ok [OF assms] by blast
  obtain q2 where q2: "addTimer cb timeout interval q1 = Some (tq_addrs q1 0, q2)" "round_ext q1 q2"
    "pending q2 = insert (tq_addrs q1 0) (pending q1)"
    "tq_heap q2 (tq_addrs q1 0) = Timer_new cb timeout interval (tq_created q1 + 1)"
    using addTimer_ok [OF round_ext_inv [OF q1(2)]] by blast
  obtain q3 where "timer_cancel p q2 = Some q3" "round_ext q2 q3" "pending q3 = pending q2 - {p}"
    using timer_cancel_ok [OF round_ext_inv [OF q2(2)]] by blast
  then show ?thesis using q1 q2 by (auto simp: round_ext_def Timer_new_def)
qed

definition clock0 :: "nat \<Rightarrow> int" where "clock0 i = 1000 + 10 * int i"

lemma TimerQueue_new_inv: "inj addrs \<Longrightarrow> \<forall>i. addrs i \<noteq> 0 \<Longrightarrow> tq_inv (TimerQueue_new clock addrs)"
  by (simp add: tq_inv_def TimerQueue_new_def pending_def)

theorem timer_commands_safe_witness:
  "\<exists>q1 q2 q3. run_cmds [Cmd_add (Timer_cb []) 5 0, Cmd_cancel 1] (TimerQueue_new clock0 Suc) = Some q1 \<and>
    addTimer (Timer_cb []) 7 3 q1 = Some (tq_addrs q1 0, q2) \<and> timer_cancel 1 q2 = Some q3 \<and> tq_inv q3"
  using timer_commands_safe [OF TimerQueue_new_inv [of Suc clock0],
      of "[Cmd_add (Timer_cb []) 5 0, Cmd_cancel 1]" "Timer_cb []" 7 3 1] by auto


text \<open>A timer that expires at exactly the microsecond the round starts stops the process. The
  sentry is built with the null pointer, which is the smallest and not, as the comment says, the
  largest, so such a timer is taken for one that is not due and the assertion after the search
  fails.\<close>

theorem handleRead_exact_expiry:
  assumes "tq_inv q" and "p \<in> pending q" and "tm_expiredTime (tq_heap q p) = tq_clock q 0"
  shows "handleRead q = None"
proof -
  let ?now = "tq_clock q 0"
  let ?rest = "oset_from (?now, 0) (tq_timers q)"
  have s: "sorted_wrt (<) (tq_timers q)" using assms(1) by (simp add: tq_inv_def)
  have e: "(?now, p) \<in> set ?rest"
    using assms pending_timers [OF assms(1), of p] by (simp add: oset_from_filter [OF s] below_sentry)
  then obtain x r where xr: "?rest = x # r" by (cases ?rest) auto
  have "sorted_wrt (<) ?rest" unfolding oset_from_filter [OF s] using s by (rule sorted_wrt_filter)
  then have "x \<le> (?now, p)" using e xr by auto
  then have "\<not> ?now < fst x" by (cases x) auto
  then have "getExpired ?now (readTimerfd (snd (Timer_now q))) = None"
    using xr tq_inv_sizes [OF assms(1)]
    by (simp add: getExpired_def readTimerfd_def Timer_now_def same_size_def Let_def)
  then show ?thesis by (simp add: handleRead_def Let_def Timer_now_def readTimerfd_def)
qed

definition one_timer :: "int \<Rightarrow> timer_queue" where
  "one_timer t = snd (the (addTimer (Timer_cb []) t 0 (TimerQueue_new clock0 Suc)))"

lemma one_timer_facts:
  "tq_inv (one_timer t)" "pending (one_timer t) = {Suc 0}" "tm_expiredTime (tq_heap (one_timer t) (Suc 0)) = t"
  "tq_clock (one_timer t) 0 = 1010" "tq_clock (one_timer t) (Suc 0) = 1020"
proof -
  have new: "tq_addrs (TimerQueue_new clock0 Suc) 0 = Suc 0" "pending (TimerQueue_new clock0 Suc) = {}"
    by (simp_all add: TimerQueue_new_def pending_def)
  have "tq_inv (TimerQueue_new clock0 Suc)" by (rule TimerQueue_new_inv) simp_all
  from addTimer_ok [OF this, of "Timer_cb []" t 0]
  obtain q' where q': "addTimer (Timer_cb []) t 0 (TimerQueue_new clock0 Suc) = Some (Suc 0, q')"
    "tq_inv q'" "pending q' = {Suc 0}" "tm_expiredTime (tq_heap q' (Suc 0)) = t"
    by (auto simp: new round_ext_def Timer_new_def)
  then show "tq_inv (one_timer t)" "pending (one_timer t) = {Suc 0}" "tm_expiredTime (tq_heap (one_timer t) (Suc 0)) = t"
    by (simp_all add: one_timer_def)
  show "tq_clock (one_timer t) 0 = 1010" "tq_clock (one_timer t) (Suc 0) = 1020"
    by (simp_all add: one_timer_def addTimer_def addTimerInLoop_def timer_insert_def TimerQueue_new_def same_size_def
        oset_insert_def resetTimerfd_def Timer_now_def clock0_def Let_def)
qed

theorem handleRead_exact_expiry_witness: "handleRead (one_timer 1010) = None"
  using handleRead_exact_expiry [of "one_timer 1010" "Suc 0"] by (simp add: one_timer_facts)


definition deadline :: "int \<times> timespec \<Rightarrow> int" where
  "deadline a = fst a + tv_sec (snd a) * kMicroSecondsPerSecond + tv_nsec (snd a) div 1000"

lemma deadline_howMuch: "deadline (now, howMuchTimeFromNow when now) = max when (now + 100)"
proof -
  define m where "m = max 100 (when - now)"
  have "howMuchTimeFromNow when now = \<lparr>tv_sec = m div kMicroSecondsPerSecond,
      tv_nsec = (m mod kMicroSecondsPerSecond) * 1000\<rparr>"
    by (simp add: howMuchTimeFromNow_def m_def Let_def max_def)
  moreover have "m div kMicroSecondsPerSecond * kMicroSecondsPerSecond + m mod kMicroSecondsPerSecond = m"
    by (rule div_mult_mod_eq)
  ultimately show ?thesis by (simp add: deadline_def m_def)
qed

lemma reinsert_quiet:
  "reinsert now es q = Some q' \<Longrightarrow> tq_armed q' = tq_armed q \<and> tq_clock q' = tq_clock q"
proof (induction now es q arbitrary: q' rule: reinsert.induct)
  case (2 now t p es q)
  then show ?case
    by (auto simp: timer_insert_def Let_def Option.bind_eq_Some_conv split: if_splits prod.splits)
qed simp



end
