(* ===== verification/Connector.thy ===== *)
theory Connector
  imports HttpResponse TcpConnection TimerQueue "HOL-Library.Multiset"
begin

text \<open>
  \<^verbatim>\<open>mutlithread/multiThread/net/Connector.{h,cpp}\<close> and \<^verbatim>\<open>TcpClient.{h,cpp}\<close>: the active side of a
  connection. Everything runs in the connector's loop. \<open>ct_tasks\<close> are the functors it has queued and
  \<open>ct_timers\<close> the delays, in microseconds, of the timers that will call \<^verbatim>\<open>startInLoop\<close>;
  \<open>ct_closed\<close> and \<open>ct_given\<close> record the descriptors closed and handed to the callback. What
  \<^verbatim>\<open>socket\<close>, \<^verbatim>\<open>connect\<close> and \<^verbatim>\<open>getsockopt\<close> answer is an argument.
\<close>

datatype connector_state = ct_kDisconnected | ct_kConnecting | ct_kConnected

datatype connector_task = Task_stopInLoop | Task_resetChannel

text \<open>\<open>ct_channel\<close>: the channel's descriptor and whether it is registered with the poller.\<close>

record connector =
  ct_connect :: bool
  ct_state :: connector_state
  ct_channel :: "(int \<times> bool) option"
  ct_retryDelayMs :: int
  ct_tasks :: "connector_task list"
  ct_timers :: "int list"
  ct_closed :: "int list"
  ct_given :: "int list"

definition kMaxRetryDelayMs :: int where "kMaxRetryDelayMs = 30 * 1000"

definition kInitRetryDelayMs :: int where "kInitRetryDelayMs = 500"

definition Connector_new :: connector where
  "Connector_new = \<lparr>ct_connect = False, ct_state = ct_kDisconnected, ct_channel = None,
     ct_retryDelayMs = kInitRetryDelayMs, ct_tasks = [], ct_timers = [], ct_closed = [], ct_given = []\<rparr>"

definition Connector_delete :: "connector \<Rightarrow> unit option" where
  "Connector_delete ct = assertion (ct_channel ct = None)"

definition connector_setState :: "connector_state \<Rightarrow> connector \<Rightarrow> connector" where
  "connector_setState s ct = ct\<lparr>ct_state := s\<rparr>"

definition connector_close :: "int \<Rightarrow> connector \<Rightarrow> connector" where
  "connector_close fd ct = ct\<lparr>ct_closed := ct_closed ct @ [fd]\<rparr>"

definition connecting :: "int \<Rightarrow> connector \<Rightarrow> connector option" where
  "connecting fd ct = do {
     let ct1 = connector_setState ct_kConnecting ct;
     assertion (ct_channel ct1 = None);
     Some (ct1\<lparr>ct_channel := Some (fd, True)\<rparr>) }"

text \<open>\<^verbatim>\<open>runAfter\<close> takes whole microseconds: the quotient by \<open>1000.0\<close> is cut to an integer.\<close>

definition retry :: "int \<Rightarrow> connector \<Rightarrow> connector" where
  "retry fd ct =
     (let ct1 = connector_setState ct_kDisconnected (connector_close fd ct)
      in if ct_connect ct1
         then ct1\<lparr>ct_timers := ct_timers ct1 @ [ct_retryDelayMs ct1 div 1000],
                  ct_retryDelayMs := min (ct_retryDelayMs ct1 * 2) kMaxRetryDelayMs\<rparr>
         else ct1)"

definition going_errors :: "int list" where
  "going_errors = [0, 115, 4, 106]"

definition retry_errors :: "int list" where
  "retry_errors = [11, 98, 99, 111, 101]"

definition connector_connect :: "int \<times> int \<Rightarrow> connector \<Rightarrow> connector option" where
  "connector_connect answer ct = (let (fd, savedErrno) = answer in
     if savedErrno \<in> set going_errors then connecting fd ct
     else if savedErrno \<in> set retry_errors then Some (retry fd ct)
     else Some (connector_close fd ct))"

definition startInLoop :: "int \<times> int \<Rightarrow> connector \<Rightarrow> connector option" where
  "startInLoop answer ct = do {
     assertion (ct_state ct = ct_kDisconnected);
     if ct_connect ct then connector_connect answer ct else Some ct }"

definition connector_start :: "int \<times> int \<Rightarrow> connector \<Rightarrow> connector option" where
  "connector_start answer ct = startInLoop answer (ct\<lparr>ct_connect := True\<rparr>)"

definition connector_restart :: "int \<times> int \<Rightarrow> connector \<Rightarrow> connector option" where
  "connector_restart answer ct =
     startInLoop answer ((connector_setState ct_kDisconnected ct)
       \<lparr>ct_retryDelayMs := kInitRetryDelayMs, ct_connect := True\<rparr>)"

definition connector_stop :: "connector \<Rightarrow> connector" where
  "connector_stop ct = ct\<lparr>ct_connect := False, ct_tasks := ct_tasks ct @ [Task_stopInLoop]\<rparr>"

text \<open>Removing a channel that asks for no events never fails; without a channel it is a null dereference.\<close>

definition removeAndResetChannel :: "connector \<Rightarrow> (int \<times> connector) option" where
  "removeAndResetChannel ct = do {
     (fd, registered) \<leftarrow> ct_channel ct;
     Some (fd, ct\<lparr>ct_channel := Some (fd, False), ct_tasks := ct_tasks ct @ [Task_resetChannel]\<rparr>) }"

definition resetChannel :: "connector \<Rightarrow> connector" where
  "resetChannel ct = ct\<lparr>ct_channel := None\<rparr>"

definition stopInLoop :: "connector \<Rightarrow> connector option" where
  "stopInLoop ct =
     (if ct_state ct = ct_kConnecting
      then do {
        (fd, ct1) \<leftarrow> removeAndResetChannel (connector_setState ct_kDisconnected ct);
        Some (retry fd ct1) }
      else Some ct)"

definition isSelfConnect :: "sockaddr_in \<Rightarrow> sockaddr_in \<Rightarrow> bool" where
  "isSelfConnect localAddress peerAddress \<longleftrightarrow>
     sin_port localAddress = sin_port peerAddress \<and> sin_addr localAddress = sin_addr peerAddress"

definition connector_handleWrite :: "int + int \<Rightarrow> sockaddr_in \<Rightarrow> sockaddr_in \<Rightarrow> connector \<Rightarrow> connector option" where
  "connector_handleWrite soerror localAddress peerAddress ct =
     (if ct_state ct = ct_kConnecting
      then do {
        (fd, ct1) \<leftarrow> removeAndResetChannel ct;
        let err = getSocketError soerror;
        if err \<noteq> 0 then Some (retry fd ct1)
        else if isSelfConnect localAddress peerAddress then Some (retry fd ct1)
        else do {
          let ct2 = connector_setState ct_kConnected ct1;
          Some (if ct_connect ct2 then ct2\<lparr>ct_given := ct_given ct2 @ [fd]\<rparr>
                else connector_close fd ct2) } }
      else do { assertion (ct_state ct = ct_kDisconnected); Some ct })"

definition connector_handleError :: "connector \<Rightarrow> connector option" where
  "connector_handleError ct = do {
     assertion (ct_state ct = ct_kConnecting);
     (fd, ct1) \<leftarrow> removeAndResetChannel ct;
     Some (retry fd ct1) }"

subsection \<open>Events\<close>

text \<open>What the user calls, what the poller and the timers report, and the loop running the next
  functor.\<close>

datatype connector_event = Ct_start "int \<times> int" | Ct_restart "int \<times> int" | Ct_stop
  | Ct_writable "int + int" sockaddr_in sockaddr_in | Ct_error | Ct_timer "int \<times> int" | Ct_task

fun connector_step :: "connector_event \<Rightarrow> connector \<Rightarrow> connector option" where
  "connector_step (Ct_start answer) ct = connector_start answer ct"
| "connector_step (Ct_restart answer) ct = connector_restart answer ct"
| "connector_step Ct_stop ct = Some (connector_stop ct)"
| "connector_step (Ct_writable e l p) ct = connector_handleWrite e l p ct"
| "connector_step Ct_error ct = connector_handleError ct"
| "connector_step (Ct_timer answer) ct = startInLoop answer (ct\<lparr>ct_timers := tl (ct_timers ct)\<rparr>)"
| "connector_step Ct_task ct = (case ct_tasks ct of
     [] \<Rightarrow> Some ct
   | Task_stopInLoop # ts \<Rightarrow> stopInLoop (ct\<lparr>ct_tasks := ts\<rparr>)
   | Task_resetChannel # ts \<Rightarrow> Some (resetChannel (ct\<lparr>ct_tasks := ts\<rparr>)))"

text \<open>The start and the restart are for a connector at rest; the poller reports only a registered
  channel. A timer is assumed to fire after the functor that frees the old channel has run.\<close>

fun connector_event_ok :: "connector_event \<Rightarrow> connector \<Rightarrow> bool" where
  "connector_event_ok (Ct_start answer) ct \<longleftrightarrow> ct_state ct = ct_kDisconnected \<and> ct_timers ct = [] \<and> ct_channel ct = None"
| "connector_event_ok (Ct_restart answer) ct \<longleftrightarrow> ct_timers ct = [] \<and> ct_channel ct = None"
| "connector_event_ok (Ct_writable e l p) ct \<longleftrightarrow> ct_state ct = ct_kConnecting"
| "connector_event_ok Ct_error ct \<longleftrightarrow> ct_state ct = ct_kConnecting"
| "connector_event_ok (Ct_timer answer) ct \<longleftrightarrow> ct_timers ct \<noteq> [] \<and> ct_channel ct = None"
| "connector_event_ok _ ct \<longleftrightarrow> True"

definition connector_inv :: "connector \<Rightarrow> bool" where
  "connector_inv ct \<longleftrightarrow>
     (ct_state ct = ct_kConnecting \<longleftrightarrow> (\<exists>fd. ct_channel ct = Some (fd, True))) \<and>
     count_list (ct_tasks ct) Task_resetChannel = (if \<exists>fd. ct_channel ct = Some (fd, False) then 1 else 0) \<and>
     (ct_timers ct \<noteq> [] \<longrightarrow> ct_state ct = ct_kDisconnected \<and> length (ct_timers ct) = 1) \<and>
     kInitRetryDelayMs \<le> ct_retryDelayMs ct \<and> ct_retryDelayMs ct \<le> kMaxRetryDelayMs"

text \<open>The descriptors the connector has been given, and the one a step obtains.\<close>

definition connector_fds :: "connector \<Rightarrow> int multiset" where
  "connector_fds ct = mset (ct_closed ct) + mset (ct_given ct) +
     (case ct_channel ct of Some (fd, True) \<Rightarrow> {#fd#} | _ \<Rightarrow> {#})"

fun opened :: "connector_event \<Rightarrow> connector \<Rightarrow> int multiset" where
  "opened (Ct_start answer) ct = {#fst answer#}"
| "opened (Ct_restart answer) ct = {#fst answer#}"
| "opened (Ct_timer answer) ct = (if ct_connect ct then {#fst answer#} else {#})"
| "opened _ ct = {#}"

lemmas connector_defs = connector_setState_def connector_close_def connecting_def retry_def
  removeAndResetChannel_def resetChannel_def connector_connect_def startInLoop_def stopInLoop_def

lemma startInLoop_ok:
  assumes "connector_inv ct" and "ct_state ct = ct_kDisconnected" and "ct_timers ct = []" and "ct_channel ct = None"
  shows "\<exists>ct'. startInLoop answer ct = Some ct' \<and> connector_inv ct' \<and>
    connector_fds ct' = connector_fds ct + (if ct_connect ct then {#fst answer#} else {#})"
  using assms
  by (cases answer) (auto simp: connector_defs connector_inv_def connector_fds_def kInitRetryDelayMs_def
      kMaxRetryDelayMs_def Let_def)

definition channel_removed :: "int \<Rightarrow> connector \<Rightarrow> connector" where
  "channel_removed fd ct = ct\<lparr>ct_channel := Some (fd, False), ct_tasks := ct_tasks ct @ [Task_resetChannel]\<rparr>"

lemma connectingE:
  assumes "connector_inv ct" and "ct_state ct = ct_kConnecting"
  obtains fd where "ct_channel ct = Some (fd, True)" "removeAndResetChannel ct = Some (fd, channel_removed fd ct)"
    "removeAndResetChannel (ct\<lparr>ct_state := st\<rparr>) = Some (fd, channel_removed fd (ct\<lparr>ct_state := st\<rparr>))"
    "count_list (ct_tasks ct) Task_resetChannel = 0" "ct_timers ct = []"
  using assms by (auto simp: connector_inv_def removeAndResetChannel_def channel_removed_def)

lemma retry_state: "retry fd (channel_removed fd (ct\<lparr>ct_state := st\<rparr>)) = retry fd (channel_removed fd ct)"
  by (simp add: retry_def channel_removed_def connector_setState_def connector_close_def Let_def)

lemma giving_up:
  assumes "connector_inv ct" and "ct_channel ct = Some (fd, True)"
  shows "connector_inv (retry fd (channel_removed fd ct))" "connector_fds (retry fd (channel_removed fd ct)) = connector_fds ct"
proof -
  have "count_list (ct_tasks ct) Task_resetChannel = 0" "ct_timers ct = []" using assms by (auto simp: connector_inv_def)
  then show "connector_inv (retry fd (channel_removed fd ct))"
    using assms by (auto simp: connector_defs channel_removed_def connector_inv_def kInitRetryDelayMs_def
        kMaxRetryDelayMs_def Let_def)
  show "connector_fds (retry fd (channel_removed fd ct)) = connector_fds ct"
    using assms(2) by (simp add: connector_defs channel_removed_def connector_fds_def Let_def)
qed

lemma finishing:
  assumes "connector_inv ct" and "ct_channel ct = Some (fd, True)"
    and "mset xs + mset ys = mset (ct_closed ct) + mset (ct_given ct) + {#fd#}"
  shows "connector_inv ((channel_removed fd ct)\<lparr>ct_state := ct_kConnected, ct_closed := xs, ct_given := ys\<rparr>)"
    "connector_fds ((channel_removed fd ct)\<lparr>ct_state := ct_kConnected, ct_closed := xs, ct_given := ys\<rparr>) = connector_fds ct"
  using assms by (auto simp: channel_removed_def connector_inv_def connector_fds_def)

lemma task_ok:
  assumes "connector_inv ct"
  shows "\<exists>ct'. connector_step Ct_task ct = Some ct' \<and> connector_inv ct' \<and> connector_fds ct' = connector_fds ct"
proof (cases "ct_tasks ct")
  case Nil
  then show ?thesis using assms by simp
next
  case (Cons t ts)
  show ?thesis
  proof (cases t)
    case Task_stopInLoop
    let ?ct = "ct\<lparr>ct_tasks := ts\<rparr>"
    have inv: "connector_inv ?ct" and fds: "connector_fds ?ct = connector_fds ct"
      using assms Cons Task_stopInLoop by (simp_all add: connector_inv_def connector_fds_def)
    show ?thesis
    proof (cases "ct_state ?ct = ct_kConnecting")
      case True
      obtain fd where fd: "ct_channel ?ct = Some (fd, True)"
        "removeAndResetChannel (?ct\<lparr>ct_state := ct_kDisconnected\<rparr>) =
          Some (fd, channel_removed fd (?ct\<lparr>ct_state := ct_kDisconnected\<rparr>))"
        using connectingE [OF inv True] by blast
      have "stopInLoop ?ct = Some (retry fd (channel_removed fd ?ct))"
        using True fd(2) retry_state [of fd ct_kDisconnected ?ct] by (simp add: stopInLoop_def connector_setState_def)
      then show ?thesis using giving_up [OF inv fd(1)] fds Cons Task_stopInLoop by simp
    next
      case False
      then show ?thesis using inv fds Cons Task_stopInLoop by (simp add: stopInLoop_def)
    qed
  next
    case Task_resetChannel
    then show ?thesis using assms Cons
      by (auto simp: resetChannel_def connector_inv_def connector_fds_def split: if_splits)
  qed
qed


lemma connector_new_inv: "connector_inv Connector_new"
  by (simp add: connector_inv_def Connector_new_def kInitRetryDelayMs_def kMaxRetryDelayMs_def)


text \<open>The delay between two attempts doubles from 500 up to 30000 milliseconds, but the timer is
  armed with that number divided by 1000 and taken as microseconds: no retry ever waits for more than 30
  microseconds.\<close>

theorem connector_backoff:
  assumes "ct_connect ct" and "ct_retryDelayMs ct = kInitRetryDelayMs"
  shows "ct_retryDelayMs ((retry fd ^^ k) ct) = min (500 * 2 ^ k) 30000 \<and>
    ct_timers ((retry fd ^^ k) ct) = ct_timers ct @ map (\<lambda>i. min (500 * 2 ^ i) 30000 div 1000) [0..<k] \<and>
    set (map (\<lambda>i. min (500 * 2 ^ i) 30000 div 1000) [0..<k]) \<subseteq> {0..30 :: int}"
proof (intro conjI)
  have "ct_connect ((retry fd ^^ k) ct) \<and> ct_retryDelayMs ((retry fd ^^ k) ct) = min (500 * 2 ^ k) 30000 \<and>
    ct_timers ((retry fd ^^ k) ct) = ct_timers ct @ map (\<lambda>i. min (500 * 2 ^ i) 30000 div 1000) [0..<k]"
    using assms
    by (induction k) (auto simp: connector_defs kInitRetryDelayMs_def kMaxRetryDelayMs_def Let_def min_def)
  then show "ct_retryDelayMs ((retry fd ^^ k) ct) = min (500 * 2 ^ k) 30000"
    "ct_timers ((retry fd ^^ k) ct) = ct_timers ct @ map (\<lambda>i. min (500 * 2 ^ i) 30000 div 1000) [0..<k]"
    by blast+
  have "(0 :: int) \<le> min (500 * 2 ^ i) 30000 div 1000 \<and> (min (500 * 2 ^ i) 30000 :: int) div 1000 \<le> 30" for i
  proof -
    have "(0 :: int) \<le> min (500 * 2 ^ i) 30000" "(min (500 * 2 ^ i) 30000 :: int) \<le> 30000" by simp_all
    then show ?thesis by linarith
  qed
  then show "set (map (\<lambda>i. min (500 * 2 ^ i) 30000 div 1000) [0..<k]) \<subseteq> {0..30 :: int}" by auto
qed

theorem connector_backoff_witness:
  "ct_retryDelayMs ((retry 5 ^^ 3) (Connector_new\<lparr>ct_connect := True\<rparr>)) = 4000 \<and>
    ct_timers ((retry 5 ^^ 3) (Connector_new\<lparr>ct_connect := True\<rparr>)) = [0, 1, 2]"
  using connector_backoff [of "Connector_new\<lparr>ct_connect := True\<rparr>" 3 5]
  by (simp add: Connector_new_def upt_rec)

text \<open>A retry can come too soon. After a failed attempt the functor that frees the old channel is
  still queued while the timer that starts the next attempt is due almost at once; if the loop handles
  the timer in the same batch of events, and connect gets under way, the assertion that there is no
  channel stops the process.\<close>

theorem retry_races_reset:
  assumes "connector_inv ct" and "ct_state ct = ct_kConnecting" and "ct_connect ct" and "snd answer \<in> set going_errors"
  shows "\<exists>ct'. connector_step Ct_error ct = Some ct' \<and> connector_inv ct' \<and> ct_timers ct' \<noteq> [] \<and>
    hd (ct_timers ct') \<le> 30 \<and> ct_tasks ct' = ct_tasks ct @ [Task_resetChannel] \<and>
    connector_step (Ct_timer answer) ct' = None"
proof -
  obtain fd where fd: "ct_channel ct = Some (fd, True)" "removeAndResetChannel ct = Some (fd, channel_removed fd ct)"
    "ct_timers ct = []"
    using connectingE [OF assms(1,2)] by blast
  let ?ct = "retry fd (channel_removed fd ct)"
  have "connector_step Ct_error ct = Some ?ct" using assms(2) fd(2) by (simp add: connector_handleError_def)
  moreover have "ct_timers ?ct = [ct_retryDelayMs ct div 1000]" "ct_tasks ?ct = ct_tasks ct @ [Task_resetChannel]"
    "ct_channel ?ct = Some (fd, False)" "ct_connect ?ct" "ct_state ?ct = ct_kDisconnected"
    using assms(3) fd(3) by (simp_all add: connector_defs channel_removed_def Let_def)
  moreover have "ct_retryDelayMs ct div 1000 \<le> 30"
  proof -
    have "ct_retryDelayMs ct \<le> 30000" using assms(1) by (simp add: connector_inv_def kMaxRetryDelayMs_def)
    then show ?thesis by linarith
  qed
  moreover have "connector_step (Ct_timer answer) ?ct = None" if "ct_channel ?ct = Some (fd, False)" "ct_connect ?ct"
    "ct_state ?ct = ct_kDisconnected"
    using that assms(4) by (auto simp: startInLoop_def connector_connect_def connecting_def connector_setState_def
        split: prod.splits)
  ultimately show ?thesis using giving_up(1) [OF assms(1) fd(1)] by simp
qed

theorem retry_races_reset_witness:
  "\<exists>ct ct'. connector_step (Ct_start (5, 115)) Connector_new = Some ct \<and> connector_step Ct_error ct = Some ct' \<and>
    connector_step (Ct_timer (6, 115)) ct' = None"
proof -
  let ?ct = "Connector_new\<lparr>ct_connect := True, ct_state := ct_kConnecting, ct_channel := Some (5, True)\<rparr>"
  have s: "connector_step (Ct_start (5, 115)) Connector_new = Some ?ct"
    by (simp add: connector_start_def startInLoop_def connector_connect_def connecting_def connector_setState_def
        Connector_new_def going_errors_def)
  have "connector_inv ?ct" "ct_state ?ct = ct_kConnecting" "ct_connect ?ct"
    by (simp_all add: connector_inv_def Connector_new_def kInitRetryDelayMs_def kMaxRetryDelayMs_def)
  from retry_races_reset [OF this, of "(6, 115)"] show ?thesis
    by - (rule exI [of _ ?ct], use s in \<open>auto simp: going_errors_def\<close>)
qed

subsection \<open>TcpClient\<close>

record tcp_client =
  tcl_connector :: connector
  tcl_name :: string
  tcl_retry :: bool
  tcl_connect :: bool
  tcl_nextConnectionId :: nat
  tcl_connection :: "unit connection option"
  tcl_destroying :: "unit connection list"

definition TcpClient_new :: "string \<Rightarrow> tcp_client" where
  "TcpClient_new name = \<lparr>tcl_connector = Connector_new, tcl_name = name, tcl_retry = False, tcl_connect = True,
     tcl_nextConnectionId = 1, tcl_connection = None, tcl_destroying = []\<rparr>"

definition client_connect :: "int \<times> int \<Rightarrow> tcp_client \<Rightarrow> tcp_client option" where
  "client_connect answer cl = do {
     let cl1 = cl\<lparr>tcl_connect := True\<rparr>;
     ct \<leftarrow> connector_start answer (tcl_connector cl1);
     Some (cl1\<lparr>tcl_connector := ct\<rparr>) }"

definition client_disconnect :: "tcp_client \<Rightarrow> tcp_client option" where
  "client_disconnect cl =
     (let cl1 = cl\<lparr>tcl_connect := False\<rparr>
      in case tcl_connection cl1 of
           None \<Rightarrow> Some cl1
         | Some c \<Rightarrow> do { c' \<leftarrow> conn_shutdown True c; Some (cl1\<lparr>tcl_connection := Some c'\<rparr>) })"

definition client_stop :: "tcp_client \<Rightarrow> tcp_client" where
  "client_stop cl = cl\<lparr>tcl_connect := False, tcl_connector := connector_stop (tcl_connector cl)\<rparr>"

definition enableRetry :: "tcp_client \<Rightarrow> tcp_client" where
  "enableRetry cl = cl\<lparr>tcl_retry := True\<rparr>"

text \<open>The shared pointer to the new connection is a local variable: its only owner goes out of scope at the
  end, and the destructor runs. The peer's address is taken from \<^verbatim>\<open>getLocalAddress\<close> too.\<close>

definition client_newConnection :: "nat \<Rightarrow> epoll \<Rightarrow> sockaddr_in option \<Rightarrow> int \<Rightarrow> tcp_client \<Rightarrow> tcp_client option" where
  "client_newConnection p ep sockname fd cl = do {
     let peerAddress = getLocalAddress sockname;
     let localAddress = getLocalAddress sockname;
     let buf = snprintf 32 (''#'' @ dec (tcl_nextConnectionId cl));
     let cl1 = cl\<lparr>tcl_nextConnectionId := tcl_nextConnectionId cl + 1\<rparr>;
     let connection = (TcpConnection_new (tcl_name cl1 @ buf) p fd localAddress peerAddress ep :: unit connection);
     TcpConnection_delete connection;
     Some cl1 }"

text \<open>Two pointers to connections are equal when they are the connections of the same channel.\<close>

definition client_removeConnection :: "int \<times> int \<Rightarrow> unit connection \<Rightarrow> tcp_client \<Rightarrow> tcp_client option" where
  "client_removeConnection answer connection cl = do {
     assertion (map_option cn_channel (tcl_connection cl) = Some (cn_channel connection));
     let cl1 = cl\<lparr>tcl_connection := None, tcl_destroying := tcl_destroying cl @ [connection]\<rparr>;
     if tcl_retry cl1 \<and> tcl_connect cl1
     then do { ct \<leftarrow> connector_restart answer (tcl_connector cl1); Some (cl1\<lparr>tcl_connector := ct\<rparr>) }
     else Some cl1 }"

definition TcpClient_delete :: "tcp_client \<Rightarrow> tcp_client" where
  "TcpClient_delete cl = (case tcl_connection cl of
     Some c \<Rightarrow> cl | None \<Rightarrow> cl\<lparr>tcl_connector := connector_stop (tcl_connector cl)\<rparr>)"

text \<open>A client never has a connection. Nothing stores the connection newConnection makes, so it is
  destroyed as soon as it is made, in the state kConnecting, which its destructor asserts it is not in.\<close>

theorem client_newConnection_stops: "client_newConnection p ep sockname fd cl = None"
  by (simp add: client_newConnection_def TcpConnection_delete_def TcpConnection_new_def Let_def)

end
