(* ===== verification/Monitor.thy ===== *)
theory Monitor
  imports Prelude
begin

text \<open>
  \<^verbatim>\<open>mutlithread/multiThread/base/MutexLock.h\<close> and \<^verbatim>\<open>Condition.h\<close>, and the threads that use them.

  A \<open>mutex\<close> is the pthread mutex (\<open>mx_owner\<close>) with the field \<^verbatim>\<open>holder_\<close> the class adds; thread
  identities are positive. Every class of \<^verbatim>\<open>base\<close> that blocks has one shape: operations that lock the
  mutex, wait on a condition variable while a test holds, change the guarded data, signal, and unlock.
  \<open>prog\<close> describes such a class and \<open>mon_step\<close> is what its threads do, one step per mutex or
  condition operation, spurious wakeups included. The locales state when signalling is enough.
\<close>

subsection \<open>MutexLock\<close>

record mutex =
  mx_owner :: "nat option"
  mx_holder :: nat

definition MutexLock_new :: mutex where
  "MutexLock_new = \<lparr>mx_owner = None, mx_holder = 0\<rparr>"

definition MutexLock_delete :: "mutex \<Rightarrow> unit option" where
  "MutexLock_delete m = assertion (mx_holder m = 0)"

definition isLockedByThisThread :: "nat \<Rightarrow> mutex \<Rightarrow> bool" where
  "isLockedByThisThread tid m \<longleftrightarrow> mx_holder m = tid"

definition assertLocked :: "nat \<Rightarrow> mutex \<Rightarrow> unit option" where
  "assertLocked tid m = assertion (isLockedByThisThread tid m)"

text \<open>\<open>None\<close>: the caller blocks.\<close>

definition mutex_lock :: "nat \<Rightarrow> mutex \<Rightarrow> mutex option" where
  "mutex_lock tid m = (if mx_owner m = None then Some \<lparr>mx_owner = Some tid, mx_holder = tid\<rparr> else None)"

definition mutex_unlock :: "mutex \<Rightarrow> mutex" where
  "mutex_unlock m = m\<lparr>mx_holder := 0, mx_owner := None\<rparr>"

text \<open>\<^verbatim>\<open>Condition::wait\<close> hands the raw mutex to \<^verbatim>\<open>pthread_cond_wait\<close>, which releases it and takes
  it back; neither touches \<^verbatim>\<open>holder_\<close>.\<close>

definition wait_release :: "mutex \<Rightarrow> mutex" where
  "wait_release m = m\<lparr>mx_owner := None\<rparr>"

definition wait_reacquire :: "nat \<Rightarrow> mutex \<Rightarrow> mutex option" where
  "wait_reacquire tid m = (if mx_owner m = None then Some (m\<lparr>mx_owner := Some tid\<rparr>) else None)"

subsection \<open>Threads of a monitor\<close>

datatype ('o, 'c) thr = Outside | Locking 'o | Inside 'o | Waiting 'o 'c | Woken 'o 'c | Leaving

datatype 'c signal = Notify 'c | NotifyAll 'c

text \<open>What an operation waits for, what it does to the data, what it signals on the way, and when a
  thread may start it.\<close>

record ('o, 'c, 'd) prog =
  pr_waits :: "'o \<Rightarrow> 'd \<Rightarrow> 'c option"
  pr_exec :: "nat \<Rightarrow> 'o \<Rightarrow> 'd \<Rightarrow> 'd"
  pr_signal :: "'o \<Rightarrow> 'd \<Rightarrow> 'c signal option"
  pr_may :: "nat \<Rightarrow> 'o \<Rightarrow> 'd \<Rightarrow> bool"

record ('o, 'c, 'd) mon =
  mn_mutex :: mutex
  mn_data :: 'd
  mn_thr :: "nat \<Rightarrow> ('o, 'c) thr"

definition mon_new :: "'d \<Rightarrow> ('o, 'c, 'd) mon" where
  "mon_new d = \<lparr>mn_mutex = MutexLock_new, mn_data = d, mn_thr = \<lambda>t. Outside\<rparr>"

text \<open>\<^verbatim>\<open>pthread_cond_signal\<close> wakes one of the threads that wait, if there is any;
  \<^verbatim>\<open>pthread_cond_broadcast\<close> wakes all.\<close>

inductive wakes :: "'c signal option \<Rightarrow> (nat \<Rightarrow> ('o, 'c) thr) \<Rightarrow> (nat \<Rightarrow> ('o, 'c) thr) \<Rightarrow> bool" where
  wakes_nothing: "wakes None f f"
| wakes_one: "f t = Waiting op c \<Longrightarrow> wakes (Some (Notify c)) f (f(t := Woken op c))"
| wakes_nobody: "(\<forall>t op. f t \<noteq> Waiting op c) \<Longrightarrow> wakes (Some (Notify c)) f f"
| wakes_all: "wakes (Some (NotifyAll c)) f
    (\<lambda>t. case f t of Waiting op c' \<Rightarrow> if c' = c then Woken op c else Waiting op c' | x \<Rightarrow> x)"

inductive_cases wakesE: "wakes sg f f'"

datatype mon_act = A_call | A_lock | A_block | A_exec | A_leave | A_spurious | A_relock

inductive mon_step :: "('o, 'c, 'd) prog \<Rightarrow> ('o, 'c, 'd) mon \<Rightarrow> nat \<times> mon_act \<Rightarrow> ('o, 'c, 'd) mon \<Rightarrow> bool"
  for p :: "('o, 'c, 'd) prog" where
  step_call: "mn_thr s t = Outside \<Longrightarrow> pr_may p t op (mn_data s) \<Longrightarrow>
    mon_step p s (t, A_call) (s\<lparr>mn_thr := (mn_thr s)(t := Locking op)\<rparr>)"
| step_lock: "mn_thr s t = Locking op \<Longrightarrow> mutex_lock t (mn_mutex s) = Some m \<Longrightarrow>
    mon_step p s (t, A_lock) (s\<lparr>mn_mutex := m, mn_thr := (mn_thr s)(t := Inside op)\<rparr>)"
| step_block: "mn_thr s t = Inside op \<Longrightarrow> pr_waits p op (mn_data s) = Some c \<Longrightarrow>
    mon_step p s (t, A_block)
      (s\<lparr>mn_mutex := wait_release (mn_mutex s), mn_thr := (mn_thr s)(t := Waiting op c)\<rparr>)"
| step_exec: "mn_thr s t = Inside op \<Longrightarrow> pr_waits p op (mn_data s) = None \<Longrightarrow>
    wakes (pr_signal p op (mn_data s)) ((mn_thr s)(t := Leaving)) f \<Longrightarrow>
    mon_step p s (t, A_exec) (s\<lparr>mn_data := pr_exec p t op (mn_data s), mn_thr := f\<rparr>)"
| step_leave: "mn_thr s t = Leaving \<Longrightarrow>
    mon_step p s (t, A_leave) (s\<lparr>mn_mutex := mutex_unlock (mn_mutex s), mn_thr := (mn_thr s)(t := Outside)\<rparr>)"
| step_spurious: "mn_thr s t = Waiting op c \<Longrightarrow>
    mon_step p s (t, A_spurious) (s\<lparr>mn_thr := (mn_thr s)(t := Woken op c)\<rparr>)"
| step_relock: "mn_thr s t = Woken op c \<Longrightarrow> wait_reacquire t (mn_mutex s) = Some m \<Longrightarrow>
    mon_step p s (t, A_relock) (s\<lparr>mn_mutex := m, mn_thr := (mn_thr s)(t := Inside op)\<rparr>)"

inductive_cases mon_stepE: "mon_step p s a s'"

inductive mon_reach :: "('o, 'c, 'd) prog \<Rightarrow> 'd \<Rightarrow> ('o, 'c, 'd) mon \<Rightarrow> bool" for p d where
  mon_reach_new: "mon_reach p d (mon_new d)"
| mon_reach_step: "mon_reach p d s \<Longrightarrow> mon_step p s a s' \<Longrightarrow> mon_reach p d s'"

subsection \<open>Mutual exclusion and progress\<close>

fun in_section :: "('o, 'c) thr \<Rightarrow> bool" where
  "in_section (Inside op) = True"
| "in_section Leaving = True"
| "in_section _ = False"

lemma wakes_thread:
  assumes "wakes sg f f'"
  shows "f' t = f t \<or> (\<exists>op c. f t = Waiting op c \<and> f' t = Woken op c \<and> (sg = Some (Notify c) \<or> sg = Some (NotifyAll c)))"
  using assms by (cases rule: wakes.cases) (auto split: thr.splits)

lemma wakes_section: "wakes sg f f' \<Longrightarrow> in_section (f' t) = in_section (f t)"
  using wakes_thread [of sg f f' t] by auto

lemma wakes_waiting: "wakes sg f f' \<Longrightarrow> f' t = Waiting op c \<Longrightarrow> f t = Waiting op c \<and> sg \<noteq> Some (NotifyAll c)"
  by (erule wakesE) (auto split: thr.splits if_splits)

lemma mon_step_exclusive:
  assumes "mon_step p s a s'" and inv: "\<And>t. mx_owner (mn_mutex s) = Some t \<longleftrightarrow> in_section (mn_thr s t)"
  shows "mx_owner (mn_mutex s') = Some u \<longleftrightarrow> in_section (mn_thr s' u)"
  using assms(1)
proof (cases rule: mon_step.cases)
  case (step_call t op)
  then show ?thesis using inv [of u] by simp
next
  case (step_lock t op m)
  then show ?thesis using inv [of u] by (auto simp: mutex_lock_def split: if_splits)
next
  case (step_block t op c)
  then show ?thesis using inv [of u] inv [of t] by (auto simp: wait_release_def)
next
  case (step_exec t op f)
  have "in_section (f u) = in_section (mn_thr s u)"
    using wakes_section [OF step_exec(5), of u] step_exec(3) by simp
  then show ?thesis using inv [of u] step_exec(2) by simp
next
  case (step_leave t)
  then show ?thesis using inv [of u] inv [of t] by (auto simp: mutex_unlock_def)
next
  case (step_spurious t op c)
  then show ?thesis using inv [of u] by simp
next
  case (step_relock t op c m)
  then show ?thesis using inv [of u] by (auto simp: wait_reacquire_def split: if_splits)
qed

lemma mon_exclusive:
  "mon_reach p d s \<Longrightarrow> mx_owner (mn_mutex s) = Some t \<longleftrightarrow> in_section (mn_thr s t)"
proof (induction arbitrary: t rule: mon_reach.induct)
  case mon_reach_new
  then show ?case by (simp add: mon_new_def MutexLock_new_def)
next
  case (mon_reach_step s a s')
  then show ?case using mon_step_exclusive [OF mon_reach_step(2)] by blast
qed

lemma wakes_total: "\<exists>f'. wakes sg f f'"
proof (cases sg)
  case None
  then show ?thesis using wakes_nothing by blast
next
  case (Some x)
  show ?thesis
  proof (cases x)
    case (Notify c)
    then show ?thesis using wakes_one [of f _ _ c] wakes_nobody [of f c] Some by blast
  next
    case (NotifyAll c)
    then show ?thesis using wakes_all [of c f] Some by blast
  qed
qed

text \<open>While a thread is neither outside nor waiting, some thread can take a step that is not a
  new call: the monitor itself never deadlocks.\<close>

fun busy :: "('o, 'c) thr \<Rightarrow> bool" where
  "busy Outside = False"
| "busy (Waiting op c) = False"
| "busy _ = True"

lemma mon_progress:
  assumes r: "mon_reach p d s" and b: "busy (mn_thr s t)"
  shows "\<exists>u a s'. mon_step p s (u, a) s' \<and> a \<noteq> A_call \<and> a \<noteq> A_spurious"
proof (cases "mx_owner (mn_mutex s)")
  case None
  then have free: "mutex_lock t (mn_mutex s) \<noteq> None" "wait_reacquire t (mn_mutex s) \<noteq> None"
    by (simp_all add: mutex_lock_def wait_reacquire_def)
  have "\<not> in_section (mn_thr s t)" using None mon_exclusive [OF r, of t] by simp
  then consider op where "mn_thr s t = Locking op" | op c where "mn_thr s t = Woken op c"
    using b by (cases "mn_thr s t") auto
  then show ?thesis
  proof cases
    case (1 op)
    obtain m where "mutex_lock t (mn_mutex s) = Some m" using free by blast
    from step_lock [OF 1 this] show ?thesis by fastforce
  next
    case (2 op c)
    obtain m where "wait_reacquire t (mn_mutex s) = Some m" using free by blast
    from step_relock [OF 2 this] show ?thesis by fastforce
  qed
next
  case (Some u)
  then have "in_section (mn_thr s u)" using mon_exclusive [OF r, of u] by simp
  then consider op where "mn_thr s u = Inside op" | "mn_thr s u = Leaving" by (cases "mn_thr s u") auto
  then show ?thesis
  proof cases
    case (1 op)
    show ?thesis
    proof (cases "pr_waits p op (mn_data s)")
      case None
      obtain f where "wakes (pr_signal p op (mn_data s)) ((mn_thr s)(u := Leaving)) f" using wakes_total by blast
      from step_exec [OF 1 None this] show ?thesis by fastforce
    next
      case (Some c)
      from step_block [OF 1 this] show ?thesis by fastforce
    qed
  next
    case 2
    from step_leave [OF this] show ?thesis by fastforce
  qed
qed

lemma mon_step_others:
  assumes "mon_step p s (t, a) s'" and "u \<noteq> t" and "mn_thr s u = Outside"
  shows "mn_thr s' u = Outside"
  using assms(1)
proof (cases rule: mon_step.cases)
  case (step_exec op f)
  then show ?thesis using wakes_thread [OF step_exec(5), of u] assms(2,3) by auto
qed (use assms(2,3) in auto)

lemma finite_inside: "mon_reach p d s \<Longrightarrow> finite {t. mn_thr s t \<noteq> Outside}"
proof (induction rule: mon_reach.induct)
  case (mon_reach_step s a s')
  obtain t b where a: "a = (t, b)" by (cases a)
  have "{u. mn_thr s' u \<noteq> Outside} \<subseteq> insert t {u. mn_thr s u \<noteq> Outside}"
    using mon_step_others [OF mon_reach_step(2) [unfolded a]] by auto
  then show ?case using mon_reach_step(3) by (meson finite.insertI finite_subset)
qed (simp add: mon_new_def)

subsection \<open>Invariants of the data\<close>

locale monitor_inv =
  fixes p :: "('o, 'c, 'd) prog" and d0 :: 'd and I :: "'d \<Rightarrow> bool"
  assumes init: "I d0"
    and step: "I d \<Longrightarrow> pr_waits p op d = None \<Longrightarrow> I (pr_exec p t op d)"
begin

lemma waiting_since: "mon_reach p d0 s \<Longrightarrow> I (mn_data s) \<and>
    (mn_thr s u = Waiting op c \<longrightarrow> (\<exists>d. I d \<and> pr_waits p op d = Some c))"
proof (induction arbitrary: u op rule: mon_reach.induct)
  case mon_reach_new
  then show ?case using init by (simp add: mon_new_def)
next
  case (mon_reach_step s a s')
  from mon_reach_step(2) show ?case
  proof (cases rule: mon_step.cases)
    case (step_exec t op' f)
    then show ?thesis using wakes_waiting [OF step_exec(5), of u op c] mon_reach_step(3) step
      by (auto split: if_splits)
  qed (use mon_reach_step(3) [of u op] in \<open>auto split: if_splits\<close>)
qed

lemma data_inv: "mon_reach p d0 s \<Longrightarrow> I (mn_data s)"
  using waiting_since by blast

end

subsection \<open>When the signals are enough\<close>

fun thr_op :: "('o, 'c) thr \<Rightarrow> 'o option" where
  "thr_op (Locking op) = Some op"
| "thr_op (Inside op) = Some op"
| "thr_op (Waiting op c) = Some op"
| "thr_op (Woken op c) = Some op"
| "thr_op _ = None"

lemma thr_op_may: "mon_reach p d0 s \<Longrightarrow> thr_op (mn_thr s t) = Some op \<Longrightarrow> \<exists>d. pr_may p t op d"
proof (induction arbitrary: t op rule: mon_reach.induct)
  case (mon_reach_step s a s')
  from mon_reach_step(2) show ?case
  proof (cases rule: mon_step.cases)
    case (step_exec u op' f)
    then have "thr_op (mn_thr s t) = Some op"
      using wakes_thread [OF step_exec(5), of t] mon_reach_step(4) by (auto split: if_splits)
    then show ?thesis by (rule mon_reach_step(3))
  qed (use mon_reach_step(3) [of t op] mon_reach_step(4) in \<open>auto split: if_splits\<close>)
qed (simp add: mon_new_def)

text \<open>The threads that wait on \<open>c\<close> wait for \<open>must\<close> to become false. If every operation that
  makes it false broadcasts, or signals while only one thread can be waiting, then whoever waits
  still has to.\<close>

locale broadcast_monitor =
  fixes p :: "('o, 'c, 'd) prog" and c :: 'c and must :: "'d \<Rightarrow> bool" and sole :: "nat option"
  assumes waits_must: "pr_waits p op d = Some c \<Longrightarrow> must d"
    and broadcast: "must d \<Longrightarrow> pr_waits p op d = None \<Longrightarrow> \<not> must (pr_exec p t op d) \<Longrightarrow>
      pr_signal p op d = Some (NotifyAll c) \<or> (pr_signal p op d = Some (Notify c) \<and> sole \<noteq> None)"
    and sole_waits: "sole = Some t0 \<Longrightarrow> pr_may p t op d \<Longrightarrow> pr_waits p op d' = Some c \<Longrightarrow> t = t0"
begin

lemma waiting_waits: "mon_reach p d0 s \<Longrightarrow> mn_thr s u = Waiting op c \<Longrightarrow> \<exists>d. pr_waits p op d = Some c"
proof (induction arbitrary: u op rule: mon_reach.induct)
  case (mon_reach_step s a s')
  from mon_reach_step(2) show ?case
  proof (cases rule: mon_step.cases)
    case (step_exec t op' f)
    then show ?thesis using wakes_waiting [OF step_exec(5), of u op c] mon_reach_step(3,4)
      by (auto split: if_splits)
  qed (use mon_reach_step(3) [of u op] mon_reach_step(4) in \<open>auto split: if_splits\<close>)
qed (simp add: mon_new_def)

lemma waiting_must: "mon_reach p d0 s \<Longrightarrow> mn_thr s u = Waiting op c \<Longrightarrow> must (mn_data s)"
proof (induction arbitrary: u op rule: mon_reach.induct)
  case (mon_reach_step s a s')
  from mon_reach_step(2) show ?case
  proof (cases rule: mon_step.cases)
    case (step_block t op' c')
    then show ?thesis using mon_reach_step(3,4) waits_must by (auto split: if_splits)
  next
    case (step_exec t op' f)
    have f: "f u = Waiting op c" using mon_reach_step(4) step_exec(2) by simp
    have w: "mn_thr s u = Waiting op c" "pr_signal p op' (mn_data s) \<noteq> Some (NotifyAll c)"
      using wakes_waiting [OF step_exec(5) f] by (auto split: if_splits)
    have sole: "v = t0" if "sole = Some t0" "mn_thr s v = Waiting op2 c" for t0 v op2
      using thr_op_may [OF mon_reach_step(1), of v op2] waiting_waits [OF mon_reach_step(1) that(2)]
        sole_waits [OF that(1)] that(2) by auto
    have "must (pr_exec p t op' (mn_data s))"
    proof (rule ccontr)
      assume "\<not> must (pr_exec p t op' (mn_data s))"
      then obtain t0 where "pr_signal p op' (mn_data s) = Some (Notify c)" "sole = Some t0"
        using broadcast [OF mon_reach_step(3) [OF w(1)] step_exec(4)] w(2) by auto
      with step_exec(5) obtain v op2 where v: "mn_thr s v = Waiting op2 c" "f v = Woken op2 c"
        using f by (auto elim!: wakesE split: if_splits)
      have "v = t0" "u = t0" by (rule sole [OF \<open>sole = Some t0\<close>], fact v(1) w(1))+
      then show False using v(2) f by simp
    qed
    then show ?thesis using step_exec(2) by simp
  qed (use mon_reach_step(3,4) in \<open>auto split: if_splits\<close>)
qed (simp add: mon_new_def)

end

text \<open>One signal per unit: consumers wait on \<open>c\<close> only while nothing is available, and every
  other operation that makes a unit available wakes one of them. Then as long as somebody waits, there
  are at least as many consumers under way as units.\<close>

fun under_way :: "('o \<Rightarrow> bool) \<Rightarrow> ('o, 'c) thr \<Rightarrow> bool" where
  "under_way consumer (Locking op) = consumer op"
| "under_way consumer (Inside op) = consumer op"
| "under_way consumer (Woken op c) = consumer op"
| "under_way consumer _ = False"

locale counted_monitor =
  fixes p :: "('o, 'c, 'd) prog" and c :: 'c and avail :: "'d \<Rightarrow> nat" and consumer :: "'o \<Rightarrow> bool"
  assumes waits_empty: "pr_waits p op d = Some c \<Longrightarrow> consumer op \<and> avail d = 0"
    and waits_only: "consumer op \<Longrightarrow> pr_waits p op d = Some c' \<Longrightarrow> c' = c"
    and one_each: "pr_waits p op d = None \<Longrightarrow> pr_signal p op d \<noteq> Some (NotifyAll c) \<Longrightarrow>
      avail (pr_exec p t op d) \<le>
        avail d - (if consumer op then 1 else 0) + (if pr_signal p op d = Some (Notify c) then 1 else 0)"
begin

lemma waiting_consumer: "mon_reach p d0 s \<Longrightarrow> mn_thr s u = Waiting op c \<Longrightarrow> consumer op"
proof (induction arbitrary: u op rule: mon_reach.induct)
  case mon_reach_new
  then show ?case by (simp add: mon_new_def)
next
  case (mon_reach_step s a s')
  from mon_reach_step(2) show ?case
  proof (cases rule: mon_step.cases)
    case (step_exec t op' f)
    then show ?thesis using wakes_waiting [OF step_exec(5), of u op c] mon_reach_step(3,4)
      by (auto split: if_splits)
  qed (use mon_reach_step(3,4) waits_empty in \<open>auto split: if_splits\<close>)
qed

abbreviation "going s \<equiv> {t. under_way consumer (mn_thr s t)}"

lemma finite_going: "mon_reach p d0 s \<Longrightarrow> finite (going s)"
  by (rule finite_subset [OF _ finite_inside]) auto

lemma exec_going:
  assumes r: "mon_reach p d0 s" and t: "mn_thr s t = Inside op"
    and w: "wakes sg ((mn_thr s)(t := Leaving)) f" and u: "f u = Waiting op' c"
  shows "card (going s) - (if consumer op then 1 else 0) + (if sg = Some (Notify c) then 1 else 0)
    \<le> card {v. under_way consumer (f v)}"
proof -
  let ?S = "going s - {t}" and ?S' = "{v. under_way consumer (f v)}"
  have keep: "?S \<subseteq> ?S'"
  proof
    fix v assume v: "v \<in> ?S"
    then show "v \<in> ?S'" using wakes_thread [OF w, of v] by auto
  qed
  have fin: "finite (going s)" by (rule finite_going [OF r])
  have "?S' \<subseteq> {v. mn_thr s v \<noteq> Outside}"
  proof
    fix v assume "v \<in> ?S'"
    then show "v \<in> {v. mn_thr s v \<noteq> Outside}" using wakes_thread [OF w, of v] t by (auto split: if_splits)
  qed
  then have fin': "finite ?S'" using finite_inside [OF r] finite_subset by blast
  have S: "card ?S = card (going s) - (if consumer op then 1 else 0)" using t fin by simp
  show ?thesis
  proof (cases "sg = Some (Notify c)")
    case True
    with w u obtain v op2 where v: "((mn_thr s)(t := Leaving)) v = Waiting op2 c" "f v = Woken op2 c"
      by (auto elim: wakesE)
    then have "mn_thr s v = Waiting op2 c" "v \<noteq> t" by (auto split: if_splits)
    then have "v \<in> ?S'" "v \<notin> ?S" using waiting_consumer [OF r] v(2) by auto
    then have "Suc (card ?S) \<le> card ?S'"
      using keep fin fin' by (metis card_mono card_insert_disjoint finite_Diff insert_subset)
    then show ?thesis using S True by simp
  qed (use S card_mono [OF fin' keep] in simp)
qed

lemma quiet_step:
  assumes "mon_step p s a s'" and "snd a \<noteq> A_block" and "snd a \<noteq> A_exec"
  shows "going s \<subseteq> going s'" "mn_data s' = mn_data s" "mn_thr s' u = Waiting op c \<Longrightarrow> mn_thr s u = Waiting op c"
  using assms by (auto elim!: mon_stepE split: if_splits)

lemma enough_going:
  "mon_reach p d0 s \<Longrightarrow> mn_thr s u = Waiting op c \<Longrightarrow> avail (mn_data s) \<le> card (going s)"
proof (induction arbitrary: u op rule: mon_reach.induct)
  case mon_reach_new
  then show ?case by (simp add: mon_new_def)
next
  case (mon_reach_step s a s')
  note r' = mon_reach.mon_reach_step [OF mon_reach_step(1,2)]
  have mono: "avail (mn_data s') \<le> card (going s')"
    if "mn_data s' = mn_data s" "going s \<subseteq> going s'" "mn_thr s v = Waiting op2 c" for v op2
    using mon_reach_step(3) [OF that(3)] card_mono [OF finite_going [OF r'] that(2)] that(1) by simp
  have quiet: "avail (mn_data s') \<le> card (going s')" if q: "snd a \<noteq> A_block" "snd a \<noteq> A_exec"
    by (rule mono [OF quiet_step(2,1) [OF mon_reach_step(2) q] quiet_step(3) [OF mon_reach_step(2) q mon_reach_step(4)]])
  from mon_reach_step(2) show ?case
  proof (cases rule: mon_step.cases)
    case (step_block t op' c')
    show ?thesis
    proof (cases "c' = c")
      case True
      then show ?thesis using waits_empty step_block by fastforce
    next
      case False
      then have "\<not> consumer op'" using waits_only step_block by blast
      then have "going s \<subseteq> going s'" using step_block(2,3) by auto
      moreover have "mn_thr s u = Waiting op c" "mn_data s' = mn_data s"
        using mon_reach_step(4) step_block(2) False by (auto split: if_splits)
      ultimately show ?thesis using mono by blast
    qed
  next
    case (step_exec t op' f)
    have f: "mn_thr s' = f" "mn_data s' = pr_exec p t op' (mn_data s)" using step_exec(2) by simp_all
    have "mn_thr s u = Waiting op c" "pr_signal p op' (mn_data s) \<noteq> Some (NotifyAll c)"
      using wakes_waiting [OF step_exec(5), of u op c] mon_reach_step(4) f by (auto split: if_splits)
    then show ?thesis
      using one_each [OF step_exec(4), of t] mon_reach_step(3) exec_going [OF mon_reach_step(1) step_exec(3,5)]
        mon_reach_step(4) unfolding f by (smt (verit) add_le_mono diff_le_mono le_trans order_refl)
  qed (use quiet in simp_all)
qed

text \<open>In particular nobody sleeps beside something to take.\<close>

lemma no_lost_signal:
  assumes "mon_reach p d0 s" and "mn_thr s u = Waiting op c" and "0 < avail (mn_data s)"
  shows "\<exists>t. under_way consumer (mn_thr s t)"
proof -
  have "going s \<noteq> {}" using enough_going [OF assms(1,2)] assms(3) by (metis card.empty not_le)
  then show ?thesis by blast
qed

end

subsection \<open>Schedules\<close>

text \<open>An executable scheduler for threads below \<open>n\<close>: an item either starts an operation in a
  thread or lets the thread take its next step; a signal wakes the waiting thread of least number.\<close>

fun is_waiting :: "'c \<Rightarrow> ('o, 'c) thr \<Rightarrow> bool" where
  "is_waiting c (Waiting op c') \<longleftrightarrow> c' = c"
| "is_waiting c _ \<longleftrightarrow> False"

fun wake_thr :: "('o, 'c) thr \<Rightarrow> ('o, 'c) thr" where
  "wake_thr (Waiting op c) = Woken op c"
| "wake_thr x = x"

fun wake_next :: "nat \<Rightarrow> 'c signal option \<Rightarrow> (nat \<Rightarrow> ('o, 'c) thr) \<Rightarrow> nat \<Rightarrow> ('o, 'c) thr" where
  "wake_next n None f = f"
| "wake_next n (Some (Notify c)) f = (case find (\<lambda>t. is_waiting c (f t)) [0..<n] of
     None \<Rightarrow> f | Some t \<Rightarrow> f(t := wake_thr (f t)))"
| "wake_next n (Some (NotifyAll c)) f = (\<lambda>t. case f t of Waiting op c' \<Rightarrow> if c' = c then Woken op c else Waiting op c' | x \<Rightarrow> x)"

fun mon_next :: "nat \<Rightarrow> ('o, 'c, 'd) prog \<Rightarrow> nat \<times> 'o option \<Rightarrow> ('o, 'c, 'd) mon \<Rightarrow> ('o, 'c, 'd) mon option" where
  "mon_next n p (t, Some op) s = do {
     assertion (t < n \<and> mn_thr s t = Outside \<and> pr_may p t op (mn_data s));
     Some (s\<lparr>mn_thr := (mn_thr s)(t := Locking op)\<rparr>) }"
| "mon_next n p (t, None) s = (case mn_thr s t of
     Outside \<Rightarrow> None
   | Locking op \<Rightarrow> do { m \<leftarrow> mutex_lock t (mn_mutex s);
       Some (s\<lparr>mn_mutex := m, mn_thr := (mn_thr s)(t := Inside op)\<rparr>) }
   | Inside op \<Rightarrow> (case pr_waits p op (mn_data s) of
       Some c \<Rightarrow> Some (s\<lparr>mn_mutex := wait_release (mn_mutex s), mn_thr := (mn_thr s)(t := Waiting op c)\<rparr>)
     | None \<Rightarrow> Some (s\<lparr>mn_data := pr_exec p t op (mn_data s),
         mn_thr := wake_next n (pr_signal p op (mn_data s)) ((mn_thr s)(t := Leaving))\<rparr>))
   | Waiting op c \<Rightarrow> Some (s\<lparr>mn_thr := (mn_thr s)(t := Woken op c)\<rparr>)
   | Woken op c \<Rightarrow> do { m \<leftarrow> wait_reacquire t (mn_mutex s);
       Some (s\<lparr>mn_mutex := m, mn_thr := (mn_thr s)(t := Inside op)\<rparr>) }
   | Leaving \<Rightarrow> Some (s\<lparr>mn_mutex := mutex_unlock (mn_mutex s), mn_thr := (mn_thr s)(t := Outside)\<rparr>))"

fun mon_run :: "nat \<Rightarrow> ('o, 'c, 'd) prog \<Rightarrow> (nat \<times> 'o option) list \<Rightarrow> ('o, 'c, 'd) mon \<Rightarrow> ('o, 'c, 'd) mon option" where
  "mon_run n p [] s = Some s"
| "mon_run n p (x # xs) s = do { s' \<leftarrow> mon_next n p x s; mon_run n p xs s' }"

lemma is_waiting_iff: "is_waiting c x \<longleftrightarrow> (\<exists>op. x = Waiting op c)"
  by (cases x) auto

lemma wake_next_wakes:
  assumes "\<forall>t\<ge>n. f t = Outside"
  shows "wakes sg f (wake_next n sg f) \<and> (\<forall>t\<ge>n. wake_next n sg f t = Outside)"
proof (cases "(n, sg, f)" rule: wake_next.cases)
  case (2 m c g)
  show ?thesis
  proof (cases "find (\<lambda>t. is_waiting c (f t)) [0..<n]")
    case None
    then have "\<forall>t op. f t \<noteq> Waiting op c"
      using assms by (auto simp: find_None_iff is_waiting_iff) (metis not_le thr.distinct(5))
    then show ?thesis using 2 None assms wakes_nobody by auto
  next
    case (Some t)
    then obtain op where "f t = Waiting op c" "t < n"
      by (auto simp: find_Some_iff is_waiting_iff)
    then show ?thesis using 2 Some assms wakes_one [of f t op c] by auto
  qed
qed (use assms wakes_nothing wakes_all [of _ f] in auto)

lemma mon_next_step:
  assumes o: "\<forall>t\<ge>n. mn_thr s t = Outside" and s': "mon_next n p x s = Some s'"
  shows "\<exists>a. mon_step p s (fst x, a) s' \<and> (\<forall>t\<ge>n. mn_thr s' t = Outside)"
proof -
  obtain t y where x: "x = (t, y)" by (cases x)
  show ?thesis
  proof (cases y)
    case (Some op)
    then have "t < n" "mn_thr s t = Outside" "pr_may p t op (mn_data s)"
      "s' = s\<lparr>mn_thr := (mn_thr s)(t := Locking op)\<rparr>"
      using s' x by (auto simp: Option.bind_eq_Some_conv)
    then show ?thesis using step_call [of s t p op] x o by auto
  next
    case None
    then have n: "mon_next n p (t, None) s = Some s'" using s' x by simp
    have keep: "\<forall>u\<ge>n. ((mn_thr s)(t := z)) u = Outside" if "mn_thr s t \<noteq> Outside" for z
      using o that by (metis fun_upd_other)
    show ?thesis
    proof (cases "mn_thr s t")
      case Outside
      then show ?thesis using n by simp
    next
      case (Locking op)
      then obtain m where m: "mutex_lock t (mn_mutex s) = Some m"
        "s' = s\<lparr>mn_mutex := m, mn_thr := (mn_thr s)(t := Inside op)\<rparr>"
        using n by (auto simp: Option.bind_eq_Some_conv)
      then show ?thesis using step_lock [OF Locking m(1), of p] keep [of "Inside op"] Locking x by auto
    next
      case (Inside op)
      show ?thesis
      proof (cases "pr_waits p op (mn_data s)")
        case w: None
        let ?f = "wake_next n (pr_signal p op (mn_data s)) ((mn_thr s)(t := Leaving))"
        have "\<forall>u\<ge>n. ((mn_thr s)(t := Leaving)) u = Outside" using keep Inside by simp
        note f = wake_next_wakes [OF this, of "pr_signal p op (mn_data s)"]
        have s': "s' = s\<lparr>mn_data := pr_exec p t op (mn_data s), mn_thr := ?f\<rparr>" using n w Inside by simp
        have "mon_step p s (t, A_exec) s'" unfolding s' by (rule step_exec [OF Inside w conjunct1 [OF f]])
        moreover have "mn_thr s' = ?f" unfolding s' by (cases s) simp
        ultimately have "mon_step p s (t, A_exec) s'" "\<forall>u\<ge>n. mn_thr s' u = Outside"
          using conjunct2 [OF f] by metis+
        then show ?thesis using x by auto
      next
        case (Some c)
        then show ?thesis using n step_block [OF Inside Some] keep [of "Waiting op c"] Inside x by auto
      qed
    next
      case (Waiting op c)
      then show ?thesis using n step_spurious [OF Waiting, of p] keep [of "Woken op c"] x by auto
    next
      case (Woken op c)
      then obtain m where m: "wait_reacquire t (mn_mutex s) = Some m"
        "s' = s\<lparr>mn_mutex := m, mn_thr := (mn_thr s)(t := Inside op)\<rparr>"
        using n by (auto simp: Option.bind_eq_Some_conv)
      then show ?thesis using step_relock [OF Woken m(1), of p] keep [of "Inside op"] Woken x by auto
    next
      case Leaving
      then show ?thesis using n step_leave [OF Leaving, of p] keep [of Outside] x by auto
    qed
  qed
qed

lemma mon_run_reach:
  "mon_reach p d s \<Longrightarrow> \<forall>t\<ge>n. mn_thr s t = Outside \<Longrightarrow> mon_run n p xs s = Some s' \<Longrightarrow> mon_reach p d s'"
proof (induction xs arbitrary: s)
  case (Cons x xs)
  then obtain s1 where s1: "mon_next n p x s = Some s1" "mon_run n p xs s1 = Some s'"
    by (auto simp: Option.bind_eq_Some_conv)
  obtain a where a: "mon_step p s (fst x, a) s1" "\<forall>t\<ge>n. mn_thr s1 t = Outside"
    using mon_next_step [OF Cons.prems(2) s1(1)] by blast
  show ?case by (rule Cons.IH [OF mon_reach_step [OF Cons.prems(1) a(1)] a(2) s1(2)])
qed simp

lemma mon_run_new: "mon_run n p xs (mon_new d) = Some s \<Longrightarrow> mon_reach p d s"
  by (rule mon_run_reach [OF mon_reach_new]) (auto simp: mon_new_def)

lemma mon_run_ex: "\<exists>s. mon_run n p xs (mon_new d) = Some s \<and> Q s \<Longrightarrow> \<exists>s. mon_reach p d s \<and> Q s"
  by (elim exE conjE, intro exI conjI, rule mon_run_new)

end
