(* ===== verification/Sync.thy ===== *)
theory Sync
  imports Monitor
begin

text \<open>
  \<^verbatim>\<open>mutlithread/multiThread/base\<close>: Atomic, Thread, CountDownLatch, BlockingQueue and
  BoundedBlockingQueue with its circular buffer. The blocking classes are programs of \<open>Monitor\<close>; their
  data carry, beside the fields of the class, a record of what was put in and taken out by whom.
\<close>

subsection \<open>AtomicIntegerT\<close>

definition atomic_new :: "'w::len word" where "atomic_new = 0"

definition atomic_get :: "'w::len word \<Rightarrow> 'w word" where "atomic_get v = v"

text \<open>What each operation returns and the new value.\<close>

definition getAndAdd :: "'w::len word \<Rightarrow> 'w word \<Rightarrow> 'w word \<times> 'w word" where
  "getAndAdd x v = (v, v + x)"

definition addAndGet :: "'w::len word \<Rightarrow> 'w word \<Rightarrow> 'w word \<times> 'w word" where
  "addAndGet x v = (let (old, v') = getAndAdd x v in (old + x, v'))"

definition incrementAndGet :: "'w::len word \<Rightarrow> 'w word \<times> 'w word" where
  "incrementAndGet v = addAndGet 1 v"

definition decrementAndGet :: "'w::len word \<Rightarrow> 'w word \<times> 'w word" where
  "decrementAndGet v = addAndGet (- 1) v"

definition atomic_add :: "'w::len word \<Rightarrow> 'w word \<Rightarrow> 'w word" where
  "atomic_add x v = snd (getAndAdd x v)"

definition atomic_increment :: "'w::len word \<Rightarrow> 'w word" where
  "atomic_increment v = snd (incrementAndGet v)"

definition atomic_decrement :: "'w::len word \<Rightarrow> 'w word" where
  "atomic_decrement v = snd (decrementAndGet v)"

definition getAndSet :: "'w::len word \<Rightarrow> 'w word \<Rightarrow> 'w word \<times> 'w word" where
  "getAndSet new v = (v, new)"

text \<open>Calls of one operation, one after the other, from whatever threads.\<close>

fun atomic_calls :: "('w word \<Rightarrow> 'a \<times> 'w word) \<Rightarrow> nat \<Rightarrow> 'w::len word \<Rightarrow> 'a list" where
  "atomic_calls f 0 v = []"
| "atomic_calls f (Suc n) v = (let (r, v') = f v in r # atomic_calls f n v')"

lemma increment_calls: "atomic_calls incrementAndGet n v = map (\<lambda>i. v + of_nat (Suc i)) [0..<n]"
proof (induction n arbitrary: v)
  case (Suc n)
  have "map (\<lambda>i. v + of_nat (Suc i)) [0..<Suc n] = (v + 1) # map (\<lambda>i. v + of_nat (Suc (Suc i))) [0..<n]"
    by (simp add: upt_conv_Cons map_Suc_upt [symmetric] del: upt_Suc)
  then show ?case using Suc by (simp add: incrementAndGet_def addAndGet_def getAndAdd_def ac_simps)
qed simp

lemma increment_distinct:
  "n \<le> 2 ^ LENGTH('w) \<Longrightarrow> distinct (atomic_calls incrementAndGet n (v :: 'w::len word))"
  unfolding increment_calls distinct_map
  by (auto simp: inj_on_def word_of_nat_eq_iff take_bit_eq_mod)

subsection \<open>Thread\<close>

record thread =
  th_started :: bool
  th_joined :: bool
  th_tid :: nat
  th_name :: string

definition Thread_new :: "string \<Rightarrow> thread" where
  "Thread_new name = \<lparr>th_started = False, th_joined = False, th_tid = 0, th_name = name\<rparr>"

definition thread_start :: "thread \<Rightarrow> thread option" where
  "thread_start th = do { assertion (\<not> th_started th); Some (th\<lparr>th_started := True\<rparr>) }"

definition thread_started :: "thread \<Rightarrow> bool" where
  "thread_started th = th_started th"

definition thread_join :: "thread \<Rightarrow> thread option" where
  "thread_join th = do { assertion (th_started th); assertion (\<not> th_joined th); Some (th\<lparr>th_joined := True\<rparr>) }"

text \<open>Whether the destructor detaches the pthread.\<close>

definition Thread_delete :: "thread \<Rightarrow> bool" where
  "Thread_delete th \<longleftrightarrow> th_started th \<and> \<not> th_joined th"

text \<open>In the new thread; the function is given as what it does to the world, \<open>None\<close> an exception.\<close>

definition thread_runInThread :: "nat \<Rightarrow> ('w \<Rightarrow> 'w option) \<Rightarrow> thread \<times> 'w \<Rightarrow> (thread \<times> 'w) option" where
  "thread_runInThread tid func = (\<lambda>(th, w). do { w' \<leftarrow> func w; Some (th\<lparr>th_tid := tid\<rparr>, w') })"

subsection \<open>CountDownLatch\<close>

datatype latch_op = Latch_wait | Latch_countDown

definition latch_wait_test :: "int \<Rightarrow> bool" where
  "latch_wait_test count \<longleftrightarrow> count > 0"

definition countDown :: "int \<Rightarrow> int \<times> unit signal option" where
  "countDown count = (let count' = count - 1 in (count', if count' = 0 then Some (NotifyAll ()) else None))"

definition latch_prog :: "(latch_op, unit, int) prog" where
  "latch_prog = \<lparr>
     pr_waits = (\<lambda>op count. case op of
         Latch_wait \<Rightarrow> if latch_wait_test count then Some () else None | Latch_countDown \<Rightarrow> None),
     pr_exec = (\<lambda>t op count. case op of Latch_wait \<Rightarrow> count | Latch_countDown \<Rightarrow> fst (countDown count)),
     pr_signal = (\<lambda>op count. case op of Latch_wait \<Rightarrow> None | Latch_countDown \<Rightarrow> snd (countDown count)),
     pr_may = (\<lambda>t op count. True)\<rparr>"

interpretation latch: broadcast_monitor latch_prog "()" "\<lambda>count. 0 < count" None
  by unfold_locales
    (auto simp: latch_prog_def latch_wait_test_def countDown_def Let_def split: latch_op.splits if_splits)

subsection \<open>BlockingQueue\<close>

record 'a blocking_queue =
  bl_queue :: "'a list"
  bl_put :: "'a list"
  bl_taken :: "(nat \<times> 'a) list"

datatype 'a queue_op = Queue_put 'a | Queue_take

definition BlockingQueue_new :: "'a blocking_queue" where
  "BlockingQueue_new = \<lparr>bl_queue = [], bl_put = [], bl_taken = []\<rparr>"

definition queue_put :: "'a \<Rightarrow> 'a blocking_queue \<Rightarrow> 'a blocking_queue" where
  "queue_put value q = q\<lparr>bl_queue := bl_queue q @ [value], bl_put := bl_put q @ [value]\<rparr>"

definition queue_take :: "nat \<Rightarrow> 'a blocking_queue \<Rightarrow> 'a blocking_queue" where
  "queue_take tid q = q\<lparr>bl_queue := tl (bl_queue q), bl_taken := bl_taken q @ [(tid, hd (bl_queue q))]\<rparr>"

definition queue_size :: "'a blocking_queue \<Rightarrow> nat" where
  "queue_size q = length (bl_queue q)"

definition queue_empty :: "'a blocking_queue \<Rightarrow> bool" where
  "queue_empty q \<longleftrightarrow> queue_size q = 0"

definition queue_prog :: "('a queue_op, unit, 'a blocking_queue) prog" where
  "queue_prog = \<lparr>
     pr_waits = (\<lambda>op q. case op of Queue_put v \<Rightarrow> None | Queue_take \<Rightarrow> if bl_queue q = [] then Some () else None),
     pr_exec = (\<lambda>t op q. case op of Queue_put v \<Rightarrow> queue_put v q | Queue_take \<Rightarrow> queue_take t q),
     pr_signal = (\<lambda>op q. case op of Queue_put v \<Rightarrow> Some (Notify ()) | Queue_take \<Rightarrow> None),
     pr_may = (\<lambda>t op q. True)\<rparr>"

interpretation blq: counted_monitor queue_prog "()" "\<lambda>q. length (bl_queue q)" "\<lambda>op. op = Queue_take"
  by unfold_locales
    (auto simp: queue_prog_def queue_put_def queue_take_def split: queue_op.splits if_splits)

interpretation blq_data: monitor_inv queue_prog BlockingQueue_new
    "\<lambda>q. bl_put q = map snd (bl_taken q) @ bl_queue q"
  by unfold_locales
    (auto simp: queue_prog_def queue_put_def queue_take_def BlockingQueue_new_def
      split: queue_op.splits if_splits)

text \<open>A countdown latch opens and stays open. Whatever its threads do, nobody waits any more once
  the count has come down to zero or below, and a call of wait gets past its loop only then.\<close>

theorem latch_opens:
  assumes "mon_reach latch_prog n s"
  shows "(mn_data s \<le> 0 \<longrightarrow> mn_thr s t \<noteq> Waiting op ()) \<and>
    (mon_step latch_prog s (t, A_exec) s' \<and> mn_thr s t = Inside Latch_wait \<longrightarrow> mn_data s \<le> 0)"
  using latch.waiting_must [OF assms, of t op]
  by (auto elim!: mon_stepE simp: latch_prog_def latch_wait_test_def split: if_splits)

lemma latch_run:
  "\<exists>s. mon_run 3 latch_prog [(1, Some Latch_wait), (1, None), (1, None), (2, Some Latch_countDown),
      (2, None), (2, None), (2, None), (1, None)] (mon_new 1) = Some s \<and> mn_data s = 0 \<and>
    mn_thr s 1 = Inside Latch_wait"
  by (simp add: latch_prog_def latch_wait_test_def countDown_def mon_new_def MutexLock_new_def mutex_lock_def
      wait_release_def wait_reacquire_def mutex_unlock_def)

theorem latch_opens_witness:
  "\<exists>s. mon_reach latch_prog 1 s \<and> mn_data s = 0 \<and> mn_thr s 1 = Inside Latch_wait \<and>
    (\<forall>t. mn_thr s t \<noteq> Waiting Latch_wait ())"
proof -
  obtain s where s: "mon_reach latch_prog 1 s" "mn_data s = 0" "mn_thr s 1 = Inside Latch_wait"
    using mon_run_ex [OF latch_run] by blast
  then have "\<forall>t. mn_thr s t \<noteq> Waiting Latch_wait ()" using latch_opens [OF s(1)] by simp
  then show ?thesis using s by blast
qed

text \<open>C28: a blocking queue is first in, first out and wakes its consumers. What was put in is what
  was taken out, in that order, followed by what is still in the queue, so nothing is lost and nothing
  taken twice; and whenever a consumer sleeps while the queue is not empty, at least as many
  consumers are on their way to it as it has elements.\<close>

theorem blocking_queue_correct:
  assumes "mon_reach queue_prog BlockingQueue_new s"
  shows "bl_put (mn_data s) = map snd (bl_taken (mn_data s)) @ bl_queue (mn_data s) \<and>
    (mn_thr s u = Waiting op () \<longrightarrow>
      queue_size (mn_data s) \<le> card {t. under_way (\<lambda>op. op = Queue_take) (mn_thr s t)})"
  using blq_data.data_inv [OF assms] blq.enough_going [OF assms] by (simp add: queue_size_def)

lemma queue_run:
  "\<exists>s. mon_run 4 queue_prog [(1, Some Queue_take), (1, None), (1, None), (2, Some Queue_take), (2, None),
      (2, None), (3, Some (Queue_put (5 :: nat))), (3, None), (3, None), (3, None)]
      (mon_new BlockingQueue_new) = Some s \<and>
    mn_data s = \<lparr>bl_queue = [5], bl_put = [5], bl_taken = []\<rparr> \<and> mn_thr s 2 = Waiting Queue_take ()"
  by (simp add: queue_prog_def queue_put_def mon_new_def MutexLock_new_def mutex_lock_def BlockingQueue_new_def
      wait_release_def wait_reacquire_def mutex_unlock_def upt_rec)

theorem blocking_queue_correct_witness:
  "\<exists>s. mon_reach queue_prog BlockingQueue_new s \<and> bl_queue (mn_data s) = [5 :: nat] \<and>
    mn_thr s 2 = Waiting Queue_take () \<and> 1 \<le> card {t. under_way (\<lambda>op. op = Queue_take) (mn_thr s t)}"
proof -
  obtain s where s: "mon_reach queue_prog BlockingQueue_new s" "mn_thr s 2 = Waiting Queue_take ()"
    "mn_data s = \<lparr>bl_queue = [5 :: nat], bl_put = [5], bl_taken = []\<rparr>"
    using mon_run_ex [OF queue_run] by blast
  from blocking_queue_correct [OF s(1), of 2 Queue_take] s show ?thesis
    by (intro exI [of _ s]) (simp add: queue_size_def)
qed

subsection \<open>BoundedBlockingQueue\<close>

record 'a circular =
  ci_capacity :: nat
  ci_data :: "'a option list"
  ci_front :: nat
  ci_rear :: nat

definition circular_new :: "nat \<Rightarrow> 'a circular option" where
  "circular_new capacity = do {
     assertion (capacity > 0);
     Some \<lparr>ci_capacity = capacity + 1, ci_data = replicate capacity None, ci_front = 0, ci_rear = 0\<rparr> }"

definition circular_size :: "'a circular \<Rightarrow> nat" where
  "circular_size q = (if ci_rear q > ci_front q then ci_rear q - ci_front q
     else (ci_capacity q + 1) - (ci_front q - ci_rear q))"

definition circular_full :: "'a circular \<Rightarrow> bool" where
  "circular_full q \<longleftrightarrow> ci_front q = (ci_rear q + 1) mod (ci_capacity q + 1)"

definition circular_empty :: "'a circular \<Rightarrow> bool" where
  "circular_empty q \<longleftrightarrow> ci_front q = ci_rear q"

text \<open>Reading or writing beyond the array, and reading an element never written, is undefined.\<close>

definition array_read :: "nat \<Rightarrow> 'a option list \<Rightarrow> 'a option" where
  "array_read i xs = (if i < length xs then xs ! i else None)"

definition circular_front :: "'a circular \<Rightarrow> 'a option" where
  "circular_front q = (if circular_empty q then None else array_read (ci_front q) (ci_data q))"

definition circular_back :: "'a circular \<Rightarrow> 'a option" where
  "circular_back q = (if circular_empty q then None
     else let backIndex = (if ci_rear q = 0 then ci_capacity q else ci_rear q - 1)
          in array_read backIndex (ci_data q))"

definition circular_pop :: "'a circular \<Rightarrow> 'a circular option" where
  "circular_pop q = (if circular_empty q then None
     else Some (q\<lparr>ci_front := (ci_front q + 1) mod (ci_capacity q + 1)\<rparr>))"

definition circular_push :: "'a \<Rightarrow> 'a circular \<Rightarrow> 'a circular option" where
  "circular_push value q = do {
     assertion (ci_rear q < length (ci_data q));
     let q1 = q\<lparr>ci_data := (ci_data q)[ci_rear q := Some value],
                ci_rear := (ci_rear q + 1) mod (ci_capacity q + 1)\<rparr>;
     Some (if circular_full q1 then q1\<lparr>ci_front := (ci_front q1 + 1) mod (ci_capacity q1 + 1)\<rparr> else q1) }"

fun circular_pushes :: "'a list \<Rightarrow> 'a circular \<Rightarrow> 'a circular option" where
  "circular_pushes [] q = Some q"
| "circular_pushes (v # vs) q = do { q' \<leftarrow> circular_push v q; circular_pushes vs q' }"

datatype bounded_cv = NotEmpty | NotFull

text \<open>The two overloads of \<^verbatim>\<open>put\<close>, by copy and by move, wait on different conditions.\<close>

datatype 'a bounded_op = Put_copy 'a | Put_move 'a | Bounded_take

definition bounded_take :: "'a circular \<Rightarrow> ('a \<times> 'a circular) option" where
  "bounded_take q = do { x \<leftarrow> circular_front q; q' \<leftarrow> circular_pop q; Some (x, q') }"

text \<open>\<open>None\<close> as data: the program has gone outside the array.\<close>

definition bounded_waits :: "'a bounded_op \<Rightarrow> 'a circular option \<Rightarrow> bounded_cv option" where
  "bounded_waits op d = (case d of None \<Rightarrow> None | Some q \<Rightarrow> (case op of
     Put_copy v \<Rightarrow> if circular_full q then Some NotEmpty else None
   | Put_move v \<Rightarrow> if circular_full q then Some NotFull else None
   | Bounded_take \<Rightarrow> if circular_empty q then Some NotEmpty else None))"

definition bounded_exec :: "'a bounded_op \<Rightarrow> 'a circular option \<Rightarrow> 'a circular option" where
  "bounded_exec op d = do { q \<leftarrow> d; case op of
     Put_copy v \<Rightarrow> circular_push v q
   | Put_move v \<Rightarrow> circular_push v q
   | Bounded_take \<Rightarrow> map_option snd (bounded_take q) }"

definition bounded_prog :: "('a bounded_op, bounded_cv, 'a circular option) prog" where
  "bounded_prog = \<lparr>pr_waits = bounded_waits, pr_exec = (\<lambda>t. bounded_exec),
     pr_signal = (\<lambda>op d. case op of Bounded_take \<Rightarrow> Some (Notify NotFull) | _ \<Rightarrow> Some (Notify NotEmpty)),
     pr_may = (\<lambda>t op d. True)\<rparr>"

definition circular_ok :: "'a circular \<Rightarrow> bool" where
  "circular_ok q \<longleftrightarrow> 2 \<le> ci_capacity q \<and> ci_front q \<le> ci_capacity q \<and> ci_rear q \<le> ci_capacity q \<and> \<not> circular_full q"

lemma Suc_mod_cases: "a \<le> m \<Longrightarrow> Suc a mod Suc m = (if a = m then 0 else Suc a)"
  by auto

lemma circular_new_ok: "circular_new c = Some q \<Longrightarrow> circular_ok q"
  by (auto simp: circular_new_def circular_ok_def circular_full_def)

lemma circular_push_ok:
  assumes "circular_ok q" and "circular_push v q = Some q'"
  shows "circular_ok q'"
  using assms by (auto simp: circular_push_def circular_ok_def circular_full_def Suc_mod_cases Let_def split: if_splits)

lemma circular_pop_ok:
  assumes "circular_ok q" and "circular_pop q = Some q'"
  shows "circular_ok q'"
  using assms
  by (auto simp: circular_pop_def circular_ok_def circular_full_def circular_empty_def Suc_mod_cases split: if_splits)

lemma bounded_exec_ok:
  assumes "\<forall>q. d = Some q \<longrightarrow> circular_ok q" and "bounded_exec op d = Some q'"
  shows "circular_ok q'"
  using assms
  by (cases op) (auto simp: bounded_exec_def bounded_take_def Option.bind_eq_Some_conv
      intro: circular_push_ok circular_pop_ok)

lemma circular_pushes_fill:
  "length us + length vs = c \<Longrightarrow> 0 < c \<Longrightarrow>
    circular_pushes vs \<lparr>ci_capacity = c + 1, ci_data = map Some us @ replicate (length vs) None,
      ci_front = 0, ci_rear = length us\<rparr> =
    Some \<lparr>ci_capacity = c + 1, ci_data = map Some (us @ vs), ci_front = 0, ci_rear = c\<rparr>"
proof (induction vs arbitrary: us)
  case (Cons v vs)
  have "circular_push v \<lparr>ci_capacity = c + 1, ci_data = map Some us @ replicate (length (v # vs)) None,
      ci_front = 0, ci_rear = length us\<rparr> =
    Some \<lparr>ci_capacity = c + 1, ci_data = map Some (us @ [v]) @ replicate (length vs) None,
      ci_front = 0, ci_rear = length (us @ [v])\<rparr>"
    using Cons.prems by (auto simp: circular_push_def circular_full_def Let_def list_update_append)
  then show ?case using Cons.IH [of "us @ [v]"] Cons.prems by simp
qed simp

text \<open>The circular buffer's array is one element short of what its indices reach. A new
  buffer of capacity c reports c + 2 elements; c elements can be pushed, and the next push, without
  any element having been taken out, writes behind the array, since its indices run to c + 1.\<close>

theorem circular_overflow:
  assumes "0 < c" and "length vs = c"
  shows "\<exists>q0 q. circular_new c = Some q0 \<and> circular_size q0 = c + 2 \<and> circular_pushes vs q0 = Some q \<and>
    ci_data q = map Some vs \<and> circular_front q = Some (hd vs) \<and> circular_back q = Some (last vs) \<and>
    (\<forall>v. circular_push v q = None)"
proof -
  have "vs \<noteq> []" using assms by auto
  then show ?thesis
    using assms circular_pushes_fill [of "[]" vs c]
    by (auto simp: circular_new_def circular_size_def circular_push_def circular_front_def circular_back_def
        circular_empty_def array_read_def Let_def hd_conv_nth last_conv_nth)
qed

theorem circular_overflow_witness:
  "\<exists>q0 q. circular_new 2 = Some q0 \<and> circular_size q0 = 4 \<and> circular_pushes [7, 8 :: nat] q0 = Some q \<and>
    circular_push 9 q = None"
  using circular_overflow [of 2 "[7, 8 :: nat]"] by (auto simp: numeral_eq_Suc)

interpretation bounded: monitor_inv bounded_prog "circular_new c" "\<lambda>d. \<forall>q. d = Some q \<longrightarrow> circular_ok q"
  by unfold_locales (auto simp: bounded_prog_def intro: circular_new_ok bounded_exec_ok)

lemma bounded_waits_cases:
  "bounded_waits op d = Some c \<Longrightarrow> \<exists>q. d = Some q \<and> (circular_full q \<or> op = Bounded_take \<and> c = NotEmpty)"
  by (auto simp: bounded_waits_def split: option.splits bounded_op.splits if_splits)

text \<open>A bounded queue never holds its producers back. A push that makes the buffer full drops
  the oldest element at once, so the buffer is never full when put looks at it: no thread ever waits
  for notFull, and no producer waits at all.\<close>

theorem bounded_never_full:
  assumes "mon_reach bounded_prog (circular_new c) s"
  shows "(\<forall>q. mn_data s = Some q \<longrightarrow> \<not> circular_full q) \<and> mn_thr s u \<noteq> Waiting op NotFull \<and>
    mn_thr s u \<noteq> Waiting (Put_copy v) cv"
  using bounded.waiting_since [OF assms, of u op NotFull] bounded.waiting_since [OF assms, of u "Put_copy v" cv]
  by (auto simp: circular_ok_def bounded_prog_def dest!: bounded_waits_cases)

lemma bounded_run:
  "\<exists>s. mon_run 3 bounded_prog [(1, Some (Put_copy (5 :: nat))), (1, None), (1, None), (1, None),
      (2, Some (Put_copy 6)), (2, None)] (mon_new (circular_new 2)) = Some s \<and>
    (\<exists>q. mn_data s = Some q \<and> ci_data q = (replicate 2 None)[0 := Some 5]) \<and> mn_thr s 2 = Inside (Put_copy 6)"
  by (simp add: bounded_prog_def bounded_waits_def bounded_exec_def circular_new_def circular_push_def
      circular_full_def mon_new_def MutexLock_new_def mutex_lock_def mutex_unlock_def upt_rec Let_def)

theorem bounded_never_full_witness:
  "\<exists>s q. mon_reach bounded_prog (circular_new 2) s \<and> mn_data s = Some q \<and> ci_data q = [Some (5 :: nat), None] \<and>
    \<not> circular_full q"
proof -
  obtain s q where s: "mon_reach bounded_prog (circular_new 2) s" "mn_data s = Some q"
    "ci_data q = (replicate 2 None)[0 := Some (5 :: nat)]"
    using mon_run_ex [OF bounded_run] by blast
  then show ?thesis using bounded_never_full [OF s(1)] by (auto simp: numeral_2_eq_2)
qed

text \<open>MutexLock forgets its owner in a wait. The thread that locked the mutex is recorded as its
  holder; if it waits on a condition and another thread uses the mutex meanwhile, the waiting thread
  comes back owning the pthread mutex, but isLockedByThisThread denies it.\<close>

theorem holder_lost_in_wait:
  assumes "0 < t" and "mutex_lock t MutexLock_new = Some m" and "mutex_lock u (wait_release m) = Some m1"
    and "wait_reacquire t (mutex_unlock m1) = Some m2"
  shows "isLockedByThisThread t m \<and> mx_owner m2 = Some t \<and> \<not> isLockedByThisThread t m2 \<and>
    assertLocked t m2 = None"
  using assms
  by (auto simp: mutex_lock_def wait_release_def wait_reacquire_def mutex_unlock_def isLockedByThisThread_def
      assertLocked_def MutexLock_new_def split: if_splits)

theorem holder_lost_in_wait_witness:
  "\<exists>m m1 m2. mutex_lock 1 MutexLock_new = Some m \<and> mutex_lock 2 (wait_release m) = Some m1 \<and>
    wait_reacquire 1 (mutex_unlock m1) = Some m2 \<and> assertLocked 1 m2 = None"
  using holder_lost_in_wait [of 1 "\<lparr>mx_owner = Some 1, mx_holder = 1\<rparr>" 2 "\<lparr>mx_owner = Some 2, mx_holder = 2\<rparr>"
      "\<lparr>mx_owner = Some 1, mx_holder = 0\<rparr>"]
  by (simp add: mutex_lock_def wait_release_def wait_reacquire_def mutex_unlock_def MutexLock_new_def)

end
