(* ===== verification/ThreadPool.thy ===== *)
theory ThreadPool
  imports Sync
begin

text \<open>
  \<^verbatim>\<open>mutlithread/multiThread/base/ThreadPool.{h,cpp}\<close>, its C++11 twin \<^verbatim>\<open>ThreadPool_cpp11\<close>, and the
  startup of \<^verbatim>\<open>net/EventLoopThread\<close>, as programs of \<open>Monitor\<close>. A task is a number; \<open>tp_ran\<close> records
  which worker took which task to run. Workers are the threads \<open>1\<close> to \<open>tp_threads\<close>; \<open>running_\<close>,
  which \<^verbatim>\<open>runInThread\<close> reads without the lock, decides whether a worker may take again.
\<close>

record thread_pool =
  tp_name :: string
  tp_threads :: nat
  tp_queue :: "nat list"
  tp_running :: bool
  tp_posted :: "nat list"
  tp_ran :: "(nat \<times> nat) list"

definition ThreadPool_new :: "string \<Rightarrow> thread_pool" where
  "ThreadPool_new name = \<lparr>tp_name = name, tp_threads = 0, tp_queue = [], tp_running = False,
     tp_posted = [], tp_ran = []\<rparr>"

text \<open>The names of the threads, in order, and the pool.\<close>

definition pool_start :: "nat \<Rightarrow> thread_pool \<Rightarrow> (string list \<times> thread_pool) option" where
  "pool_start numThreads tp = do {
     assertion (tp_threads tp = 0);
     Some (map (\<lambda>i. tp_name tp @ dec i) [0..<numThreads],
           tp\<lparr>tp_running := True, tp_threads := numThreads\<rparr>) }"

definition pool_push :: "nat \<Rightarrow> thread_pool \<Rightarrow> thread_pool" where
  "pool_push task tp = tp\<lparr>tp_queue := tp_queue tp @ [task], tp_posted := tp_posted tp @ [task]\<rparr>"

definition pool_stop_flag :: "thread_pool \<Rightarrow> thread_pool" where
  "pool_stop_flag tp = tp\<lparr>tp_running := False\<rparr>"

definition pool_take_waits :: "thread_pool \<Rightarrow> bool" where
  "pool_take_waits tp \<longleftrightarrow> tp_queue tp = [] \<and> tp_running tp"

text \<open>\<open>None\<close> is the empty function object.\<close>

definition pool_take :: "thread_pool \<Rightarrow> nat option \<times> thread_pool" where
  "pool_take tp = (case tp_queue tp of [] \<Rightarrow> (None, tp) | task # rest \<Rightarrow> (Some task, tp\<lparr>tp_queue := rest\<rparr>))"

text \<open>One turn of \<^verbatim>\<open>runInThread\<close>: take, and run what was taken.\<close>

definition pool_turn :: "nat \<Rightarrow> thread_pool \<Rightarrow> thread_pool" where
  "pool_turn tid tp = (case pool_take tp of
     (None, tp') \<Rightarrow> tp' | (Some task, tp') \<Rightarrow> tp'\<lparr>tp_ran := tp_ran tp' @ [(tid, task)]\<rparr>)"

datatype pool_op = Pool_run nat | Pool_take | Pool_stop

definition pool_prog :: "(pool_op, unit, thread_pool) prog" where
  "pool_prog = \<lparr>
     pr_waits = (\<lambda>op tp. if op = Pool_take \<and> pool_take_waits tp then Some () else None),
     pr_exec = (\<lambda>t op tp. case op of
         Pool_run task \<Rightarrow> pool_push task tp | Pool_take \<Rightarrow> pool_turn t tp | Pool_stop \<Rightarrow> pool_stop_flag tp),
     pr_signal = (\<lambda>op tp. case op of
         Pool_run task \<Rightarrow> Some (Notify ()) | Pool_take \<Rightarrow> None | Pool_stop \<Rightarrow> Some (NotifyAll ())),
     pr_may = (\<lambda>t op tp. op = Pool_take \<longrightarrow> tp_running tp \<and> t \<in> {1..tp_threads tp})\<rparr>"

text \<open>A pool without threads runs the task in the caller, without the lock.\<close>

definition pool_run_direct :: "nat \<Rightarrow> nat \<Rightarrow> thread_pool \<Rightarrow> thread_pool option" where
  "pool_run_direct tid task tp =
     (if tp_threads tp = 0 then Some (tp\<lparr>tp_posted := tp_posted tp @ [task], tp_ran := tp_ran tp @ [(tid, task)]\<rparr>)
      else None)"

definition pool_started :: "nat \<Rightarrow> thread_pool" where
  "pool_started n = \<lparr>tp_name = [], tp_threads = n, tp_queue = [], tp_running = True, tp_posted = [], tp_ran = []\<rparr>"

lemma pool_start_started: "pool_start n (ThreadPool_new []) = Some (map dec [0..<n], pool_started n)"
  by (simp add: pool_start_def ThreadPool_new_def pool_started_def)

interpretation pool: counted_monitor pool_prog "()" "\<lambda>tp. length (tp_queue tp)" "\<lambda>op. op = Pool_take"
  by unfold_locales
    (auto simp: pool_prog_def pool_take_waits_def pool_turn_def pool_take_def pool_push_def pool_stop_flag_def
      split: pool_op.splits list.splits if_splits)

interpretation pool_stop: broadcast_monitor pool_prog "()" tp_running None
  by unfold_locales
    (auto simp: pool_prog_def pool_take_waits_def pool_turn_def pool_take_def pool_push_def pool_stop_flag_def
      split: pool_op.splits list.splits if_splits)

interpretation pool_data: monitor_inv pool_prog "pool_started n" "\<lambda>tp. tp_posted tp = map snd (tp_ran tp) @ tp_queue tp"
  by unfold_locales
    (auto simp: pool_prog_def pool_turn_def pool_take_def pool_push_def pool_stop_flag_def pool_started_def
      split: pool_op.splits list.splits)

text \<open>C11: a thread pool runs every task once, in the order posted, and its workers neither miss a task
  nor sleep through a stop. The posted tasks are those taken to run, in order, and those still queued; a
  worker waits only while the pool is running, and while one waits at least as many workers are on
  their way to the queue as it has tasks.\<close>

theorem thread_pool_correct:
  assumes "mon_reach pool_prog (pool_started n) s"
  shows "tp_posted (mn_data s) = map snd (tp_ran (mn_data s)) @ tp_queue (mn_data s) \<and>
    (mn_thr s u = Waiting op () \<longrightarrow> tp_running (mn_data s) \<and>
      length (tp_queue (mn_data s)) \<le> card {t. under_way (\<lambda>op. op = Pool_take) (mn_thr s t)})"
  using pool_data.data_inv [OF assms] pool.enough_going [OF assms] pool_stop.waiting_must [OF assms] by auto

lemma pool_run:
  "\<exists>s. mon_run 4 pool_prog [(1, Some Pool_take), (1, None), (1, None), (2, Some Pool_take), (2, None), (2, None),
      (3, Some (Pool_run 7)), (3, None), (3, None), (3, None), (1, None), (1, None)]
      (mon_new (pool_started 2)) = Some s \<and>
    tp_ran (mn_data s) = [(1, 7)] \<and> tp_queue (mn_data s) = [] \<and> mn_thr s 2 = Waiting Pool_take ()"
  by (simp add: pool_prog_def pool_started_def pool_take_waits_def pool_push_def pool_turn_def pool_take_def
      mon_new_def MutexLock_new_def mutex_lock_def wait_release_def wait_reacquire_def mutex_unlock_def upt_rec)

theorem thread_pool_correct_witness:
  "\<exists>s. mon_reach pool_prog (pool_started 2) s \<and> tp_ran (mn_data s) = [(1, 7)] \<and>
    mn_thr s 2 = Waiting Pool_take () \<and> tp_posted (mn_data s) = [7] \<and> tp_running (mn_data s)"
proof -
  obtain s where s: "mon_reach pool_prog (pool_started 2) s" "tp_ran (mn_data s) = [(1, 7)]"
    "tp_queue (mn_data s) = []" "mn_thr s 2 = Waiting Pool_take ()"
    using mon_run_ex [OF pool_run] by blast
  then show ?thesis using thread_pool_correct [OF s(1), of 2 Pool_take] by auto
qed

subsection \<open>ThreadPool_cpp11\<close>

text \<open>The same operations on \<^verbatim>\<open>std::mutex\<close>, \<^verbatim>\<open>std::condition_variable\<close> and \<^verbatim>\<open>std::queue\<close>.\<close>

definition cpp11_start :: "nat \<Rightarrow> thread_pool \<Rightarrow> thread_pool option" where
  "cpp11_start numThreads tp = do {
     assertion (tp_threads tp = 0);
     Some (tp\<lparr>tp_running := True, tp_threads := numThreads\<rparr>) }"

definition cpp11_take :: "thread_pool \<Rightarrow> nat option \<times> thread_pool" where
  "cpp11_take tp = (if tp_queue tp \<noteq> [] then (Some (hd (tp_queue tp)), tp\<lparr>tp_queue := tl (tp_queue tp)\<rparr>)
     else (None, tp))"

definition cpp11_turn :: "nat \<Rightarrow> thread_pool \<Rightarrow> thread_pool" where
  "cpp11_turn tid tp = (let (task, tp') = cpp11_take tp
     in if task \<noteq> None then tp'\<lparr>tp_ran := tp_ran tp' @ [(tid, the task)]\<rparr> else tp')"

definition cpp11_prog :: "(pool_op, unit, thread_pool) prog" where
  "cpp11_prog = \<lparr>
     pr_waits = (\<lambda>op tp. case op of
         Pool_take \<Rightarrow> if tp_queue tp = [] \<and> tp_running tp then Some () else None | _ \<Rightarrow> None),
     pr_exec = (\<lambda>t op tp. case op of
         Pool_run task \<Rightarrow> tp\<lparr>tp_queue := tp_queue tp @ [task], tp_posted := tp_posted tp @ [task]\<rparr>
       | Pool_take \<Rightarrow> cpp11_turn t tp
       | Pool_stop \<Rightarrow> tp\<lparr>tp_running := False\<rparr>),
     pr_signal = (\<lambda>op tp. case op of
         Pool_run task \<Rightarrow> Some (Notify ()) | Pool_take \<Rightarrow> None | Pool_stop \<Rightarrow> Some (NotifyAll ())),
     pr_may = (\<lambda>t op tp. op = Pool_take \<longrightarrow> tp_running tp \<and> t \<in> {1..tp_threads tp})\<rparr>"

text \<open>The two thread pools are the same program: every interleaving of the one is an
  interleaving of the other, with the same data.\<close>

theorem thread_pools_agree: "mon_reach cpp11_prog d s \<longleftrightarrow> mon_reach pool_prog d s"
proof -
  have "cpp11_turn t tp = pool_turn t tp" for t tp
    by (auto simp: cpp11_turn_def pool_turn_def cpp11_take_def pool_take_def split: list.splits)
  then have "cpp11_prog = pool_prog"
    by (auto simp: cpp11_prog_def pool_prog_def pool_take_waits_def pool_push_def pool_stop_flag_def fun_eq_iff
        split: pool_op.splits)
  then show ?thesis by simp
qed

end
