(* ===== verification/LogStream.thy ===== *)
theory LogStream
  imports HttpResponse "HOL-Library.Signed_Division"
begin

text \<open>
  \<^verbatim>\<open>mutlithread/multiThread/base/LogStream.{h,cpp}\<close>: the fixed buffer a log line is built in and the
  stream of formatting operators; and the line format of \<^verbatim>\<open>base/Logger.cpp\<close>.

  A \<open>FixedBuffer\<close> is its array and the offset of \<^verbatim>\<open>cur_\<close> in it; the constructor leaves the array as it
  finds it. An operation that leaves the array is \<open>None\<close>.
\<close>

record fixed_buffer =
  fb_data :: string
  fb_cur :: nat

definition kSmallBuffer :: nat where
  "kSmallBuffer = 4000"

definition kLargeBuffer :: nat where
  "kLargeBuffer = 4000 * 1000"

definition FixedBuffer_new :: "string \<Rightarrow> fixed_buffer" where
  "FixedBuffer_new memory = \<lparr>fb_data = memory, fb_cur = 0\<rparr>"

text \<open>The body of \<^verbatim>\<open>append\<close> is empty.\<close>

definition fb_append :: "string \<Rightarrow> fixed_buffer \<Rightarrow> fixed_buffer" where
  "fb_append s fb = fb"

definition fb_length :: "fixed_buffer \<Rightarrow> nat" where
  "fb_length fb = fb_cur fb"

definition fb_avail :: "fixed_buffer \<Rightarrow> int" where
  "fb_avail fb = int (length (fb_data fb)) - int (fb_cur fb)"

definition fb_add :: "nat \<Rightarrow> fixed_buffer \<Rightarrow> fixed_buffer" where
  "fb_add len fb = fb\<lparr>fb_cur := fb_cur fb + len\<rparr>"

definition fb_reset :: "fixed_buffer \<Rightarrow> fixed_buffer" where
  "fb_reset fb = fb\<lparr>fb_cur := 0\<rparr>"

definition fb_bzero :: "fixed_buffer \<Rightarrow> fixed_buffer" where
  "fb_bzero fb = fb\<lparr>fb_data := replicate (length (fb_data fb)) (CHR 0x00)\<rparr>"

text \<open>Bytes written at an offset from \<^verbatim>\<open>current()\<close>.\<close>

definition fb_poke :: "nat \<Rightarrow> string \<Rightarrow> fixed_buffer \<Rightarrow> fixed_buffer option" where
  "fb_poke off s fb = do {
     assertion (fb_cur fb + off + length s \<le> length (fb_data fb));
     Some (fb\<lparr>fb_data := overwrite (fb_cur fb + off) s (fb_data fb)\<rparr>) }"

subsection \<open>Integers\<close>

definition digits :: string where
  "digits = ''9876543210123456789''"

lemma sdiv_smaller: "i sdiv 10 \<noteq> 0 \<Longrightarrow> nat \<bar>i sdiv 10\<bar> < nat \<bar>i\<bar>" for i :: int
proof -
  assume nz: "i sdiv 10 \<noteq> 0"
  then have i: "i \<noteq> 0" by (auto simp: signed_divide_int_def)
  have "\<bar>i sdiv 10\<bar> = \<bar>i\<bar> div 10" using i by (simp add: signed_divide_int_def abs_mult sgn_if)
  moreover have "\<bar>i\<bar> div 10 < \<bar>i\<bar>" using i by (intro int_div_less_self) simp_all
  ultimately show ?thesis by simp
qed

text \<open>Machine integers divide towards zero: the digits of a negative number come out negative, and
  \<^verbatim>\<open>zero[lsd]\<close> looks to the left of the middle.\<close>

function convert_loop :: "int \<Rightarrow> string" where
  "convert_loop i =
     (let lsd = i smod 10; i' = i sdiv 10; c = digits ! nat (9 + lsd)
      in if i' = 0 then [c] else c # convert_loop i')"
  by auto
termination
  by (relation "measure (\<lambda>i. nat \<bar>i\<bar>)") (use sdiv_smaller in auto)

declare convert_loop.simps [simp del]

text \<open>The characters written, without the terminating zero; their number is the result.\<close>

definition convert :: "int \<Rightarrow> string" where
  "convert value = rev (convert_loop value @ (if value < 0 then ''-'' else []))"

definition kMaxNumericSize :: nat where
  "kMaxNumericSize = 32"

definition formatInteger :: "int \<Rightarrow> fixed_buffer \<Rightarrow> fixed_buffer option" where
  "formatInteger data fb =
     (if fb_avail fb \<ge> int kMaxNumericSize
      then do { fb1 \<leftarrow> fb_poke 0 (convert data @ [CHR 0x00]) fb; Some (fb_add (length (convert data)) fb1) }
      else Some fb)"

subsection \<open>The stream\<close>

text \<open>One value per overload. A floating point number is given as what \<^verbatim>\<open>%.12g\<close> makes of it; a pointer to
  characters may be null.\<close>

datatype log_item = L_bool bool | L_short "16 word" | L_ushort "16 word" | L_int "32 word" | L_uint "32 word"
  | L_long "64 word" | L_ulong "64 word" | L_longlong "64 word" | L_ulonglong "64 word" | L_pointer "64 word"
  | L_float string | L_double string | L_long_double string | L_char char | L_cstr "string option"
  | L_ustr "string option" | L_string string

definition format_double :: "string \<Rightarrow> fixed_buffer \<Rightarrow> fixed_buffer option" where
  "format_double text fb =
     (if fb_avail fb > int kMaxNumericSize
      then do { fb1 \<leftarrow> fb_poke 0 (snprintf kMaxNumericSize text @ [CHR 0x00]) fb; Some (fb_add (length text) fb1) }
      else Some fb)"

definition format_pointer :: "64 word \<Rightarrow> fixed_buffer \<Rightarrow> fixed_buffer option" where
  "format_pointer ptr fb =
     (let p = uint ptr
      in if fb_avail fb > int kMaxNumericSize
         then do {
           fb1 \<leftarrow> fb_poke 0 ''0x'' fb;
           fb2 \<leftarrow> fb_poke 2 (convert p @ [CHR 0x00]) fb1;
           Some (fb_add (length (convert p) + 2) fb2) }
         else Some fb)"

definition format_cstr :: "string option \<Rightarrow> fixed_buffer \<Rightarrow> fixed_buffer" where
  "format_cstr str fb = (case str of Some s \<Rightarrow> fb_append s fb | None \<Rightarrow> fb_append ''(null)'' fb)"

fun log_put :: "log_item \<Rightarrow> fixed_buffer \<Rightarrow> fixed_buffer option" where
  "log_put (L_bool flag) fb = Some (fb_append (if flag then ''1'' else ''0'') fb)"
| "log_put (L_short n) fb = formatInteger (sint (scast n :: 32 word)) fb"
| "log_put (L_ushort n) fb = formatInteger (uint (ucast n :: 32 word)) fb"
| "log_put (L_int n) fb = formatInteger (sint n) fb"
| "log_put (L_uint n) fb = formatInteger (uint n) fb"
| "log_put (L_long n) fb = formatInteger (sint n) fb"
| "log_put (L_ulong n) fb = formatInteger (uint n) fb"
| "log_put (L_longlong n) fb = formatInteger (sint n) fb"
| "log_put (L_ulonglong n) fb = formatInteger (uint n) fb"
| "log_put (L_pointer p) fb = format_pointer p fb"
| "log_put (L_float n) fb = format_double n fb"
| "log_put (L_double n) fb = format_double n fb"
| "log_put (L_long_double n) fb = format_double n fb"
| "log_put (L_char c) fb = Some (fb_append [c] fb)"
| "log_put (L_cstr str) fb = Some (format_cstr str fb)"
| "log_put (L_ustr str) fb = Some (format_cstr str fb)"
| "log_put (L_string v) fb = Some (fb_append v fb)"

fun log_all :: "log_item list \<Rightarrow> fixed_buffer \<Rightarrow> fixed_buffer option" where
  "log_all [] fb = Some fb"
| "log_all (it # its) fb = do { fb' \<leftarrow> log_put it fb; log_all its fb' }"

subsection \<open>The console logger\<close>

datatype log_level = LTRACE | LDEBUG | LINFO | LWARN | LERROR | LFATAL

fun LogLevelStr :: "log_level \<Rightarrow> string" where
  "LogLevelStr LTRACE = ''TRACE''"
| "LogLevelStr LDEBUG = ''DEBUG''"
| "LogLevelStr LINFO = ''INFO''"
| "LogLevelStr LWARN = ''WARN''"
| "LogLevelStr LERROR = ''ERROR''"
| "LogLevelStr LFATAL = ''FATAL''"

record tm =
  tm_year :: int
  tm_mon :: int
  tm_mday :: int
  tm_hour :: int
  tm_min :: int
  tm_sec :: int

text \<open>\<^verbatim>\<open>std::setfill('0') << std::setw(2)\<close>: the fill comes first, also before a sign.\<close>

definition setw2 :: "int \<Rightarrow> string" where
  "setw2 n = replicate (2 - length (dec_int n)) (CHR ''0'') @ dec_int n"

definition show_tm :: "tm \<Rightarrow> string" where
  "show_tm t = dec_int (1900 + tm_year t) @ ''-'' @ setw2 (tm_mon t + 1) @ ''-'' @ setw2 (tm_mday t) @ '' '' @
     setw2 (tm_hour t) @ '':'' @ setw2 (tm_min t) @ '':'' @ setw2 (tm_sec t)"

definition console_output :: "tm \<Rightarrow> string \<Rightarrow> string \<Rightarrow> string" where
  "console_output t levelStr messageStr =
     ''['' @ show_tm t @ '']'' @ ''['' @ levelStr @ '']'' @ [CHR 0x09] @ messageStr @ [CHR 0x0A]"

definition endine :: "tm \<Rightarrow> log_level \<Rightarrow> string \<Rightarrow> string" where
  "endine now level message = console_output now (LogLevelStr level) message"

text \<open>
  The file logger. The expression the file's name is cleaned with matches the empty string too, so a dash is put before every
  character it keeps and at the end; the result is written over a string of the length of the name.
\<close>

function valid_filename :: "string \<Rightarrow> string" where
  "valid_filename [] = ''-''"
| "valid_filename (c # cs) =
     (if c \<in> {CHR ''/'', CHR '':'', CHR '' '', CHR ''>'', CHR ''<'', CHR 0x22} then ''-'' @ valid_filename cs
      else if c = CHR 0x5C then ''-'' @ valid_filename (dropWhile (\<lambda>d. d = CHR 0x5C) cs)
      else ''-'' @ [c] @ valid_filename cs)"
  by pat_completeness auto
termination
  by (relation "measure length") (auto simp: le_imp_less_Suc length_dropWhile_le)

definition FileLogger_new :: "string \<Rightarrow> bool \<Rightarrow> string option" where
  "FileLogger_new filename opens = do {
     assertion (length (valid_filename filename) \<le> length filename);
     assertion opens;
     Some (valid_filename filename @ replicate (length filename - length (valid_filename filename)) (CHR 0x00)) }"

definition file_output :: "tm \<Rightarrow> string \<Rightarrow> string \<Rightarrow> string \<Rightarrow> string" where
  "file_output t levelStr messageStr contents =
     contents @ ''['' @ show_tm t @ '']'' @ ''['' @ levelStr @ '']'' @ [CHR 0x09] @ messageStr @ [CHR 0x0A]"

text \<open>No file logger can be made with an ordinary name: the cleaned name does not fit.\<close>

lemma valid_filename_long: "CHR 0x5C \<notin> set f \<Longrightarrow> length f < length (valid_filename f)"
  by (induction f rule: valid_filename.induct) auto

lemma FileLogger_stops: "CHR 0x5C \<notin> set f \<Longrightarrow> FileLogger_new f opens = None"
  using valid_filename_long [of f] by (simp add: FileLogger_new_def assertion_def)

lemma valid_filename_example: "valid_filename ''a/b'' = ''-a--b-''"
  by simp

subsection \<open>What is written\<close>

lemma digits_nth:
  assumes "-9 \<le> lsd" and "lsd \<le> 9"
  shows "digits ! nat (9 + lsd) = digit (nat \<bar>lsd\<bar>)"
proof -
  have d: "digits = map (\<lambda>l. digit (nat \<bar>l\<bar>)) [-9..9]" by code_simp
  have e: "[-9..9] ! nat (9 + lsd) = lsd" using assms by (subst nth_upto) auto
  have "nat (9 + lsd) < length [-9..9]" unfolding length_upto using assms by simp
  then show ?thesis unfolding d by (simp only: nth_map e)
qed

lemma smod10: "i smod 10 = sgn i * (\<bar>i\<bar> mod 10)" "i sdiv 10 = sgn i * (\<bar>i\<bar> div 10)" for i :: int
proof -
  show d: "i sdiv 10 = sgn i * (\<bar>i\<bar> div 10)" by (simp add: signed_divide_int_def)
  show "i smod 10 = sgn i * (\<bar>i\<bar> mod 10)"
  proof -
    have "sgn i * \<bar>i\<bar> = i" by (rule sgn_mult_abs)
    then show ?thesis unfolding signed_modulo_int_def d minus_mult_div_eq_mod [symmetric]
      by (simp add: algebra_simps)
  qed
qed

lemma convert_loop_dec: "rev (convert_loop i) = dec (nat \<bar>i\<bar>)"
proof (induction i rule: convert_loop.induct)
  case (1 i)
  let ?a = "nat \<bar>i\<bar>"
  have m: "nat \<bar>i smod 10\<bar> = ?a mod 10"
    by (simp add: smod10 abs_mult nat_mod_distrib sgn_if)
  have d: "nat \<bar>i sdiv 10\<bar> = ?a div 10"
    by (simp add: smod10 abs_mult nat_div_distrib sgn_if)
  have "\<bar>i smod 10\<bar> < 10" by (simp add: smod10 abs_mult sgn_if)
  then have "-9 \<le> i smod 10" "i smod 10 \<le> 9" by linarith+
  from digits_nth [OF this] have c: "digits ! nat (9 + i smod 10) = digit (?a mod 10)" using m by simp
  show ?case
  proof (cases "i sdiv 10 = 0")
    case True
    then have small: "?a < 10" using d by simp
    have "dec ?a = [digit ?a]" using small by (subst dec.simps) simp
    then show ?thesis using True c small by (subst convert_loop.simps) (simp add: Let_def)
  next
    case False
    then have big: "\<not> ?a < 10" using d by simp
    have "dec ?a = dec (?a div 10) @ [digit (?a mod 10)]" using big by (subst dec.simps) simp
    then show ?thesis using "1.IH" [OF refl refl refl False] False c d
      by (subst convert_loop.simps) (simp add: Let_def)
  qed
qed

lemma convert_dec_int: "convert n = dec_int n"
  using convert_loop_dec [of n] by (auto simp: convert_def dec_int_def)

text \<open>What the stream makes of a value, and how much room it asks for; \<open>None\<close> if it leaves nothing.\<close>

fun log_text :: "log_item \<Rightarrow> string option" where
  "log_text (L_short n) = Some (dec_int (sint n))"
| "log_text (L_ushort n) = Some (dec_int (uint n))"
| "log_text (L_int n) = Some (dec_int (sint n))"
| "log_text (L_uint n) = Some (dec_int (uint n))"
| "log_text (L_long n) = Some (dec_int (sint n))"
| "log_text (L_ulong n) = Some (dec_int (uint n))"
| "log_text (L_longlong n) = Some (dec_int (sint n))"
| "log_text (L_ulonglong n) = Some (dec_int (uint n))"
| "log_text (L_pointer p) = Some (''0x'' @ dec_int (uint p))"
| "log_text (L_float n) = Some n"
| "log_text (L_double n) = Some n"
| "log_text (L_long_double n) = Some n"
| "log_text _ = None"

fun log_room :: "log_item \<Rightarrow> nat" where
  "log_room (L_pointer p) = 33"
| "log_room (L_float n) = 33"
| "log_room (L_double n) = 33"
| "log_room (L_long_double n) = 33"
| "log_room _ = 32"

text \<open>\<^verbatim>\<open>%.12g\<close> and \<^verbatim>\<open>%.12Lg\<close> give fewer than 32 characters.\<close>

fun printf_ok :: "log_item \<Rightarrow> bool" where
  "printf_ok (L_float n) = (length n < 32)"
| "printf_ok (L_double n) = (length n < 32)"
| "printf_ok (L_long_double n) = (length n < 32)"
| "printf_ok _ = True"

definition log_line :: "nat \<Rightarrow> string \<Rightarrow> log_item \<Rightarrow> string" where
  "log_line capacity line it = (case log_text it of None \<Rightarrow> line
     | Some t \<Rightarrow> if length line + log_room it \<le> capacity then line @ t else line)"

definition fb_text :: "fixed_buffer \<Rightarrow> string" where
  "fb_text fb = take (fb_cur fb) (fb_data fb)"

lemma length_dec_int:
  assumes "-(10 ^ k) < i" and "i < 10 ^ k" and "0 < k"
  shows "length (dec_int i) \<le> k + 1"
proof -
  have "nat \<bar>i\<bar> < 10 ^ k" using assms by (simp add: nat_less_iff abs_less_iff)
  from length_dec [OF this assms(3)] show ?thesis by (auto simp: dec_int_def)
qed

lemma word_dec_int:
  fixes w :: "64 word" and v :: "32 word" and u :: "16 word"
  shows "length (dec_int (sint w)) \<le> 21" "length (dec_int (uint w)) \<le> 21" "length (dec_int (sint v)) \<le> 21"
    "length (dec_int (uint v)) \<le> 21" "length (dec_int (sint u)) \<le> 21" "length (dec_int (uint u)) \<le> 21"
proof -
  have u: "0 \<le> uint x \<and> uint x < 2 ^ LENGTH('a)" for x :: "'a::len word" by simp
  have s: "-(2 ^ (LENGTH('a) - 1)) \<le> sint x \<and> sint x < 2 ^ (LENGTH('a) - 1)" for x :: "'a::len word"
    using sint_range_size [of x] by (simp add: word_size)
  have L: "length (dec_int i) \<le> 21" if "- 100000000000000000000 < i" "i < 100000000000000000000" for i
    using length_dec_int [of 20 i] that by simp
  show "length (dec_int (sint w)) \<le> 21" "length (dec_int (uint w)) \<le> 21" "length (dec_int (sint v)) \<le> 21"
    "length (dec_int (uint v)) \<le> 21" "length (dec_int (sint u)) \<le> 21" "length (dec_int (uint u)) \<le> 21"
    using u [of w] s [of w] u [of v] s [of v] u [of u] s [of u]
    by (auto intro!: L intro: less_le_trans [of "- 100000000000000000000" 0])
qed

lemma poke_text:
  assumes "fb_cur fb + length s + 1 \<le> length (fb_data fb)"
  shows "\<exists>fb1. fb_poke 0 (s @ [CHR 0x00]) fb = Some fb1 \<and> fb_text (fb_add (length s) fb1) = fb_text fb @ s \<and>
    length (fb_data fb1) = length (fb_data fb) \<and> fb_cur fb1 = fb_cur fb"
proof -
  have "take (fb_cur fb + length s) (overwrite (fb_cur fb) (s @ [CHR 0x00]) (fb_data fb)) = fb_text fb @ s"
    using assms by (simp add: overwrite_def fb_text_def)
  then show ?thesis using assms
    by (simp add: fb_poke_def fb_add_def fb_text_def length_overwrite)
qed

lemma formatInteger_line:
  assumes "fb_cur fb \<le> length (fb_data fb)" and "length (dec_int n) \<le> 21"
  shows "\<exists>fb'. formatInteger n fb = Some fb' \<and> fb_cur fb' \<le> length (fb_data fb') \<and>
    length (fb_data fb') = length (fb_data fb) \<and>
    fb_text fb' = (if length (fb_text fb) + 32 \<le> length (fb_data fb) then fb_text fb @ dec_int n else fb_text fb)"
proof -
  have room: "fb_avail fb \<ge> 32 \<longleftrightarrow> length (fb_text fb) + 32 \<le> length (fb_data fb)"
    using assms(1) by (auto simp: fb_avail_def fb_text_def min_def)
  show ?thesis
  proof (cases "fb_avail fb \<ge> 32")
    case True
    then have "fb_cur fb + length (dec_int n) + 1 \<le> length (fb_data fb)"
      using assms(2) by (simp add: fb_avail_def)
    from poke_text [OF this] show ?thesis using True room assms
      by (auto simp: formatInteger_def convert_dec_int kMaxNumericSize_def fb_add_def fb_avail_def)
  qed (use assms room in \<open>simp add: formatInteger_def kMaxNumericSize_def\<close>)
qed

lemma format_double_line:
  assumes "fb_cur fb \<le> length (fb_data fb)" and "length t < 32"
  shows "\<exists>fb'. format_double t fb = Some fb' \<and> fb_cur fb' \<le> length (fb_data fb') \<and>
    length (fb_data fb') = length (fb_data fb) \<and>
    fb_text fb' = (if length (fb_text fb) + 33 \<le> length (fb_data fb) then fb_text fb @ t else fb_text fb)"
proof -
  have room: "fb_avail fb > 32 \<longleftrightarrow> length (fb_text fb) + 33 \<le> length (fb_data fb)"
    using assms(1) by (auto simp: fb_avail_def fb_text_def min_def)
  have t: "snprintf 32 t = t" using assms(2) by (simp add: snprintf_def)
  show ?thesis
  proof (cases "fb_avail fb > 32")
    case True
    then have "fb_cur fb + length t + 1 \<le> length (fb_data fb)" using assms(2) by (simp add: fb_avail_def)
    from poke_text [OF this] show ?thesis using True room assms t
      by (auto simp: format_double_def kMaxNumericSize_def fb_add_def fb_avail_def)
  qed (use assms room in \<open>simp add: format_double_def kMaxNumericSize_def\<close>)
qed

lemma format_pointer_line:
  assumes "fb_cur fb \<le> length (fb_data fb)"
  shows "\<exists>fb'. format_pointer p fb = Some fb' \<and> fb_cur fb' \<le> length (fb_data fb') \<and>
    length (fb_data fb') = length (fb_data fb) \<and>
    fb_text fb' = (if length (fb_text fb) + 33 \<le> length (fb_data fb)
      then fb_text fb @ ''0x'' @ dec_int (uint p) else fb_text fb)"
proof -
  let ?d = "dec_int (uint p)"
  have room: "fb_avail fb > 32 \<longleftrightarrow> length (fb_text fb) + 33 \<le> length (fb_data fb)"
    using assms by (auto simp: fb_avail_def fb_text_def min_def)
  show ?thesis
  proof (cases "fb_avail fb > 32")
    case True
    then have fits: "fb_cur fb + length ?d + 3 \<le> length (fb_data fb)"
      using word_dec_int(2) [of p] by (simp add: fb_avail_def)
    have "take (fb_cur fb + (length ?d + 2))
        (overwrite (fb_cur fb + 2) (?d @ [CHR 0x00]) (overwrite (fb_cur fb) ''0x'' (fb_data fb))) =
      fb_text fb @ ''0x'' @ ?d"
      using fits by (simp add: overwrite_def fb_text_def)
    then show ?thesis using True room fits assms
      by (simp add: format_pointer_def Let_def fb_poke_def convert_dec_int kMaxNumericSize_def fb_add_def
          fb_text_def [of "_\<lparr>fb_cur := _\<rparr>"] length_overwrite)
  qed (use assms room in \<open>simp add: format_pointer_def kMaxNumericSize_def Let_def\<close>)
qed

lemma log_put_line:
  assumes "fb_cur fb \<le> length (fb_data fb)" and "printf_ok it"
  shows "\<exists>fb'. log_put it fb = Some fb' \<and> fb_cur fb' \<le> length (fb_data fb') \<and>
    length (fb_data fb') = length (fb_data fb) \<and> fb_text fb' = log_line (length (fb_data fb)) (fb_text fb) it"
  using assms formatInteger_line [OF assms(1)] format_double_line [OF assms(1)] format_pointer_line [OF assms(1)] word_dec_int
  by (cases it)
    (auto simp: log_line_def fb_append_def format_cstr_def sint_up_scast is_up uint_up_ucast split: option.splits)

text \<open>A log line consists of its numbers alone. Whatever values go into the stream, in whatever
  order, nothing is written outside the buffer, and the line is the decimal text of the numbers (the smallest of
  each width included, and pointers after 0x in decimal too) that found their room: text, characters and
  truth values leave no trace, since the buffer's append does nothing.\<close>

theorem log_line_numbers:
  assumes "fb_cur fb \<le> length (fb_data fb)" and "\<forall>it \<in> set its. printf_ok it"
  shows "\<exists>fb'. log_all its fb = Some fb' \<and> length (fb_data fb') = length (fb_data fb) \<and>
    fb_text fb' = foldl (log_line (length (fb_data fb))) (fb_text fb) its"
  using assms
proof (induction its arbitrary: fb)
  case (Cons it its)
  obtain fb1 where fb1: "log_put it fb = Some fb1" "fb_cur fb1 \<le> length (fb_data fb1)"
    "length (fb_data fb1) = length (fb_data fb)" "fb_text fb1 = log_line (length (fb_data fb)) (fb_text fb) it"
    using log_put_line [OF Cons.prems(1), of it] Cons.prems(2) by auto
  from Cons.IH [OF fb1(2)] Cons.prems(2) fb1 show ?case by simp
qed simp

theorem log_line_numbers_witness:
  "\<exists>fb'. log_all [L_string ''fd '', L_int (- 5), L_char (CHR '' ''), L_ulong 7] (FixedBuffer_new (replicate 4000 (CHR 0x00))) = Some fb' \<and>
    fb_text fb' = ''-57''"
proof -
  let ?fb = "FixedBuffer_new (replicate 4000 (CHR 0x00))"
  have d: "dec_int (- 5) = ''-5''" "dec_int 7 = ''7''" by code_simp+
  from log_line_numbers [of ?fb "[L_string ''fd '', L_int (- 5), L_char (CHR '' ''), L_ulong 7]"] d
  show ?thesis by (auto simp: FixedBuffer_new_def fb_text_def log_line_def)
qed

end
