(* ===== verification/AsyncLogging.thy ===== *)
theory AsyncLogging
  imports LogStream Sync
begin

text \<open>
  \<^verbatim>\<open>mutlithread/multiThread/base/FileUtil\<close>, \<^verbatim>\<open>LogFile\<close>, \<^verbatim>\<open>AsyncLogging\<close> and \<^verbatim>\<open>AsyncLogger\<close>: a log file, and
  the double buffering between the threads that log and the one that writes.

  The buffers are objects of a heap and the vectors hold their addresses, as shared pointers do. \<open>async\<close> is
  what the mutex guards; \<open>writer\<close> the locals of the writing thread. Its loop has two atomic parts, the
  locked one that takes the buffers over and the rest; between them other threads may log.
\<close>

subsection \<open>FileUtil\<close>

text \<open>The stream behind the file: what it has been given, how much of that has been flushed, and the
  counts of the writes that are going to fall short; after them everything is written.\<close>

record file_util =
  fu_file :: string
  fu_flushed :: nat
  fu_short :: "nat list"
  fu_errors :: nat

definition FileUtil_new :: "nat list \<Rightarrow> file_util" where
  "FileUtil_new short = \<lparr>fu_file = [], fu_flushed = 0, fu_short = short, fu_errors = 0\<rparr>"

definition file_flush :: "file_util \<Rightarrow> file_util" where
  "file_flush fu = fu\<lparr>fu_flushed := length (fu_file fu)\<rparr>"

definition file_write :: "string \<Rightarrow> file_util \<Rightarrow> nat \<times> file_util" where
  "file_write s fu = (case fu_short fu of
     [] \<Rightarrow> (length s, fu\<lparr>fu_file := fu_file fu @ s\<rparr>)
   | a # as \<Rightarrow> (min a (length s), fu\<lparr>fu_file := fu_file fu @ take a s, fu_short := as\<rparr>))"

text \<open>The loop of \<^verbatim>\<open>append\<close>; \<open>n\<close> stays what the first write has returned.\<close>

function append_rest :: "string \<Rightarrow> nat \<Rightarrow> nat \<Rightarrow> file_util \<Rightarrow> file_util" where
  "append_rest logline n remain fu =
     (if remain = 0 then fu
      else let (tmp, fu1) = file_write (rng n (n + remain) logline) fu
           in if tmp = 0 then fu1\<lparr>fu_errors := fu_errors fu1 + 1\<rparr>
              else append_rest logline n (remain - tmp) fu1)"
  by auto
termination
  by (relation "measure (\<lambda>(logline, n, remain, fu). remain)") auto

declare append_rest.simps [simp del]

definition fileutil_append :: "string \<Rightarrow> file_util \<Rightarrow> file_util" where
  "fileutil_append logline fu =
     (let (n, fu1) = file_write logline fu in append_rest logline n (length logline - n) fu1)"

subsection \<open>LogFile\<close>

record log_file =
  lf_basename :: string
  lf_flushEveryN :: int
  lf_count :: int
  lf_file :: file_util

definition LogFile_new :: "string \<Rightarrow> int \<Rightarrow> nat list \<Rightarrow> log_file" where
  "LogFile_new basename flushEveryN short = \<lparr>lf_basename = basename, lf_flushEveryN = flushEveryN,
     lf_count = 0, lf_file = FileUtil_new short\<rparr>"

definition append_unlocked :: "string \<Rightarrow> log_file \<Rightarrow> log_file" where
  "append_unlocked logline lf =
     (let lf1 = lf\<lparr>lf_file := fileutil_append logline (lf_file lf), lf_count := lf_count lf + 1\<rparr>
      in if lf_count lf1 \<ge> lf_flushEveryN lf1
         then lf1\<lparr>lf_count := 0, lf_file := file_flush (lf_file lf1)\<rparr> else lf1)"

definition logfile_append :: "string \<Rightarrow> log_file \<Rightarrow> log_file" where
  "logfile_append logline lf = append_unlocked logline lf"

definition logfile_flush :: "log_file \<Rightarrow> log_file" where
  "logfile_flush lf = lf\<lparr>lf_file := file_flush (lf_file lf)\<rparr>"

subsection \<open>Condition::waitForSecond\<close>

text \<open>Whether the wait times out at once: the deadline is made from the resolution of the clock, not from
  its time. Times are seconds and nanoseconds.\<close>

definition waitForSecond :: "int \<Rightarrow> int \<times> int \<Rightarrow> int \<times> int \<Rightarrow> bool" where
  "waitForSecond second resolution now =
     (let timeout = (fst resolution + second, snd resolution)
      in fst timeout < fst now \<or> fst timeout = fst now \<and> snd timeout \<le> snd now)"

lemma waitForSecond_at_once:
  "waitForSecond second (0, 1) (now, ns)" if "second < now"
  using that by (simp add: waitForSecond_def)

subsection \<open>AsyncLogging\<close>

record async =
  al_basename :: string
  al_flushInterval :: int
  al_running :: bool
  al_thread :: thread
  al_heap :: "nat \<rightharpoonup> fixed_buffer"
  al_current :: nat
  al_next :: "nat option"
  al_buffers :: "nat list"
  al_latch :: int

definition large_buffer :: fixed_buffer where
  "large_buffer = FixedBuffer_new (replicate kLargeBuffer (CHR 0x00))"

definition AsyncLogging_new :: "nat \<Rightarrow> nat \<Rightarrow> string \<Rightarrow> int \<Rightarrow> async option" where
  "AsyncLogging_new p q basename flushInterval = do {
     assertion (length basename > 1);
     Some \<lparr>al_basename = basename, al_flushInterval = flushInterval, al_running = False,
       al_thread = Thread_new ''Logging'', al_heap = [p \<mapsto> fb_bzero large_buffer, q \<mapsto> fb_bzero large_buffer],
       al_current = p, al_next = Some q, al_buffers = [], al_latch = 1\<rparr> }"

text \<open>\<open>r\<close> is the address of a new buffer, should one be needed. The second result tells whether the
  condition is notified.\<close>

definition async_append :: "nat \<Rightarrow> string \<Rightarrow> async \<Rightarrow> (bool \<times> async) option" where
  "async_append r logline al = do {
     fb \<leftarrow> al_heap al (al_current al);
     if fb_avail fb > int (length logline)
     then Some (False, al\<lparr>al_heap := (al_heap al)(al_current al \<mapsto> fb_append logline fb)\<rparr>)
     else do {
       let al1 = al\<lparr>al_buffers := al_buffers al @ [al_current al],
                     al_heap := (al_heap al)(al_current al \<mapsto> fb_reset fb)\<rparr>;
       let al2 = (case al_next al1 of
           Some q \<Rightarrow> al1\<lparr>al_current := q, al_next := None\<rparr>
         | None \<Rightarrow> al1\<lparr>al_current := r, al_heap := (al_heap al1)(r \<mapsto> large_buffer)\<rparr>);
       fb2 \<leftarrow> al_heap al2 (al_current al2);
       Some (True, al2\<lparr>al_heap := (al_heap al2)(al_current al2 \<mapsto> fb_append logline fb2)\<rparr>) } }"

definition async_start :: "async \<Rightarrow> async option" where
  "async_start al = do { th \<leftarrow> thread_start (al_thread al); Some (al\<lparr>al_running := True, al_thread := th\<rparr>) }"

definition async_stop :: "async \<Rightarrow> async option" where
  "async_stop al = do { th \<leftarrow> thread_join (al_thread al); Some (al\<lparr>al_running := False, al_thread := th\<rparr>) }"

definition AsyncLogging_delete :: "async \<Rightarrow> async option" where
  "AsyncLogging_delete al = (if al_running al then async_stop al else Some al)"

subsection \<open>The writing thread\<close>

record writer =
  wr_new1 :: "nat option"
  wr_new2 :: "nat option"
  wr_toWrite :: "nat list"
  wr_output :: log_file

text \<open>The first statement: the assertion assigns, and what it assigns is false.\<close>

definition threadFunction_assert :: "async \<Rightarrow> async option" where
  "threadFunction_assert al = (let al1 = al\<lparr>al_running := False\<rparr> in do { assertion (al_running al1); Some al1 })"

text \<open>What follows it, as a build without assertions reaches it.\<close>

definition threadFunction_begin :: "nat \<Rightarrow> nat \<Rightarrow> nat list \<Rightarrow> async \<Rightarrow> writer \<times> async" where
  "threadFunction_begin p q short al =
     (\<lparr>wr_new1 = Some p, wr_new2 = Some q, wr_toWrite = [], wr_output = LogFile_new (al_basename al) 1024 short\<rparr>,
      al\<lparr>al_latch := fst (countDown (al_latch al)),
         al_heap := (al_heap al)(p \<mapsto> fb_bzero large_buffer, q \<mapsto> fb_bzero large_buffer)\<rparr>)"

definition spare :: "async \<Rightarrow> nat option \<Rightarrow> bool" where
  "spare al b = (case b of None \<Rightarrow> False
     | Some p \<Rightarrow> (case al_heap al p of None \<Rightarrow> False | Some fb \<Rightarrow> fb_length fb = 0))"

text \<open>The locked part of a turn, once the wait is over.\<close>

definition async_swap :: "writer \<times> async \<Rightarrow> (writer \<times> async) option" where
  "async_swap = (\<lambda>(wr, al). do {
     assertion (spare al (wr_new1 wr));
     assertion (spare al (wr_new2 wr));
     assertion (wr_toWrite wr = []);
     fb \<leftarrow> al_heap al (al_current al);
     let al1 = al\<lparr>al_buffers := al_buffers al @ [al_current al],
                  al_heap := (al_heap al)(al_current al \<mapsto> fb_reset fb)\<rparr>;
     new1 \<leftarrow> wr_new1 wr;
     let al2 = al1\<lparr>al_current := new1\<rparr>;
     let wr2 = wr\<lparr>wr_new1 := None\<rparr>;
     let al3 = al2\<lparr>al_buffers := wr_toWrite wr2\<rparr>;
     let wr3 = wr2\<lparr>wr_toWrite := al_buffers al2\<rparr>;
     Some (if al_next al3 = None
           then (wr3\<lparr>wr_new2 := None\<rparr>, al3\<lparr>al_next := wr_new2 wr3\<rparr>)
           else (wr3, al3)) })"

definition dropped_message :: "string \<Rightarrow> nat \<Rightarrow> string" where
  "dropped_message now n =
     snprintf 256 (''Dropped log messages at '' @ now @ '', '' @ dec n @ '' larger buffers'' @ [CHR 0x0A])"

fun write_buffers :: "(nat \<rightharpoonup> fixed_buffer) \<Rightarrow> nat list \<Rightarrow> log_file \<Rightarrow> log_file option" where
  "write_buffers h [] lf = Some lf"
| "write_buffers h (p # ps) lf = do { fb \<leftarrow> h p; write_buffers h ps (logfile_append (take (fb_length fb) (fb_data fb)) lf) }"

text \<open>The rest of the turn; \<open>now\<close> is the time as text.\<close>

definition async_write :: "string \<Rightarrow> writer \<times> async \<Rightarrow> (writer \<times> async) option" where
  "async_write now = (\<lambda>(wr, al). do {
     let (out1, bufs1) = (if length (wr_toWrite wr) > 25
        then (logfile_append (dropped_message now (length (wr_toWrite wr) - 2)) (wr_output wr), tl (wr_toWrite wr))
        else (wr_output wr, wr_toWrite wr));
     out2 \<leftarrow> write_buffers (al_heap al) bufs1 out1;
     let bufs2 = (if length bufs1 > 2 then take 2 bufs1 else bufs1);
     (new1, bufs3, al1) \<leftarrow> (case wr_new1 wr of
         Some p \<Rightarrow> Some (Some p, bufs2, al)
       | None \<Rightarrow> do {
           assertion (bufs2 \<noteq> []);
           fb \<leftarrow> al_heap al (last bufs2);
           Some (Some (last bufs2), butlast bufs2, al\<lparr>al_heap := (al_heap al)(last bufs2 \<mapsto> fb_reset fb)\<rparr>) });
     (new2, al2) \<leftarrow> (case wr_new2 wr of
         Some q \<Rightarrow> Some (Some q, al1)
       | None \<Rightarrow> do {
           assertion (bufs3 \<noteq> []);
           fb \<leftarrow> al_heap al1 (last bufs3);
           Some (Some (last bufs3), al1\<lparr>al_heap := (al_heap al1)(last bufs3 \<mapsto> fb_reset fb)\<rparr>) });
     Some (wr\<lparr>wr_new1 := new1, wr_new2 := new2, wr_toWrite := [], wr_output := logfile_flush out2\<rparr>, al2) })"

text \<open>Steps of the logger: a line is logged, or the writing thread goes on.\<close>

datatype async_event = As_append nat string | As_thread string

fun async_step :: "async_event \<Rightarrow> writer \<times> async \<Rightarrow> (writer \<times> async) option" where
  "async_step (As_append r line) (wr, al) = do { (notified, al') \<leftarrow> async_append r line al; Some (wr, al') }"
| "async_step (As_thread now) (wr, al) = (if wr_toWrite wr = [] then async_swap (wr, al) else async_write now (wr, al))"

subsection \<open>AsyncLogger\<close>

text \<open>The line \<^verbatim>\<open>AsyncLogger(file, line).stream() << items\<close> hands over when the object goes; \<open>time\<close> is
  what \<^verbatim>\<open>strftime\<close> has made.\<close>

definition formatTime :: "string \<Rightarrow> fixed_buffer \<Rightarrow> fixed_buffer option" where
  "formatTime time stream = log_put (L_cstr (Some time)) stream"

definition AsyncLogger_line :: "string \<Rightarrow> string \<Rightarrow> string \<Rightarrow> 32 word \<Rightarrow> log_item list \<Rightarrow> string option" where
  "AsyncLogger_line memory time basename line items = do {
     s1 \<leftarrow> formatTime time (FixedBuffer_new memory);
     s2 \<leftarrow> log_all items s1;
     s3 \<leftarrow> log_all [L_cstr (Some '' -- ''), L_string basename, L_char (CHR '':''), L_int line, L_char (CHR 0x0A)] s2;
     Some (take (fb_length s3) (fb_data s3)) }"

text \<open>The one \<open>async\<close> all logger objects share, made by the first of them that hands over a line. \<open>p\<close>, \<open>q\<close> and
  \<open>r\<close> are the addresses of new buffers.\<close>

record logger_global =
  lg_logFilename :: string
  lg_asyncLogging :: "async option"

definition setLogFilename :: "string \<Rightarrow> logger_global \<Rightarrow> logger_global" where
  "setLogFilename filename g = g\<lparr>lg_logFilename := filename\<rparr>"

definition getLogFilename :: "logger_global \<Rightarrow> string" where
  "getLogFilename g = lg_logFilename g"

definition once_init :: "nat \<Rightarrow> nat \<Rightarrow> logger_global \<Rightarrow> logger_global option" where
  "once_init p q g = do {
     al \<leftarrow> AsyncLogging_new p q (getLogFilename g) 2;
     al1 \<leftarrow> async_start al;
     Some (g\<lparr>lg_asyncLogging := Some al1\<rparr>) }"

definition logger_output :: "nat \<Rightarrow> nat \<Rightarrow> nat \<Rightarrow> string \<Rightarrow> logger_global \<Rightarrow> (bool \<times> logger_global) option" where
  "logger_output p q r message g = do {
     g1 \<leftarrow> (if lg_asyncLogging g = None then once_init p q g else Some g);
     al \<leftarrow> lg_asyncLogging g1;
     (notified, al1) \<leftarrow> async_append r message al;
     Some (notified, g1\<lparr>lg_asyncLogging := Some al1\<rparr>) }"

text \<open>A program that logs before it has named a file of at least two characters stops; a name given later than the
  first line has no effect.\<close>

lemma unnamed_log_stops:
  "lg_asyncLogging g = None \<Longrightarrow> length (lg_logFilename g) \<le> 1 \<Longrightarrow> logger_output p q r message g = None"
  by (simp add: logger_output_def once_init_def getLogFilename_def AsyncLogging_new_def)

lemma late_name_ignored:
  "lg_asyncLogging g = Some al \<Longrightarrow> logger_output p q r message (setLogFilename name g) =
     map_option (\<lambda>(notified, g'). (notified, setLogFilename name g')) (logger_output p q r message g)"
  by (cases "async_append r message al") (auto simp: logger_output_def setLogFilename_def)

subsection \<open>Writing to the file\<close>

lemma rng_to_length: "rng n (length s) s = drop n s"
  by (simp add: rng_def)

lemma append_full:
  assumes "fu_short fu = []"
  shows "fileutil_append s fu = fu\<lparr>fu_file := fu_file fu @ s\<rparr>"
  using assms by (simp add: fileutil_append_def file_write_def append_rest.simps)

lemma append_once_short:
  assumes "fu_short fu = [a]" and "a < length s"
  shows "fileutil_append s fu = fu\<lparr>fu_file := fu_file fu @ s, fu_short := []\<rparr>"
proof -
  let ?fu = "fu\<lparr>fu_file := fu_file fu @ take a s, fu_short := []\<rparr>"
  have "append_rest s a (length s - a) ?fu = ?fu\<lparr>fu_file := fu_file fu @ take a s @ drop a s\<rparr>"
    using assms(2) by (simp add: append_rest.simps [of s a "length s - a"] append_rest.simps [of s a 0]
        file_write_def rng_to_length)
  then show ?thesis using assms by (simp add: fileutil_append_def file_write_def)
qed

lemma append_twice_short:
  assumes "fu_short fu = [a, b]" and "0 < b" and "a + b < length s"
  shows "fileutil_append s fu =
    fu\<lparr>fu_file := fu_file fu @ take a s @ take b (drop a s) @ take (length s - a - b) (drop a s), fu_short := []\<rparr>"
proof -
  let ?fu = "fu\<lparr>fu_file := fu_file fu @ take a s, fu_short := [b]\<rparr>"
  let ?fu' = "fu\<lparr>fu_file := fu_file fu @ take a s @ take b (drop a s), fu_short := []\<rparr>"
  have "append_rest s a (length s - a) ?fu = append_rest s a (length s - a - b) ?fu'"
    using assms by (simp add: append_rest.simps [of s a "length s - a"] file_write_def rng_to_length)
  moreover have "append_rest s a (length s - a - b) ?fu' =
      fu\<lparr>fu_file := fu_file fu @ take a s @ take b (drop a s) @ take (length s - a - b) (drop a s), fu_short := []\<rparr>"
    using assms by (cases fu, subst append_rest.simps)
      (simp add: append_rest.simps [of s a 0] file_write_def rng_def add.commute)
  ultimately show ?thesis using assms by (simp add: fileutil_append_def file_write_def)
qed

text \<open>Appending to the log file. A line reaches the file whole and once if the C library takes it
  at one go or at the second try; after two short writes the third starts again where the second did, because
  the position is not moved on, so bytes are doubled and as many lost from the end.\<close>

theorem fileutil_append_bytes:
  "(fu_short fu = [] \<or> fu_short fu = [a] \<and> a < length s \<longrightarrow> fu_file (fileutil_append s fu) = fu_file fu @ s) \<and>
   (fu_short fu = [a, b] \<and> 0 < b \<and> a + b < length s \<longrightarrow> fu_file (fileutil_append s fu) =
      fu_file fu @ take a s @ take b (drop a s) @ take (length s - a - b) (drop a s))"
  by (auto simp: append_full append_once_short append_twice_short)

theorem fileutil_append_bytes_witness:
  "fu_file (fileutil_append ''abcdef'' (FileUtil_new [2, 1])) = ''abccde''"
  using fileutil_append_bytes [of "FileUtil_new [2, 1]" 2 "''abcdef''" 1] by (simp add: FileUtil_new_def)

text \<open>A log file holds back fewer lines than it flushes after.\<close>

lemma logfile_flushes:
  assumes "0 < lf_flushEveryN lf" and "0 \<le> lf_count lf" and "lf_count lf < lf_flushEveryN lf"
  shows "0 \<le> lf_count (logfile_append s lf) \<and> lf_count (logfile_append s lf) < lf_flushEveryN (logfile_append s lf) \<and>
    (lf_count (logfile_append s lf) = 0 \<longrightarrow>
      fu_flushed (lf_file (logfile_append s lf)) = length (fu_file (lf_file (logfile_append s lf))))"
  using assms by (auto simp: logfile_append_def append_unlocked_def file_flush_def Let_def)

subsection \<open>Who owns the buffers\<close>

definition opt_list :: "'a option \<Rightarrow> 'a list" where
  "opt_list x = (case x of None \<Rightarrow> [] | Some a \<Rightarrow> [a])"

lemma opt_list_simps [simp]: "opt_list None = []" "opt_list (Some a) = [a]"
  by (simp_all add: opt_list_def)

definition live_buffers :: "writer \<times> async \<Rightarrow> nat list" where
  "live_buffers = (\<lambda>(wr, al). al_current al # opt_list (al_next al) @ al_buffers al @
     opt_list (wr_new1 wr) @ opt_list (wr_new2 wr) @ wr_toWrite wr)"

definition empty_large :: "async \<Rightarrow> nat \<Rightarrow> bool" where
  "empty_large al p \<longleftrightarrow> (\<exists>fb. al_heap al p = Some fb \<and> fb_cur fb = 0 \<and> length (fb_data fb) = kLargeBuffer)"

definition async_inv :: "writer \<times> async \<Rightarrow> bool" where
  "async_inv = (\<lambda>(wr, al). distinct (live_buffers (wr, al)) \<and> (\<forall>p \<in> set (live_buffers (wr, al)). empty_large al p) \<and>
     (al_next al = None \<longrightarrow> al_buffers al \<noteq> []) \<and>
     (if wr_toWrite wr = [] then wr_new1 wr \<noteq> None \<and> wr_new2 wr \<noteq> None
      else wr_new1 wr = None \<and> (wr_new2 wr = None \<longrightarrow> 2 \<le> length (wr_toWrite wr))))"

text \<open>Nothing has gone to the file, and nothing but one buffer at a time goes to the writer.\<close>

definition async_quiet :: "writer \<times> async \<Rightarrow> bool" where
  "async_quiet = (\<lambda>(wr, al). al_next al \<noteq> None \<and> al_buffers al = [] \<and> length (wr_toWrite wr) \<le> 1 \<and>
     fu_file (lf_file (wr_output wr)) = [])"

fun async_event_ok :: "async_event \<Rightarrow> writer \<times> async \<Rightarrow> bool" where
  "async_event_ok (As_append r line) st \<longleftrightarrow> r \<notin> set (live_buffers st)"
| "async_event_ok (As_thread now) st \<longleftrightarrow> True"

fun short_line :: "async_event \<Rightarrow> bool" where
  "short_line (As_append r line) = (length line < kLargeBuffer)"
| "short_line (As_thread now) = True"

lemma length_large [simp]: "length (fb_data large_buffer) = kLargeBuffer" "fb_cur large_buffer = 0"
  by (simp_all add: large_buffer_def FixedBuffer_new_def)

lemma empty_large_upd:
  "empty_large al p \<Longrightarrow> fb_cur fb = 0 \<Longrightarrow> length (fb_data fb) = kLargeBuffer \<Longrightarrow>
    empty_large (al\<lparr>al_heap := (al_heap al)(q \<mapsto> fb)\<rparr>) p"
  by (auto simp: empty_large_def)

lemma append_empty_line: "fu_file (fileutil_append [] fu) = fu_file fu"
  by (simp add: fileutil_append_def file_write_def append_rest.simps split: list.splits prod.splits)

lemma write_empty_buffers:
  assumes "\<forall>p \<in> set ps. \<exists>fb. h p = Some fb \<and> fb_cur fb = 0"
  shows "\<exists>lf'. write_buffers h ps lf = Some lf' \<and> fu_file (lf_file lf') = fu_file (lf_file lf)"
  using assms
proof (induction ps arbitrary: lf)
  case (Cons p ps)
  obtain fb where fb: "h p = Some fb" "fb_cur fb = 0" using Cons.prems by auto
  have "fu_file (lf_file (logfile_append [] lf)) = fu_file (lf_file lf)"
    by (simp add: logfile_append_def append_unlocked_def Let_def append_empty_line file_flush_def)
  then show ?case using fb Cons.IH [of "logfile_append [] lf"] Cons.prems by (auto simp: fb_length_def)
qed simp

lemma append_step_ok:
  assumes "async_inv (wr, al)" and "r \<notin> set (live_buffers (wr, al))"
  shows "\<exists>n al'. async_append r line al = Some (n, al') \<and> async_inv (wr, al') \<and>
    (length line < kLargeBuffer \<longrightarrow> al_next al' = al_next al \<and> al_buffers al' = al_buffers al)"
proof -
  obtain fb where fb: "al_heap al (al_current al) = Some fb" "fb_cur fb = 0" "length (fb_data fb) = kLargeBuffer"
    using assms(1) by (auto simp: async_inv_def live_buffers_def empty_large_def)
  show ?thesis
  proof (cases "int kLargeBuffer > int (length line)")
    case True
    then show ?thesis using assms fb
      by (auto simp: async_append_def fb_avail_def fb_append_def async_inv_def live_buffers_def empty_large_def)
  next
    case False
    show ?thesis
    proof (cases "al_next al")
      case None
      then show ?thesis using assms fb False
        by (auto simp: async_append_def fb_avail_def fb_append_def fb_reset_def async_inv_def live_buffers_def
            empty_large_def Let_def)
    next
      case (Some q)
      then obtain fq where "al_heap al q = Some fq" "fb_cur fq = 0" "length (fb_data fq) = kLargeBuffer"
        using assms(1) by (auto simp: async_inv_def live_buffers_def empty_large_def)
      then show ?thesis using Some assms fb False
        by (auto simp: async_append_def fb_avail_def fb_append_def fb_reset_def async_inv_def live_buffers_def
            empty_large_def Let_def)
    qed
  qed
qed

lemma swap_step_ok:
  assumes "async_inv (wr, al)" and "wr_toWrite wr = []"
  shows "\<exists>wr' al'. async_swap (wr, al) = Some (wr', al') \<and> async_inv (wr', al') \<and>
    wr_output wr' = wr_output wr \<and> wr_toWrite wr' = al_buffers al @ [al_current al] \<and> al_buffers al' = [] \<and>
    (al_next al \<noteq> None \<longrightarrow> al_next al' = al_next al)"
proof -
  obtain fb where fb: "al_heap al (al_current al) = Some fb" "fb_cur fb = 0" "length (fb_data fb) = kLargeBuffer"
    using assms(1) by (auto simp: async_inv_def live_buffers_def empty_large_def)
  obtain p q where pq: "wr_new1 wr = Some p" "wr_new2 wr = Some q" using assms by (auto simp: async_inv_def)
  then have sp: "spare al (Some p)" "spare al (Some q)"
    using assms by (auto simp: spare_def fb_length_def async_inv_def live_buffers_def empty_large_def)
  let ?al = "al\<lparr>al_buffers := [], al_heap := (al_heap al)(al_current al \<mapsto> fb_reset fb), al_current := p\<rparr>"
  let ?wr = "wr\<lparr>wr_new1 := None, wr_toWrite := al_buffers al @ [al_current al]\<rparr>"
  show ?thesis
  proof (cases "al_next al")
    case None
    then have "async_swap (wr, al) = Some (?wr\<lparr>wr_new2 := None\<rparr>, ?al\<lparr>al_next := Some q\<rparr>)"
      using pq sp fb assms(2) by (simp add: async_swap_def Let_def)
    moreover have "async_inv (?wr\<lparr>wr_new2 := None\<rparr>, ?al\<lparr>al_next := Some q\<rparr>)"
      using assms pq fb None by (cases "al_buffers al") (auto simp: async_inv_def live_buffers_def empty_large_def fb_reset_def)
    ultimately show ?thesis using None by simp
  next
    case (Some r)
    then have "async_swap (wr, al) = Some (?wr, ?al)"
      using pq sp fb assms(2) by (simp add: async_swap_def Let_def)
    moreover have "async_inv (?wr, ?al)"
      using assms pq fb Some by (auto simp: async_inv_def live_buffers_def empty_large_def fb_reset_def)
    ultimately show ?thesis using Some by simp
  qed
qed

lemma write_step_ok:
  assumes "async_inv (wr, al)" and "wr_toWrite wr \<noteq> []"
  shows "\<exists>wr' al'. async_write now (wr, al) = Some (wr', al') \<and> async_inv (wr', al') \<and>
    wr_toWrite wr' = [] \<and> al_next al' = al_next al \<and> al_buffers al' = al_buffers al \<and>
    (length (wr_toWrite wr) \<le> 25 \<longrightarrow> fu_file (lf_file (wr_output wr')) = fu_file (lf_file (wr_output wr)))"
proof -
  let ?w = "wr_toWrite wr"
  have inv: "distinct (live_buffers (wr, al))" "\<forall>p \<in> set (live_buffers (wr, al)). empty_large al p"
    "al_next al = None \<longrightarrow> al_buffers al \<noteq> []" "wr_new1 wr = None" "wr_new2 wr = None \<longrightarrow> 2 \<le> length ?w"
    using assms by (auto simp: async_inv_def)
  obtain out1 bufs1 where b1: "(if length ?w > 25
      then (logfile_append (dropped_message now (length ?w - 2)) (wr_output wr), tl ?w) else (wr_output wr, ?w)) = (out1, bufs1)"
    by (meson surj_pair)
  have long: "tl ?w \<noteq> [] \<and> 2 \<le> length (tl ?w)" if "25 < length ?w" using that by (cases ?w) auto
  have bufs1: "set bufs1 \<subseteq> set ?w" "distinct bufs1" "bufs1 \<noteq> []" "wr_new2 wr = None \<longrightarrow> 2 \<le> length bufs1"
    "length ?w \<le> 25 \<longrightarrow> out1 = wr_output wr"
    using b1 inv assms(2) long by (auto simp: live_buffers_def distinct_tl split: if_splits dest: list.set_sel(2))
  obtain out2 where out2: "write_buffers (al_heap al) bufs1 out1 = Some out2" "fu_file (lf_file out2) = fu_file (lf_file out1)"
    using write_empty_buffers [of bufs1 "al_heap al" out1] bufs1(1) inv(2) by (fastforce simp: empty_large_def live_buffers_def)
  define bufs2 where "bufs2 = (if length bufs1 > 2 then take 2 bufs1 else bufs1)"
  have bufs2: "set bufs2 \<subseteq> set ?w" "distinct bufs2" "bufs2 \<noteq> []" "wr_new2 wr = None \<longrightarrow> 2 \<le> length bufs2"
    using bufs1 by (auto simp: bufs2_def dest: in_set_takeD)
  let ?p = "last bufs2"
  have p: "?p \<in> set ?w" using bufs2 last_in_set by blast
  obtain fp where fp: "al_heap al ?p = Some fp" "fb_cur fp = 0" "length (fb_data fp) = kLargeBuffer"
    using inv(2) p by (auto simp: live_buffers_def empty_large_def)
  let ?al1 = "al\<lparr>al_heap := (al_heap al)(?p \<mapsto> fb_reset fp)\<rparr>"
  have out: "fu_file (lf_file (logfile_flush out2)) = fu_file (lf_file out1)"
    using out2(2) by (simp add: logfile_flush_def file_flush_def)
  show ?thesis
  proof (cases "wr_new2 wr")
    case (Some q)
    let ?wr = "wr\<lparr>wr_new1 := Some ?p, wr_new2 := Some q, wr_toWrite := [], wr_output := logfile_flush out2\<rparr>"
    have "async_write now (wr, al) = Some (?wr, ?al1)"
      using b1 out2(1) bufs2(3) fp(1) inv(4) Some by (simp add: async_write_def bufs2_def [symmetric])
    moreover have "async_inv (?wr, ?al1)"
      using inv Some p fp by (auto simp: async_inv_def live_buffers_def empty_large_def fb_reset_def)
    ultimately show ?thesis using out bufs1(5) by simp
  next
    case None
    let ?b = "butlast bufs2"
    let ?q = "last ?b"
    have b: "?b \<noteq> []" using bufs2(4) None by (cases bufs2 rule: rev_cases) auto
    have "distinct (?b @ [?p])" using bufs2(2) by (simp only: append_butlast_last_id [OF bufs2(3)])
    then have "?p \<notin> set ?b" by simp
    moreover have qb: "?q \<in> set ?b" using b by simp
    ultimately have q: "?q \<in> set ?w" "?q \<noteq> ?p" using subsetD [OF bufs2(1) in_set_butlastD [OF qb]] by auto
    obtain fq where fq: "al_heap al ?q = Some fq" "fb_cur fq = 0" "length (fb_data fq) = kLargeBuffer"
      using inv(2) q(1) by (auto simp: live_buffers_def empty_large_def)
    let ?al2 = "?al1\<lparr>al_heap := (al_heap ?al1)(?q \<mapsto> fb_reset fq)\<rparr>"
    let ?wr = "wr\<lparr>wr_new1 := Some ?p, wr_new2 := Some ?q, wr_toWrite := [], wr_output := logfile_flush out2\<rparr>"
    have "async_write now (wr, al) = Some (?wr, ?al2)"
      using b1 out2(1) bufs2(3) fp(1) fq(1) inv(4) None b q(2) by (simp add: async_write_def bufs2_def [symmetric])
    moreover have "async_inv (?wr, ?al2)"
      using inv None p q fp fq by (auto simp: async_inv_def live_buffers_def empty_large_def fb_reset_def)
    ultimately show ?thesis using out bufs1(5) by simp
  qed
qed


lemma async_begin_inv:
  assumes "AsyncLogging_new p q basename f = Some al" and "distinct [p, q, p', q']"
  shows "async_inv (threadFunction_begin p' q' [] al)" "async_quiet (threadFunction_begin p' q' [] al)"
proof -
  have "fb_bzero large_buffer = \<lparr>fb_data = replicate kLargeBuffer (CHR 0x00), fb_cur = 0\<rparr>"
    by (simp add: large_buffer_def FixedBuffer_new_def fb_bzero_def)
  then show "async_inv (threadFunction_begin p' q' [] al)" "async_quiet (threadFunction_begin p' q' [] al)"
    using assms by (auto simp: AsyncLogging_new_def threadFunction_begin_def async_inv_def async_quiet_def
        live_buffers_def empty_large_def LogFile_new_def FileUtil_new_def)
qed


text \<open>A build with assertions does not get as far: the writing thread's first statement stops the process.\<close>

lemma threadFunction_stops: "threadFunction_assert al = None"
  by (simp add: threadFunction_assert_def Let_def)

text \<open>The line a logger object hands over is the decimal number of its source line, and the numbers logged.\<close>

lemma AsyncLogger_line_number:
  assumes "length memory = kSmallBuffer"
  shows "AsyncLogger_line memory time basename line [] = Some (dec_int (sint line))"
proof -
  let ?fb = "FixedBuffer_new memory"
  have "log_all [L_cstr (Some '' -- ''), L_string basename, L_char (CHR '':''), L_int line, L_char (CHR 0x0A)] ?fb =
      formatInteger (sint line) ?fb"
    by (simp add: format_cstr_def fb_append_def) (cases "formatInteger (sint line) ?fb", simp_all add: fb_append_def)
  then show ?thesis using formatInteger_line [of ?fb "sint line"] word_dec_int(3) [of line] assms
    by (auto simp: AsyncLogger_line_def formatTime_def format_cstr_def fb_append_def FixedBuffer_new_def fb_text_def
        kSmallBuffer_def fb_length_def)
qed

end
