(* ===== verification/WebConn.thy ===== *)
theory WebConn
  imports Prelude "HOL-Library.Monad_Syntax"
begin

text \<open>
  \<^verbatim>\<open>web-5.11-pressure/http_conn.{h,cpp}\<close>: a connection of the single-reactor server. The read buffer is
  an array of bytes in which the parser overwrites line ends and blanks with zeros; its pointers are offsets into it.
  Reading or writing outside an array, a string without its zero, and a null pointer followed are \<open>None\<close>.

  \<open>reactor\<close> is what all connections share: the poller and the count of users. What the kernel answers
  to \<^verbatim>\<open>recv\<close> and \<^verbatim>\<open>writev\<close> is given with the connection; the file system is the parameter \<open>fs\<close>.
\<close>

subsection \<open>The poller\<close>

datatype ep_flag = Ep_in | Ep_out | Ep_rdhup | Ep_et | Ep_oneshot

record reactor =
  re_watch :: "int \<rightharpoonup> ep_flag set"
  re_nonblocking :: "int set"
  re_closed :: "int list"
  re_user_count :: int

definition setnoblocking :: "int \<Rightarrow> reactor \<Rightarrow> reactor" where
  "setnoblocking fd re = re\<lparr>re_nonblocking := insert fd (re_nonblocking re)\<rparr>"

definition addfd :: "int \<Rightarrow> bool \<Rightarrow> reactor \<Rightarrow> reactor" where
  "addfd fd one_shot re =
     (let events = {Ep_in, Ep_rdhup} \<union> (if one_shot then {Ep_oneshot} else {});
          re1 = (if fd \<in> dom (re_watch re) then re else re\<lparr>re_watch := (re_watch re)(fd \<mapsto> events)\<rparr>)
      in setnoblocking fd re1)"

definition removefd :: "int \<Rightarrow> reactor \<Rightarrow> reactor" where
  "removefd fd re = re\<lparr>re_watch := (re_watch re)(fd := None), re_closed := re_closed re @ [fd]\<rparr>"

definition modfd :: "int \<Rightarrow> ep_flag \<Rightarrow> reactor \<Rightarrow> reactor" where
  "modfd fd ev re =
     (if fd \<in> dom (re_watch re) then re\<lparr>re_watch := (re_watch re)(fd \<mapsto> {ev, Ep_et, Ep_oneshot, Ep_rdhup})\<rparr> else re)"

subsection \<open>The connection\<close>

datatype web_method = GET | POST | HEAD | PUT | DELETE | TRACE | OPTIONS | CONNECT

datatype check_state = CHECK_STATE_REQUESTLINE | CHECK_STATE_HEADER | CHECK_STATE_CONTENT

datatype http_code = NO_REQUEST | GET_REQUEST | BAD_REQUEST | NO_RESOURCE | FORBIDDEN_REQUEST | FILE_REQUEST
  | INTERNAL_ERROR | CLOSED_CONNECTION

datatype line_status = LINE_OK | LINE_BAD | LINE_OPEN

datatype cptr = Null | In_buf nat | Default_url

datatype mapping = Unmapped | Mapped string | Map_failed

record file_stat =
  st_size :: nat
  st_roth :: bool
  st_dir :: bool

datatype iov = Iov_buf nat | Iov_file nat

text \<open>What \<^verbatim>\<open>recv\<close> has: some bytes, nothing yet, the end, an error; and what \<^verbatim>\<open>writev\<close> does.\<close>

datatype recv_answer = Data string | Would_block | Eof | Recv_error

datatype writev_answer = Sent nat | Again | Fail

record http_conn =
  hc_sockfd :: int
  hc_read_buf :: string
  hc_read_idx :: nat
  hc_checked_idx :: nat
  hc_start_line :: nat
  hc_check_state :: check_state
  hc_method :: web_method
  hc_real_file :: string
  hc_url :: cptr
  hc_version :: cptr
  hc_host :: cptr
  hc_content_length :: int
  hc_linger :: bool
  hc_write_buf :: string
  hc_write_idx :: nat
  hc_file_address :: mapping
  hc_file_stat :: file_stat
  hc_iv :: "iov list"
  hc_recv :: "recv_answer list"
  hc_writev :: "writev_answer list"
  hc_out :: string

definition FILENAME_LEN :: nat where
  "FILENAME_LEN = 200"

definition READ_BUFFER_SIZE :: nat where
  "READ_BUFFER_SIZE = 2048"

definition WRITE_BUFFER_SIZE :: nat where
  "WRITE_BUFFER_SIZE = 2048"

definition doc_root :: string where
  "doc_root = ''/home/huitang/study1/webserver/resources''"

definition bzero :: "nat \<Rightarrow> string" where
  "bzero n = replicate n (CHR 0x00)"

definition http_init :: "http_conn \<Rightarrow> http_conn" where
  "http_init hc = hc\<lparr>hc_check_state := CHECK_STATE_REQUESTLINE, hc_linger := False, hc_method := GET, hc_url := Null,
     hc_version := Null, hc_content_length := 0, hc_host := Null, hc_start_line := 0, hc_checked_idx := 0,
     hc_read_idx := 0, hc_write_idx := 0, hc_read_buf := bzero READ_BUFFER_SIZE,
     hc_write_buf := bzero WRITE_BUFFER_SIZE, hc_real_file := bzero FILENAME_LEN\<rparr>"

definition http_init_fd :: "int \<Rightarrow> http_conn \<times> reactor \<Rightarrow> http_conn \<times> reactor" where
  "http_init_fd sockfd = (\<lambda>(hc, re).
     (http_init (hc\<lparr>hc_sockfd := sockfd\<rparr>),
      (addfd sockfd True re)\<lparr>re_user_count := re_user_count re + 1\<rparr>))"

definition close_conn :: "http_conn \<times> reactor \<Rightarrow> http_conn \<times> reactor" where
  "close_conn = (\<lambda>(hc, re).
     if hc_sockfd hc \<noteq> -1
     then (hc\<lparr>hc_sockfd := -1\<rparr>, (removefd (hc_sockfd hc) re)\<lparr>re_user_count := re_user_count re - 1\<rparr>)
     else (hc, re))"

subsection \<open>Reading\<close>

text \<open>\<^verbatim>\<open>recv\<close> into the rest of the buffer. With no room it returns 0, as at the end of the stream. Bytes that
  do not fit stay for the next call.\<close>

definition sys_recv :: "nat \<Rightarrow> recv_answer list \<Rightarrow> recv_answer \<times> recv_answer list" where
  "sys_recv n answers = (if n = 0 then (Eof, answers)
     else case answers of
       [] \<Rightarrow> (Would_block, [])
     | Data s # as \<Rightarrow> (if length s \<le> n then (Data s, as) else (Data (take n s), Data (drop n s) # as))
     | a # as \<Rightarrow> (a, as))"

function read_loop :: "http_conn \<Rightarrow> bool \<times> http_conn" where
  "read_loop hc =
     (let (answer, rest) = sys_recv (READ_BUFFER_SIZE - hc_read_idx hc) (hc_recv hc); hc1 = hc\<lparr>hc_recv := rest\<rparr>
      in case answer of
           Would_block \<Rightarrow> (True, hc1)
         | Recv_error \<Rightarrow> (False, hc1)
         | Eof \<Rightarrow> (False, hc1)
         | Data s \<Rightarrow> if s = [] then (False, hc1)
             else read_loop (hc1\<lparr>hc_read_buf := overwrite (hc_read_idx hc) s (hc_read_buf hc),
                                hc_read_idx := hc_read_idx hc + length s\<rparr>))"
  by auto
termination
proof (relation "measure (\<lambda>hc. READ_BUFFER_SIZE - hc_read_idx hc)")
  fix hc x answer rest hc1 s
  assume x: "x = sys_recv (READ_BUFFER_SIZE - hc_read_idx hc) (hc_recv hc)" "(answer, rest) = x"
    and hc1: "hc1 = hc\<lparr>hc_recv := rest\<rparr>" and a: "answer = Data s" "s \<noteq> []"
  have "hc_read_idx hc < READ_BUFFER_SIZE"
    using x a by (cases "READ_BUFFER_SIZE - hc_read_idx hc = 0") (auto simp: sys_recv_def)
  then show "(hc1\<lparr>hc_read_buf := overwrite (hc_read_idx hc) s (hc_read_buf hc),
      hc_read_idx := hc_read_idx hc + length s\<rparr>, hc) \<in> measure (\<lambda>hc. READ_BUFFER_SIZE - hc_read_idx hc)"
    using hc1 a(2) by (cases s) auto
qed simp

declare read_loop.simps [simp del]

definition http_read :: "http_conn \<Rightarrow> bool \<times> http_conn" where
  "http_read hc = (if hc_read_idx hc \<ge> READ_BUFFER_SIZE then (False, hc) else read_loop hc)"

subsection \<open>Strings in memory\<close>

definition mem_get :: "nat \<Rightarrow> string \<Rightarrow> char option" where
  "mem_get i mem = (if i < length mem then Some (mem ! i) else None)"

definition mem_put :: "nat \<Rightarrow> char \<Rightarrow> string \<Rightarrow> string option" where
  "mem_put i c mem = (if i < length mem then Some (mem[i := c]) else None)"

definition c_string :: "string \<Rightarrow> nat \<Rightarrow> string option" where
  "c_string mem p = (if CHR 0x00 \<in> set (drop p mem) then Some (takeWhile (\<lambda>c. c \<noteq> CHR 0x00) (drop p mem)) else None)"

definition strpbrk :: "string \<Rightarrow> nat \<Rightarrow> string \<Rightarrow> nat option option" where
  "strpbrk mem p accept = do {
     s \<leftarrow> c_string mem p;
     let n = length (takeWhile (\<lambda>c. c \<notin> set accept) s);
     Some (if n < length s then Some (p + n) else None) }"

definition lower :: "char \<Rightarrow> char" where
  "lower c = (if 65 \<le> (of_char c :: nat) \<and> (of_char c :: nat) \<le> 90 then char_of (of_char c + 32 :: nat) else c)"

definition same_case :: "string \<Rightarrow> string \<Rightarrow> bool" where
  "same_case a b \<longleftrightarrow> map lower a = map lower b"

text \<open>Whether \<^verbatim>\<open>strncasecmp\<close> is 0: the comparison includes the terminating zeros.\<close>

definition same_case_n :: "string \<Rightarrow> string \<Rightarrow> nat \<Rightarrow> bool" where
  "same_case_n a b n \<longleftrightarrow> take n (map lower a @ [CHR 0x00]) = take n (map lower b @ [CHR 0x00])"

definition blank :: string where
  "blank = [CHR '' '', CHR 0x09]"

definition atol :: "string \<Rightarrow> int" where
  "atol s = (let s1 = dropWhile (\<lambda>c. c \<in> {CHR '' '', CHR 0x09, CHR 0x0A, CHR 0x0B, CHR 0x0C, CHR 0x0D}) s;
       neg = (s1 \<noteq> [] \<and> hd s1 = CHR ''-'');
       s2 = (if s1 \<noteq> [] \<and> hd s1 \<in> {CHR ''-'', CHR ''+''} then tl s1 else s1);
       n = int (dec_value (takeWhile is_digit s2))
     in if neg then - n else n)"

subsection \<open>Parsing\<close>

text \<open>The loop of \<^verbatim>\<open>parse_line\<close> over the buffer, with the index it has reached.\<close>

function parse_line_loop :: "nat \<Rightarrow> nat \<Rightarrow> string \<Rightarrow> (line_status \<times> nat \<times> string) option" where
  "parse_line_loop read_idx i buf =
     (if i < read_idx
      then do {
        temp \<leftarrow> mem_get i buf;
        if temp = CHR 0x0D
        then (if i + 1 = read_idx then Some (LINE_OPEN, i, buf)
              else do {
                c \<leftarrow> mem_get (i + 1) buf;
                if c = CHR 0x0A
                then do { b1 \<leftarrow> mem_put i (CHR 0x00) buf; b2 \<leftarrow> mem_put (i + 1) (CHR 0x00) b1; Some (LINE_OK, i + 2, b2) }
                else Some (LINE_BAD, i, buf) })
        else if temp = CHR 0x0A
        then do {
          c \<leftarrow> (if i > 1 then mem_get (i - 1) buf else Some (CHR 0x00));
          if i > 1 \<and> c = CHR 0x0D
          then do { b1 \<leftarrow> mem_put (i - 1) (CHR 0x00) buf; b2 \<leftarrow> mem_put i (CHR 0x00) b1; Some (LINE_OK, i + 1, b2) }
          else Some (LINE_BAD, i, buf) }
        else parse_line_loop read_idx (i + 1) buf }
      else Some (LINE_OPEN, i, buf))"
  by auto
termination
  by (relation "measure (\<lambda>(read_idx, i, buf). read_idx - i)") auto

declare parse_line_loop.simps [simp del]

definition parse_line :: "http_conn \<Rightarrow> (line_status \<times> http_conn) option" where
  "parse_line hc = do {
     (status, i, buf) \<leftarrow> parse_line_loop (hc_read_idx hc) (hc_checked_idx hc) (hc_read_buf hc);
     Some (status, hc\<lparr>hc_checked_idx := i, hc_read_buf := buf\<rparr>) }"

definition parse_request_line :: "nat \<Rightarrow> http_conn \<Rightarrow> (http_code \<times> http_conn) option" where
  "parse_request_line text hc = do {
     found \<leftarrow> strpbrk (hc_read_buf hc) text blank;
     q \<leftarrow> found;
     buf1 \<leftarrow> mem_put q (CHR 0x00) (hc_read_buf hc);
     let hc1 = hc\<lparr>hc_read_buf := buf1, hc_url := In_buf (q + 1)\<rparr>;
     method \<leftarrow> c_string buf1 text;
     if \<not> same_case method ''GET'' then Some (BAD_REQUEST, hc1)
     else do {
       let hc2 = hc1\<lparr>hc_method := GET\<rparr>;
       found2 \<leftarrow> strpbrk buf1 (q + 1) blank;
       case found2 of
         None \<Rightarrow> Some (BAD_REQUEST, hc2\<lparr>hc_version := Null\<rparr>)
       | Some v \<Rightarrow> do {
           buf2 \<leftarrow> mem_put v (CHR 0x00) buf1;
           let hc3 = hc2\<lparr>hc_read_buf := buf2, hc_version := In_buf (v + 1)\<rparr>;
           version \<leftarrow> c_string buf2 (v + 1);
           if \<not> same_case version ''HTTP/1.1'' then Some (BAD_REQUEST, hc3)
           else do {
             url \<leftarrow> c_string buf2 (q + 1);
             url1 \<leftarrow> (if same_case_n url ''http://'' 7 then strpbrk buf2 (q + 8) ''/'' else Some (Some (q + 1)));
             case url1 of
               None \<Rightarrow> Some (BAD_REQUEST, hc3\<lparr>hc_url := Null\<rparr>)
             | Some u \<Rightarrow> do {
                 let hc4 = hc3\<lparr>hc_url := In_buf u\<rparr>;
                 s \<leftarrow> c_string buf2 u;
                 if s = [] \<or> hd s \<noteq> CHR ''/'' then Some (BAD_REQUEST, hc4)
                 else do {
                   let hc5 = (if s = ''/'' then hc4\<lparr>hc_url := Default_url\<rparr> else hc4);
                   Some (NO_REQUEST, hc5\<lparr>hc_check_state := CHECK_STATE_HEADER\<rparr>) } } } } } }"

definition strspn :: "string \<Rightarrow> string \<Rightarrow> nat" where
  "strspn s accept = length (takeWhile (\<lambda>c. c \<in> set accept) s)"

definition parse_headers :: "nat \<Rightarrow> http_conn \<Rightarrow> (http_code \<times> http_conn) option" where
  "parse_headers text hc = do {
     let buf = hc_read_buf hc;
     s \<leftarrow> c_string buf text;
     if s = []
     then (if hc_content_length hc \<noteq> 0 then Some (NO_REQUEST, hc\<lparr>hc_check_state := CHECK_STATE_CONTENT\<rparr>)
           else Some (GET_REQUEST, hc))
     else if same_case_n s ''Connection:'' 11
     then do {
       s1 \<leftarrow> c_string buf (text + 11);
       s2 \<leftarrow> c_string buf (text + 11 + strspn s1 blank);
       Some (NO_REQUEST, if same_case s2 ''keep-alive'' then hc\<lparr>hc_linger := True\<rparr> else hc) }
     else if same_case_n s ''Content-Length'' 15
     then do {
       s1 \<leftarrow> c_string buf (text + 15);
       s2 \<leftarrow> c_string buf (text + 15 + strspn s1 blank);
       Some (NO_REQUEST, hc\<lparr>hc_content_length := signed_take_bit 31 (atol s2)\<rparr>) }
     else if same_case_n s ''Host:'' 5
     then do {
       s1 \<leftarrow> c_string buf (text + 5);
       Some (NO_REQUEST, hc\<lparr>hc_host := In_buf (text + 5 + strspn s1 blank)\<rparr>) }
     else Some (NO_REQUEST, hc) }"

definition parse_content :: "nat \<Rightarrow> http_conn \<Rightarrow> (http_code \<times> http_conn) option" where
  "parse_content text hc =
     (if int (hc_read_idx hc) \<ge> hc_content_length hc + int (hc_checked_idx hc)
      then do {
        assertion (0 \<le> int text + hc_content_length hc);
        buf \<leftarrow> mem_put (nat (int text + hc_content_length hc)) (CHR 0x00) (hc_read_buf hc);
        Some (GET_REQUEST, hc\<lparr>hc_read_buf := buf\<rparr>) }
      else Some (NO_REQUEST, hc))"

text \<open>The file system answers \<^verbatim>\<open>stat\<close> and gives what \<^verbatim>\<open>mmap\<close> maps.\<close>

definition url_string :: "http_conn \<Rightarrow> string option" where
  "url_string hc = (case hc_url hc of Null \<Rightarrow> None | In_buf p \<Rightarrow> c_string (hc_read_buf hc) p
     | Default_url \<Rightarrow> Some ''/index.html'')"

definition do_request :: "(string \<Rightarrow> (file_stat \<times> mapping) option) \<Rightarrow> http_conn \<Rightarrow> (http_code \<times> http_conn) option" where
  "do_request fs hc = do {
     let len = length doc_root;
     url \<leftarrow> url_string hc;
     let n = FILENAME_LEN - len - 1;
     let file = overwrite len (take n (url @ bzero n)) (overwrite 0 (doc_root @ [CHR 0x00]) (hc_real_file hc));
     let hc1 = hc\<lparr>hc_real_file := file\<rparr>;
     name \<leftarrow> c_string file 0;
     case fs name of
       None \<Rightarrow> Some (NO_RESOURCE, hc1)
     | Some (stat, mapped) \<Rightarrow>
         (let hc2 = hc1\<lparr>hc_file_stat := stat\<rparr>
          in if \<not> st_roth stat then Some (FORBIDDEN_REQUEST, hc2)
             else if st_dir stat then Some (BAD_REQUEST, hc2)
             else Some (FILE_REQUEST, hc2\<lparr>hc_file_address := mapped\<rparr>)) }"

text \<open>The loop of \<^verbatim>\<open>process_read\<close>. The first test of its condition is for the rest of a body.\<close>

partial_function (option) process_loop :: "(string \<Rightarrow> (file_stat \<times> mapping) option) \<Rightarrow> line_status \<Rightarrow> http_conn
    \<Rightarrow> (http_code \<times> http_conn) option" where
  "process_loop fs line_status hc = do {
     (status, hc1) \<leftarrow> (if hc_check_state hc = CHECK_STATE_CONTENT \<and> line_status = LINE_OK
                       then Some (line_status, hc) else parse_line hc);
     if status \<noteq> LINE_OK then Some (NO_REQUEST, hc1)
     else do {
       let text = hc_start_line hc1;
       let hc2 = hc1\<lparr>hc_start_line := hc_checked_idx hc1\<rparr>;
       case hc_check_state hc2 of
         CHECK_STATE_REQUESTLINE \<Rightarrow> do {
           (ret, hc3) \<leftarrow> parse_request_line text hc2;
           if ret = BAD_REQUEST then Some (BAD_REQUEST, hc3) else process_loop fs status hc3 }
       | CHECK_STATE_HEADER \<Rightarrow> do {
           (ret, hc3) \<leftarrow> parse_headers text hc2;
           if ret = BAD_REQUEST then Some (BAD_REQUEST, hc3)
           else if ret = GET_REQUEST then do_request fs hc3 else process_loop fs status hc3 }
       | CHECK_STATE_CONTENT \<Rightarrow> do {
           (ret, hc3) \<leftarrow> parse_content text hc2;
           if ret = GET_REQUEST then do_request fs hc3 else process_loop fs LINE_OPEN hc3 } } }"

definition process_read :: "(string \<Rightarrow> (file_stat \<times> mapping) option) \<Rightarrow> http_conn \<Rightarrow> (http_code \<times> http_conn) option" where
  "process_read fs hc = process_loop fs LINE_OK hc"

subsection \<open>Answering\<close>

definition vsnprintf :: "nat \<Rightarrow> string \<Rightarrow> string" where
  "vsnprintf n text = (if n = 0 then [] else take (n - 1) text @ [CHR 0x00])"

text \<open>The text is the result of the format.\<close>

definition add_response :: "string \<Rightarrow> http_conn \<Rightarrow> bool \<times> http_conn" where
  "add_response text hc =
     (if hc_write_idx hc \<ge> WRITE_BUFFER_SIZE then (False, hc)
      else let room = WRITE_BUFFER_SIZE - 1 - hc_write_idx hc;
               hc1 = hc\<lparr>hc_write_buf := overwrite (hc_write_idx hc) (vsnprintf room text) (hc_write_buf hc)\<rparr>
           in if length text > room then (False, hc1)
              else (True, hc1\<lparr>hc_write_idx := hc_write_idx hc + length text\<rparr>))"

definition crlf :: string where
  "crlf = [CHR 0x0D, CHR 0x0A]"

definition add_status_line :: "nat \<Rightarrow> string \<Rightarrow> http_conn \<Rightarrow> bool \<times> http_conn" where
  "add_status_line status title hc = add_response (''HTTP/1.1'' @ '' '' @ dec status @ '' '' @ title @ crlf) hc"

definition add_content_length :: "int \<Rightarrow> http_conn \<Rightarrow> bool \<times> http_conn" where
  "add_content_length content_length hc = add_response (''Content-Length: '' @ dec_int content_length @ crlf) hc"

definition add_content_type :: "http_conn \<Rightarrow> bool \<times> http_conn" where
  "add_content_type hc = add_response (''Content-Type:'' @ ''text/html'' @ crlf) hc"

definition add_linger :: "http_conn \<Rightarrow> bool \<times> http_conn" where
  "add_linger hc = add_response (''Connection: '' @ (if hc_linger hc then ''keep-alive'' else ''close'') @ crlf) hc"

definition add_blank_line :: "http_conn \<Rightarrow> bool \<times> http_conn" where
  "add_blank_line hc = add_response crlf hc"

text \<open>The function is declared to return a truth value and does not; no caller looks at it.\<close>

definition add_headers :: "int \<Rightarrow> http_conn \<Rightarrow> http_conn" where
  "add_headers content_len hc =
     snd (add_blank_line (snd (add_linger (snd (add_content_type (snd (add_content_length content_len hc)))))))"

definition add_content :: "string \<Rightarrow> http_conn \<Rightarrow> bool \<times> http_conn" where
  "add_content content hc = add_response content hc"

definition error_400_form :: string where
  "error_400_form = ''Your request has bad syntax or is inherently impossible to satisfy.'' @ [CHR 0x0A]"

definition error_403_form :: string where
  "error_403_form = ''You do not have permission to get file from this server.'' @ [CHR 0x0A]"

definition error_404_form :: string where
  "error_404_form = ''The requested file was not found on this server.'' @ [CHR 0x0A]"

definition error_500_form :: string where
  "error_500_form = ''There was an unusual problem serving the requested file.'' @ [CHR 0x0A]"

definition error_page :: "http_code \<Rightarrow> (nat \<times> string \<times> string) option" where
  "error_page ret = (case ret of
     INTERNAL_ERROR \<Rightarrow> Some (500, ''Internal Error'', error_500_form)
   | BAD_REQUEST \<Rightarrow> Some (400, ''Bad Request'', error_400_form)
   | NO_RESOURCE \<Rightarrow> Some (404, ''Not Found'', error_404_form)
   | FORBIDDEN_REQUEST \<Rightarrow> Some (403, ''Forbidden'', error_403_form)
   | _ \<Rightarrow> None)"

definition process_write :: "http_code \<Rightarrow> http_conn \<Rightarrow> bool \<times> http_conn" where
  "process_write ret hc = (case error_page ret of
     Some (status, title, form) \<Rightarrow>
       (let hc1 = add_headers (int (length form)) (snd (add_status_line status title hc));
            (ok, hc2) = add_content form hc1
        in if ok then (True, hc2\<lparr>hc_iv := [Iov_buf (hc_write_idx hc2)]\<rparr>) else (False, hc2))
   | None \<Rightarrow>
       (if ret = FILE_REQUEST
        then let hc1 = add_headers (signed_take_bit 31 (int (st_size (hc_file_stat hc)))) (snd (add_status_line 200 ''OK'' hc))
             in (True, hc1\<lparr>hc_iv := [Iov_buf (hc_write_idx hc1), Iov_file (st_size (hc_file_stat hc1))]\<rparr>)
        else (False, hc)))"

text \<open>The test is the wrong way round: what is mapped stays mapped.\<close>

definition unmap :: "http_conn \<Rightarrow> http_conn" where
  "unmap hc = (if hc_file_address hc = Unmapped then hc\<lparr>hc_file_address := Unmapped\<rparr> else hc)"

text \<open>The bytes the vector names; \<open>None\<close> if the kernel finds a bad address among them.\<close>

definition iov_bytes :: "http_conn \<Rightarrow> iov \<Rightarrow> string option" where
  "iov_bytes hc v = (case v of
     Iov_buf n \<Rightarrow> Some (take n (hc_write_buf hc))
   | Iov_file n \<Rightarrow> (case hc_file_address hc of Mapped s \<Rightarrow> Some (take n s) | _ \<Rightarrow> if n = 0 then Some [] else None))"

fun iov_text :: "http_conn \<Rightarrow> iov list \<Rightarrow> string option" where
  "iov_text hc [] = Some []"
| "iov_text hc (v # vs) = do { s \<leftarrow> iov_bytes hc v; t \<leftarrow> iov_text hc vs; Some (s @ t) }"

definition sys_writev :: "http_conn \<Rightarrow> writev_answer \<times> http_conn" where
  "sys_writev hc = (case iov_text hc (hc_iv hc) of
     None \<Rightarrow> (Fail, hc)
   | Some s \<Rightarrow> (case hc_writev hc of
       [] \<Rightarrow> (Again, hc)
     | Sent n # as \<Rightarrow> (Sent (min n (length s)), hc\<lparr>hc_writev := as, hc_out := hc_out hc @ take n s\<rparr>)
     | a # as \<Rightarrow> (a, hc\<lparr>hc_writev := as\<rparr>)))"

partial_function (option) write_loop :: "nat \<Rightarrow> nat \<Rightarrow> http_conn \<times> reactor \<Rightarrow> (bool \<times> http_conn \<times> reactor) option" where
  "write_loop bytes_to_send bytes_have_send st =
     (let (hc, re) = st; (temp, hc1) = sys_writev hc
      in case temp of
           Again \<Rightarrow> Some (True, hc1, modfd (hc_sockfd hc1) Ep_out re)
         | Fail \<Rightarrow> Some (False, unmap hc1, re)
         | Sent n \<Rightarrow>
             (let sent = bytes_have_send + n
              in if sent \<ge> bytes_to_send
                 then let hc2 = unmap hc1
                      in if hc_linger hc2
                         then Some (True, http_init hc2, modfd (hc_sockfd hc2) Ep_in re)
                         else Some (False, hc2, modfd (hc_sockfd hc2) Ep_in re)
                 else write_loop bytes_to_send sent (hc1, re)))"

definition http_write :: "http_conn \<times> reactor \<Rightarrow> (bool \<times> http_conn \<times> reactor) option" where
  "http_write = (\<lambda>(hc, re).
     if hc_write_idx hc = 0 then Some (True, http_init hc, modfd (hc_sockfd hc) Ep_in re)
     else write_loop (hc_write_idx hc) 0 (hc, re))"

subsection \<open>A request\<close>

definition http_process :: "(string \<Rightarrow> (file_stat \<times> mapping) option) \<Rightarrow> http_conn \<times> reactor \<Rightarrow> (http_conn \<times> reactor) option" where
  "http_process fs = (\<lambda>(hc, re). do {
     (read_ret, hc1) \<leftarrow> process_read fs hc;
     if read_ret = NO_REQUEST then Some (hc1, modfd (hc_sockfd hc1) Ep_in re)
     else do {
       let (write_ret, hc2) = process_write read_ret hc1;
       let (hc3, re1) = (if write_ret then (hc2, re) else close_conn (hc2, re));
       Some (hc3, modfd (hc_sockfd hc3) Ep_out re1) } })"

subsection \<open>Reading into the buffer\<close>

lemma read_loop_chunks:
  assumes "length (hc_read_buf hc) = READ_BUFFER_SIZE" and "hc_read_idx hc \<le> READ_BUFFER_SIZE"
    and "hc_recv hc = map Data cs" and "\<forall>c \<in> set cs. c \<noteq> []"
  shows "(fst (read_loop hc) \<longleftrightarrow> hc_read_idx hc + length (concat cs) < READ_BUFFER_SIZE) \<and>
    (fst (read_loop hc) \<longrightarrow> rng 0 (hc_read_idx (snd (read_loop hc))) (hc_read_buf (snd (read_loop hc))) =
      rng 0 (hc_read_idx hc) (hc_read_buf hc) @ concat cs)"
  using assms
proof (induction cs arbitrary: hc)
  case Nil
  then show ?case by (subst (1 2 3 4) read_loop.simps) (auto simp: sys_recv_def)
next
  case (Cons c cs)
  let ?i = "hc_read_idx hc"
  show ?case
  proof (cases "?i + length c \<le> READ_BUFFER_SIZE")
    case True
    then have room: "sys_recv (READ_BUFFER_SIZE - ?i) (hc_recv hc) = (Data c, map Data cs)"
      using Cons.prems by (cases c) (auto simp: sys_recv_def)
    let ?hc = "hc\<lparr>hc_recv := map Data cs, hc_read_buf := overwrite ?i c (hc_read_buf hc), hc_read_idx := ?i + length c\<rparr>"
    have step: "read_loop hc = read_loop ?hc"
      using room Cons.prems(4) by (subst read_loop.simps) (simp add: Let_def)
    have "rng 0 (?i + length c) (overwrite ?i c (hc_read_buf hc)) = rng 0 ?i (hc_read_buf hc) @ c"
      by (rule rng_append_overwrite) (use True Cons.prems(1) in auto)
    then show ?thesis using Cons.IH [of ?hc] Cons.prems True unfolding step by (auto simp: length_overwrite)
  next
    case False
    have "\<not> fst (read_loop hc)"
    proof (cases "READ_BUFFER_SIZE - ?i = 0")
      case True
      then show ?thesis by (subst read_loop.simps) (simp add: sys_recv_def Let_def)
    next
      case r: False
      let ?n = "READ_BUFFER_SIZE - ?i"
      have t: "take ?n c \<noteq> []" "length (take ?n c) = ?n" using r False Cons.prems(2) by auto
      let ?hc = "hc\<lparr>hc_recv := Data (drop ?n c) # map Data cs,
          hc_read_buf := overwrite ?i (take ?n c) (hc_read_buf hc), hc_read_idx := ?i + ?n\<rparr>"
      have "sys_recv ?n (hc_recv hc) = (Data (take ?n c), Data (drop ?n c) # map Data cs)"
        using Cons.prems(3) r False by (auto simp: sys_recv_def)
      then have "read_loop hc = read_loop ?hc"
        using t by (subst read_loop.simps) (simp add: Let_def)
      moreover have "\<not> fst (read_loop ?hc)" using Cons.prems(2) by (subst read_loop.simps) (simp add: sys_recv_def Let_def)
      ultimately show ?thesis by simp
    qed
    then show ?thesis using False by simp
  qed
qed

text \<open>Reading takes all the bytes there are, behind those it has, as long as they leave room in the
  buffer; a request that fills the 2048 bytes is refused, although it fits, because the next call has no room and
  its answer is taken for the end of the stream.\<close>

theorem http_read_limit:
  assumes "length (hc_read_buf hc) = READ_BUFFER_SIZE" and "hc_read_idx hc \<le> READ_BUFFER_SIZE"
    and "hc_recv hc = map Data cs" and "\<forall>c \<in> set cs. c \<noteq> []"
  shows "(fst (http_read hc) \<longleftrightarrow> hc_read_idx hc + length (concat cs) < READ_BUFFER_SIZE) \<and>
    (fst (http_read hc) \<longrightarrow> rng 0 (hc_read_idx (snd (http_read hc))) (hc_read_buf (snd (http_read hc))) =
      rng 0 (hc_read_idx hc) (hc_read_buf hc) @ concat cs)"
  using read_loop_chunks [OF assms] assms(2) by (simp add: http_read_def)

definition conn_example :: http_conn where
  "conn_example = \<lparr>hc_sockfd = 7, hc_read_buf = bzero READ_BUFFER_SIZE, hc_read_idx = 0, hc_checked_idx = 0,
     hc_start_line = 0, hc_check_state = CHECK_STATE_REQUESTLINE, hc_method = GET, hc_real_file = bzero FILENAME_LEN,
     hc_url = Null, hc_version = Null, hc_host = Null, hc_content_length = 0, hc_linger = False,
     hc_write_buf = bzero WRITE_BUFFER_SIZE, hc_write_idx = 0, hc_file_address = Unmapped,
     hc_file_stat = \<lparr>st_size = 0, st_roth = False, st_dir = False\<rparr>, hc_iv = [], hc_recv = [], hc_writev = [],
     hc_out = []\<rparr>"

theorem http_read_limit_witness:
  "\<not> fst (http_read (conn_example\<lparr>hc_recv := map Data [replicate 2048 (CHR ''x'')]\<rparr>)) \<and>
   fst (http_read (conn_example\<lparr>hc_recv := map Data [''GET / '', ''HTTP'']\<rparr>))"
  using http_read_limit [of "conn_example\<lparr>hc_recv := map Data [replicate 2048 (CHR ''x'')]\<rparr>" "[replicate 2048 (CHR ''x'')]"]
    http_read_limit [of "conn_example\<lparr>hc_recv := map Data [''GET / '', ''HTTP'']\<rparr>" "[''GET / '', ''HTTP'']"]
  by (simp add: conn_example_def bzero_def READ_BUFFER_SIZE_def)

subsection \<open>Strings\<close>

lemma c_string_Some:
  "c_string mem p = Some s \<longleftrightarrow> p + length s < length mem \<and> take (length s) (drop p mem) = s \<and>
     CHR 0x00 \<notin> set s \<and> mem ! (p + length s) = CHR 0x00"
proof
  let ?t = "drop p mem"
  assume "c_string mem p = Some s"
  then have z: "CHR 0x00 \<in> set ?t" and s: "s = takeWhile (\<lambda>c. c \<noteq> CHR 0x00) ?t"
    by (auto simp: c_string_def split: if_splits)
  have "dropWhile (\<lambda>c. c \<noteq> CHR 0x00) ?t \<noteq> []" using z by (auto simp: dropWhile_eq_Nil_conv)
  moreover have "length s + length (dropWhile (\<lambda>c. c \<noteq> CHR 0x00) ?t) = length ?t"
    unfolding s length_append [symmetric] takeWhile_dropWhile_id ..
  ultimately have "length s < length ?t" by (cases "dropWhile (\<lambda>c. c \<noteq> CHR 0x00) ?t") auto
  moreover from nth_length_takeWhile [OF this [unfolded s]] have "?t ! length s = CHR 0x00" unfolding s by simp
  moreover have "take (length s) ?t = s" unfolding s by (rule takeWhile_eq_take [symmetric])
  moreover have "CHR 0x00 \<notin> set s" unfolding s by (auto dest: set_takeWhileD)
  ultimately show "p + length s < length mem \<and> take (length s) ?t = s \<and> CHR 0x00 \<notin> set s \<and> mem ! (p + length s) = CHR 0x00"
    by auto
next
  assume r: "p + length s < length mem \<and> take (length s) (drop p mem) = s \<and> CHR 0x00 \<notin> set s \<and> mem ! (p + length s) = CHR 0x00"
  have "drop p mem = take (length s) (drop p mem) @ drop (length s) (drop p mem)" by (rule append_take_drop_id [symmetric])
  also have "drop (length s) (drop p mem) = CHR 0x00 # drop (Suc (p + length s)) mem"
    using r Cons_nth_drop_Suc [of "p + length s" mem] by (simp add: add.commute)
  finally have "drop p mem = s @ CHR 0x00 # drop (Suc (p + length s)) mem" using r by simp
  then show "c_string mem p = Some s" using r by (auto simp: c_string_def takeWhile_append)
qed

lemma c_string_drop: "c_string mem p = Some s \<Longrightarrow> k \<le> length s \<Longrightarrow> c_string mem (p + k) = Some (drop k s)"
  unfolding c_string_Some
  by (auto simp: take_drop add.commute add.left_commute drop_drop dest: in_set_dropD) (metis add.commute drop_drop drop_take)

lemma c_string_cut:
  assumes "c_string mem p = Some s" and "n < length s"
  shows "c_string (mem[p + n := CHR 0x00]) p = Some (take n s)"
    "c_string (mem[p + n := CHR 0x00]) (p + n + 1) = Some (drop (n + 1) s)"
proof -
  note s = assms(1) [unfolded c_string_Some]
  have "take n (drop p mem) = take n s" using s assms(2) by (metis min.absorb1 nat_less_le take_take)
  then show "c_string (mem[p + n := CHR 0x00]) p = Some (take n s)"
    using s assms(2) unfolding c_string_Some by (auto simp: drop_update_swap dest: in_set_takeD)
  have "drop (p + n + 1) (mem[p + n := CHR 0x00]) = drop (p + n + 1) mem" by (simp add: drop_update_cancel)
  then have "c_string (mem[p + n := CHR 0x00]) (p + n + 1) = c_string mem (p + n + 1)" by (simp add: c_string_def)
  then show "c_string (mem[p + n := CHR 0x00]) (p + n + 1) = Some (drop (n + 1) s)"
    using c_string_drop [OF assms(1), of "n + 1"] assms(2) by simp
qed

lemma c_string_later:
  assumes "c_string mem p = Some s" and "length mem' = length mem" and "\<And>k. k \<le> p + length s \<Longrightarrow> mem' ! k = mem ! k"
  shows "c_string mem' p = Some s"
proof -
  note s = assms(1) [unfolded c_string_Some]
  have "take (length s) (drop p mem') = take (length s) (drop p mem)"
    using s [THEN conjunct1] assms(2,3) by (intro nth_equalityI) auto
  then show ?thesis unfolding c_string_Some using s assms(2,3) by auto
qed

lemma c_string_at: "c_string mem p = Some [] \<longleftrightarrow> p < length mem \<and> mem ! p = CHR 0x00"
  by (auto simp: c_string_Some)

subsection \<open>The reference: requests as lines of text\<close>

datatype text_line = Open_line | Bad_line | Full_line string string

definition eol :: "char \<Rightarrow> bool" where
  "eol c \<longleftrightarrow> c = CHR 0x0D \<or> c = CHR 0x0A"

definition text_line :: "string \<Rightarrow> text_line" where
  "text_line t = (let l = takeWhile (\<lambda>c. \<not> eol c) t in
     case dropWhile (\<lambda>c. \<not> eol c) t of
       [] \<Rightarrow> Open_line
     | c # r \<Rightarrow> (if c \<noteq> CHR 0x0D then Bad_line
         else case r of [] \<Rightarrow> Open_line | d # rest \<Rightarrow> if d = CHR 0x0A then Full_line l rest else Bad_line))"

definition split_blank :: "string \<Rightarrow> (string \<times> string) option" where
  "split_blank l = (let n = length (takeWhile (\<lambda>c. c \<notin> set blank) l)
     in if n < length l then Some (take n l, drop (n + 1) l) else None)"

definition request_url :: "string \<Rightarrow> string option" where
  "request_url u = (let s = (if same_case_n u ''http://'' 7 then dropWhile (\<lambda>c. c \<noteq> CHR ''/'') (drop 7 u) else u)
     in if s = [] \<or> hd s \<noteq> CHR ''/'' then None else Some (if s = ''/'' then ''/index.html'' else s))"

text \<open>The outcome of a request line: the server stops, the request is bad, or there is a target.\<close>

definition text_request :: "string \<Rightarrow> string option option" where
  "text_request l = (case split_blank l of None \<Rightarrow> None
     | Some (m, r) \<Rightarrow> if \<not> same_case m ''GET'' then Some None
       else case split_blank r of None \<Rightarrow> Some None
         | Some (u, v) \<Rightarrow> if same_case v ''HTTP/1.1'' then Some (request_url u) else Some None)"

definition keep_alive_line :: "string \<Rightarrow> bool" where
  "keep_alive_line l \<longleftrightarrow> same_case_n l ''Connection:'' 11 \<and>
     same_case (dropWhile (\<lambda>c. c \<in> set blank) (drop 11 l)) ''keep-alive''"

text \<open>Where the parser stands: before the request line, or among the headers of a request for a target.\<close>

datatype stage = Before | Among string bool

datatype outcome = Stops | Waits stage string | Bad | Request string bool

lemma text_line_Full: "text_line t = Full_line l rest \<Longrightarrow> t = l @ crlf @ rest \<and> (\<forall>c \<in> set l. \<not> eol c)"
proof -
  assume n: "text_line t = Full_line l rest"
  have t: "t = takeWhile (\<lambda>c. \<not> eol c) t @ dropWhile (\<lambda>c. \<not> eol c) t" by simp
  have "l = takeWhile (\<lambda>c. \<not> eol c) t" "dropWhile (\<lambda>c. \<not> eol c) t = crlf @ rest"
    using n by (auto simp: text_line_def Let_def crlf_def split: list.splits if_splits)
  then show ?thesis using t by (auto dest: set_takeWhileD)
qed

function parse_text :: "stage \<Rightarrow> string \<Rightarrow> outcome" where
  "parse_text st t = (case text_line t of
     Full_line l rest \<Rightarrow> (case st of
         Before \<Rightarrow> (case text_request l of None \<Rightarrow> Stops | Some None \<Rightarrow> Bad
           | Some (Some u) \<Rightarrow> parse_text (Among u False) rest)
       | Among u k \<Rightarrow> if l = [] then Request u k else parse_text (Among u (k \<or> keep_alive_line l)) rest)
   | _ \<Rightarrow> Waits st t)"
  by pat_completeness auto
termination
  by (relation "measure (\<lambda>(st, t). length t)") (auto dest!: text_line_Full simp: crlf_def)

declare parse_text.simps [simp del]

lemma text_line_crlf: "\<forall>c \<in> set l. \<not> eol c \<Longrightarrow> text_line (l @ crlf @ rest) = Full_line l rest"
  by (simp add: text_line_def crlf_def eol_def takeWhile_append2 dropWhile_append2)

lemma text_line_append: "text_line t = Full_line l rest \<Longrightarrow> text_line (t @ t2) = Full_line l (rest @ t2)"
  using text_line_Full [of t l rest] text_line_crlf [of l "rest @ t2"] by simp

text \<open>More text does not change what has been decided, and goes on from where the parser waits.\<close>

lemma parse_text_append:
  "(parse_text st t = Waits st' t' \<longrightarrow> parse_text st (t @ t2) = parse_text st' (t' @ t2)) \<and>
   ((\<forall>st' t'. parse_text st t \<noteq> Waits st' t') \<longrightarrow> parse_text st (t @ t2) = parse_text st t)"
proof (induction st t rule: parse_text.induct)
  case (1 st t)
  show ?case
  proof (cases "text_line t")
    case (Full_line l rest)
    note app = text_line_append [OF Full_line, of t2]
    show ?thesis
    proof (cases st)
      case Before
      then show ?thesis using 1(1) [OF Full_line Before] Full_line app
        by (auto simp: parse_text.simps [of Before t] parse_text.simps [of Before "t @ t2"] split: option.splits)
    next
      case (Among u k)
      then show ?thesis using 1(2) [OF Full_line Among] Full_line app
        by (auto simp: parse_text.simps [of "Among u k" t] parse_text.simps [of "Among u k" "t @ t2"])
    qed
  qed (simp_all add: parse_text.simps [of st t])
qed

subsection \<open>One line\<close>

definition text_of :: "http_conn \<Rightarrow> string" where
  "text_of hc = rng (hc_start_line hc) (hc_read_idx hc) (hc_read_buf hc)"

text \<open>The target lies in the part of the buffer that has been parsed.\<close>

definition url_ok :: "cptr \<Rightarrow> string \<Rightarrow> nat \<Rightarrow> bool" where
  "url_ok url buf start = (case url of Null \<Rightarrow> False | Default_url \<Rightarrow> True
     | In_buf p \<Rightarrow> \<exists>s. c_string buf p = Some s \<and> p + length s < start)"

definition web_conn_ok :: "http_conn \<Rightarrow> bool" where
  "web_conn_ok hc \<longleftrightarrow> length (hc_read_buf hc) = READ_BUFFER_SIZE \<and> hc_start_line hc \<le> hc_checked_idx hc \<and>
     hc_checked_idx hc \<le> hc_read_idx hc \<and> hc_read_idx hc \<le> READ_BUFFER_SIZE \<and> CHR 0x00 \<notin> set (text_of hc) \<and>
     (\<forall>c \<in> set (rng (hc_start_line hc) (hc_checked_idx hc) (hc_read_buf hc)). \<not> eol c) \<and>
     (hc_start_line hc \<noteq> 0 \<longrightarrow> hc_read_buf hc ! (hc_start_line hc - 1) = CHR 0x00) \<and>
     length (hc_real_file hc) = FILENAME_LEN \<and> hc_real_file hc ! 199 = CHR 0x00 \<and>
     hc_content_length hc = 0 \<and>
     hc_check_state hc \<noteq> CHECK_STATE_CONTENT \<and>
     (hc_check_state hc = CHECK_STATE_REQUESTLINE \<longrightarrow> \<not> hc_linger hc) \<and>
     (hc_check_state hc = CHECK_STATE_HEADER \<longrightarrow> url_ok (hc_url hc) (hc_read_buf hc) (hc_start_line hc))"

definition stage_of :: "http_conn \<Rightarrow> stage" where
  "stage_of hc = (if hc_check_state hc = CHECK_STATE_HEADER then Among (the (url_string hc)) (hc_linger hc) else Before)"

lemma rng_Cons: "i < j \<Longrightarrow> i < length xs \<Longrightarrow> rng i j xs = xs ! i # rng (Suc i) j xs"
  by (simp add: rng_def Cons_nth_drop_Suc [symmetric] take_Cons' Suc_diff_Suc)

lemma parse_line_loop_scan:
  assumes "i \<le> r" and "r \<le> length buf" and "i \<noteq> 0 \<longrightarrow> buf ! (i - 1) \<noteq> CHR 0x0D"
  shows "parse_line_loop r i buf =
    (let j = i + length (takeWhile (\<lambda>c. \<not> eol c) (rng i r buf))
     in if j = r then Some (LINE_OPEN, r, buf)
        else if buf ! j \<noteq> CHR 0x0D then Some (LINE_BAD, j, buf)
        else if j + 1 = r then Some (LINE_OPEN, j, buf)
        else if buf ! (j + 1) = CHR 0x0A then Some (LINE_OK, j + 2, buf[j := CHR 0x00, j + 1 := CHR 0x00])
        else Some (LINE_BAD, j, buf))"
  using assms
proof (induction "r - i" arbitrary: i)
  case 0
  then show ?case by (subst parse_line_loop.simps) simp
next
  case (Suc n)
  then have i: "i < r" "i < length buf" by auto
  note rc = rng_Cons [OF i]
  show ?case
  proof (cases "eol (buf ! i)")
    case True
    then show ?thesis using i Suc.prems(2,3) rc
      by (subst parse_line_loop.simps) (auto simp: mem_get_def mem_put_def eol_def)
  next
    case False
    have "parse_line_loop r i buf = parse_line_loop r (i + 1) buf"
      using False i by (subst parse_line_loop.simps) (simp add: mem_get_def eol_def)
    moreover have "i + 1 \<noteq> 0 \<longrightarrow> buf ! (i + 1 - 1) \<noteq> CHR 0x0D" using False by (simp add: eol_def)
    ultimately show ?thesis using Suc.hyps(1) [of "i + 1"] Suc.hyps(2) Suc.prems i False rc by (simp add: Let_def)
  qed
qed

lemma rng_nth: "i + k < j \<Longrightarrow> j \<le> length xs \<Longrightarrow> rng i j xs ! k = xs ! (i + k)"
  by (simp add: rng_def)

text \<open>The whole of the text from the start of the line, not only what has not been looked at yet, decides.\<close>

lemma parse_line_text:
  assumes "web_conn_ok hc"
  shows "parse_line hc =
    (let i = hc_start_line hc; r = hc_read_idx hc; buf = hc_read_buf hc; j = i + length (takeWhile (\<lambda>c. \<not> eol c) (text_of hc))
     in if j = r then Some (LINE_OPEN, hc\<lparr>hc_checked_idx := r\<rparr>)
        else if buf ! j \<noteq> CHR 0x0D then Some (LINE_BAD, hc\<lparr>hc_checked_idx := j\<rparr>)
        else if j + 1 = r then Some (LINE_OPEN, hc\<lparr>hc_checked_idx := j\<rparr>)
        else if buf ! (j + 1) = CHR 0x0A
        then Some (LINE_OK, hc\<lparr>hc_checked_idx := j + 2, hc_read_buf := buf[j := CHR 0x00, j + 1 := CHR 0x00]\<rparr>)
        else Some (LINE_BAD, hc\<lparr>hc_checked_idx := j\<rparr>))"
proof -
  let ?i = "hc_start_line hc" and ?c = "hc_checked_idx hc" and ?r = "hc_read_idx hc" and ?b = "hc_read_buf hc"
  have idx: "?i \<le> ?c" "?c \<le> ?r" "?r \<le> length ?b" and seen: "\<forall>x \<in> set (rng ?i ?c ?b). \<not> eol x"
    using assms by (auto simp: web_conn_ok_def)
  have t: "text_of hc = rng ?i ?c ?b @ rng ?c ?r ?b" unfolding text_of_def by (rule rng_join [symmetric]) (use idx in auto)
  have "length (rng ?i ?c ?b) = ?c - ?i" using idx by (intro length_rng) auto
  then have n: "?i + length (takeWhile (\<lambda>c. \<not> eol c) (text_of hc)) = ?c + length (takeWhile (\<lambda>c. \<not> eol c) (rng ?c ?r ?b))"
    unfolding t using seen idx by (simp add: takeWhile_append2)
  have prev: "?c \<noteq> 0 \<longrightarrow> ?b ! (?c - 1) \<noteq> CHR 0x0D"
  proof (cases "?i = ?c")
    case True
    then show ?thesis using assms by (auto simp: web_conn_ok_def)
  next
    case False
    then have "rng ?i ?c ?b ! (?c - 1 - ?i) = ?b ! (?c - 1)" using idx by (subst rng_nth) auto
    moreover have "rng ?i ?c ?b ! (?c - 1 - ?i) \<in> set (rng ?i ?c ?b)" using False idx by (intro nth_mem) (simp add: length_rng)
    ultimately show ?thesis using seen by (auto simp: eol_def)
  qed
  have "hc\<lparr>hc_checked_idx := k, hc_read_buf := ?b\<rparr> = hc\<lparr>hc_checked_idx := k\<rparr>" for k by (cases hc) simp
  then show ?thesis unfolding parse_line_def parse_line_loop_scan [OF idx(2,3) prev] Let_def n by simp
qed

lemma text_takeWhile:
  "text_of hc = takeWhile (\<lambda>c. \<not> eol c) (text_of hc) @ dropWhile (\<lambda>c. \<not> eol c) (text_of hc)"
  by simp

text \<open>Without a full line nothing but the index moves.\<close>

lemma parse_line_none:
  assumes ok: "web_conn_ok hc" and "\<forall>l rest. text_line (text_of hc) \<noteq> Full_line l rest"
  shows "\<exists>st j. parse_line hc = Some (st, hc\<lparr>hc_checked_idx := j\<rparr>) \<and> st \<noteq> LINE_OK \<and> web_conn_ok (hc\<lparr>hc_checked_idx := j\<rparr>)"
proof -
  let ?i = "hc_start_line hc" and ?r = "hc_read_idx hc" and ?b = "hc_read_buf hc"
  let ?l = "takeWhile (\<lambda>c. \<not> eol c) (text_of hc)"
  let ?j = "?i + length ?l"
  have idx: "?i \<le> ?r" "?r \<le> length ?b" using ok by (auto simp: web_conn_ok_def)
  have len: "length (text_of hc) = ?r - ?i" unfolding text_of_def by (rule length_rng) (use idx in auto)
  have j: "?j \<le> ?r" using length_takeWhile_le [of "\<lambda>c. \<not> eol c" "text_of hc"] len idx by simp
  have okj: "web_conn_ok (hc\<lparr>hc_checked_idx := ?j\<rparr>)"
  proof -
    have "rng ?i ?j ?b = take (length ?l) (text_of hc)"
      using take_rng [OF j, of ?b] by (simp add: text_of_def)
    also have "\<dots> = ?l" by (rule takeWhile_eq_take [symmetric])
    finally show ?thesis using ok j by (auto simp: web_conn_ok_def text_of_def url_string_def dest: set_takeWhileD)
  qed
  have "\<not> (?j \<noteq> ?r \<and> ?b ! ?j = CHR 0x0D \<and> ?j + 1 \<noteq> ?r \<and> ?b ! (?j + 1) = CHR 0x0A)"
  proof
    assume a: "?j \<noteq> ?r \<and> ?b ! ?j = CHR 0x0D \<and> ?j + 1 \<noteq> ?r \<and> ?b ! (?j + 1) = CHR 0x0A"
    have d: "dropWhile (\<lambda>c. \<not> eol c) (text_of hc) = rng ?j ?r ?b"
      unfolding dropWhile_eq_drop unfolding text_of_def by (rule drop_rng) (use j in \<open>simp add: text_of_def\<close>)
    have "rng ?j ?r ?b = CHR 0x0D # CHR 0x0A # rng (?j + 2) ?r ?b"
      using a j idx rng_Cons [of ?j ?r ?b] rng_Cons [of "?j + 1" ?r ?b] by simp
    then have "text_line (text_of hc) = Full_line ?l (rng (?j + 2) ?r ?b)" using d by (simp add: text_line_def)
    then show False using assms(2) by blast
  qed
  moreover have "\<exists>st k. (if j = ?r then Some (LINE_OPEN, hc\<lparr>hc_checked_idx := ?r\<rparr>)
      else if ?b ! j \<noteq> CHR 0x0D then Some (LINE_BAD, hc\<lparr>hc_checked_idx := j\<rparr>)
      else if j + 1 = ?r then Some (LINE_OPEN, hc\<lparr>hc_checked_idx := j\<rparr>)
      else if ?b ! (j + 1) = CHR 0x0A
      then Some (LINE_OK, hc\<lparr>hc_checked_idx := j + 2, hc_read_buf := ?b[j := CHR 0x00, j + 1 := CHR 0x00]\<rparr>)
      else Some (LINE_BAD, hc\<lparr>hc_checked_idx := j\<rparr>)) = Some (st, hc\<lparr>hc_checked_idx := k\<rparr>) \<and> st \<noteq> LINE_OK \<and>
      web_conn_ok (hc\<lparr>hc_checked_idx := k\<rparr>)"
    if "web_conn_ok (hc\<lparr>hc_checked_idx := j\<rparr>)" "\<not> (j \<noteq> ?r \<and> ?b ! j = CHR 0x0D \<and> j + 1 \<noteq> ?r \<and> ?b ! (j + 1) = CHR 0x0A)" for j
    using that by (simp split: if_split) blast
  ultimately show ?thesis unfolding parse_line_text [OF ok] Let_def using okj by blast
qed

lemma parse_line_full:
  assumes ok: "web_conn_ok hc" and full: "text_line (text_of hc) = Full_line l rest"
  shows "let j = hc_start_line hc + length l; buf = (hc_read_buf hc)[j := CHR 0x00, j + 1 := CHR 0x00]
    in parse_line hc = Some (LINE_OK, hc\<lparr>hc_checked_idx := j + 2, hc_read_buf := buf\<rparr>) \<and> j + 2 \<le> hc_read_idx hc \<and>
       c_string buf (hc_start_line hc) = Some l \<and> buf ! (j + 1) = CHR 0x00 \<and> rng (j + 2) (hc_read_idx hc) buf = rest"
proof -
  let ?i = "hc_start_line hc" and ?r = "hc_read_idx hc" and ?b = "hc_read_buf hc"
  let ?j = "?i + length l"
  let ?buf = "?b[?j := CHR 0x00, ?j + 1 := CHR 0x00]"
  have idx: "?i \<le> ?r" "?r \<le> length ?b" and nz: "CHR 0x00 \<notin> set (text_of hc)" using ok by (auto simp: web_conn_ok_def)
  note t = text_line_Full [OF full]
  have tw: "takeWhile (\<lambda>c. \<not> eol c) (text_of hc) = l" using t by (simp add: crlf_def eol_def takeWhile_append2)
  have len: "length (text_of hc) = ?r - ?i" unfolding text_of_def by (rule length_rng) (use idx in auto)
  then have j: "?j + 2 \<le> ?r" using t idx by (simp add: crlf_def)
  have nth: "?b ! (?i + k) = text_of hc ! k" if "k < ?r - ?i" for k
    unfolding text_of_def by (rule rng_nth [symmetric]) (use that idx in auto)
  have "text_of hc ! length l = CHR 0x0D" "text_of hc ! (length l + 1) = CHR 0x0A" using t by (simp_all add: crlf_def nth_append)
  then have c: "?b ! ?j = CHR 0x0D" "?b ! (?j + 1) = CHR 0x0A" using nth [of "length l"] nth [of "length l + 1"] j by simp_all
  have run: "parse_line hc = Some (LINE_OK, hc\<lparr>hc_checked_idx := ?j + 2, hc_read_buf := ?buf\<rparr>)"
    unfolding parse_line_text [OF ok] Let_def tw using c j by simp
  have "take (length l) (drop ?i ?b) = l"
  proof -
    have "l = take (length l) (text_of hc)" using t by simp
    also have "\<dots> = take (length l) (drop ?i ?b)" using j unfolding text_of_def rng_def by (simp add: min_def)
    finally show ?thesis by simp
  qed
  moreover have "take (length l) (drop ?i ?buf) = take (length l) (drop ?i ?b)"
    using j idx by (simp add: drop_update_swap)
  moreover have "CHR 0x00 \<notin> set l" using nz t by auto
  ultimately have "c_string ?buf ?i = Some l" using j idx by (simp add: c_string_Some)
  moreover have "rng (?j + 2) ?r ?buf = rest"
  proof -
    have "rng (?j + 2) ?r ?buf = rng (?j + 2) ?r ?b" by (simp add: rng_def drop_update_cancel)
    also have "\<dots> = drop (length l + 2) (text_of hc)"
      unfolding text_of_def using j by (subst drop_rng) (auto simp: add.commute add.left_commute)
    finally show ?thesis using t by (simp add: crlf_def)
  qed
  ultimately show ?thesis using run j idx unfolding Let_def by simp
qed

subsection \<open>The request line and the headers\<close>

lemma lower_nul [simp]: "lower c = CHR 0x00 \<longleftrightarrow> c = CHR 0x00"
proof
  assume l: "lower c = CHR 0x00"
  show "c = CHR 0x00"
  proof (cases "65 \<le> (of_char c :: nat) \<and> (of_char c :: nat) \<le> 90")
    case True
    then have "of_char (lower c) = (of_char c + 32 :: nat)" by (simp add: lower_def)
    then show ?thesis using l True by simp
  next
    case False
    then have "lower c = c" by (auto simp: lower_def)
    then show ?thesis using l by simp
  qed
qed (simp add: lower_def)

lemma map_lower_nul: "CHR 0x00 \<in> set (map lower s) \<longleftrightarrow> CHR 0x00 \<in> set s"
  by (induction s) (auto simp: eq_commute [of "CHR 0x00"])

lemma same_case_n_less: "same_case_n a b m \<Longrightarrow> k \<le> m \<Longrightarrow> same_case_n a b k"
  unfolding same_case_n_def by (drule arg_cong [of _ _ "take k"]) (simp only: take_take min.absorb1)

lemma same_case_n_length:
  assumes "same_case_n a b n" and "n \<le> length b" and "CHR 0x00 \<notin> set b"
  shows "n \<le> length a"
proof (rule ccontr)
  assume "\<not> n \<le> length a"
  then have "CHR 0x00 \<in> set (take n (map lower a @ [CHR 0x00]))" by simp
  then have "CHR 0x00 \<in> set (take n (map lower b @ [CHR 0x00]))" using assms(1) unfolding same_case_n_def by (simp only:)
  moreover have "take n (map lower b @ [CHR 0x00]) = take n (map lower b)" using assms(2) by simp
  ultimately have "CHR 0x00 \<in> set (take n (map lower b))" by (simp only:)
  then show False using assms(3) map_lower_nul [of b] by (auto dest: in_set_takeD)
qed

lemma same_case_n_all:
  assumes "same_case_n a b (length b + 1)" and "CHR 0x00 \<notin> set a" and "CHR 0x00 \<notin> set b"
  shows "length a = length b"
proof -
  have eq: "take (length b + 1) (map lower a @ [CHR 0x00]) = map lower b @ [CHR 0x00]"
    using assms(1) by (simp add: same_case_n_def)
  have "length b \<le> length a" 
    by (rule same_case_n_length [OF same_case_n_less [OF assms(1)]]) (use assms(3) in simp_all)
  moreover have "\<not> length b < length a"
  proof
    assume l: "length b < length a"
    then have "take (length b + 1) (map lower a) = map lower b @ [CHR 0x00]" using eq by simp
    then have "CHR 0x00 \<in> set (take (length b + 1) (map lower a))" by simp
    then show False using assms(2) map_lower_nul [of a] by (auto dest: in_set_takeD)
  qed
  ultimately show ?thesis by simp
qed

lemma strpbrk_at:
  "c_string mem p = Some s \<Longrightarrow> strpbrk mem p accept =
    Some (let n = length (takeWhile (\<lambda>c. c \<notin> set accept) s) in if n < length s then Some (p + n) else None)"
  by (simp add: strpbrk_def Let_def)

lemma strpbrk_blank:
  "c_string mem p = Some s \<Longrightarrow> strpbrk mem p blank = Some (map_option (\<lambda>(a, b). p + length a) (split_blank s))"
  by (simp add: strpbrk_at split_blank_def Let_def min_def)

lemma split_blank_Some:
  "split_blank s = Some (a, b) \<Longrightarrow> length a < length s \<and> a = take (length a) s \<and> b = drop (length a + 1) s"
  by (auto simp: split_blank_def Let_def min_def split: if_splits)

lemma request_line_run:
  assumes l: "c_string (hc_read_buf hc) i = Some l"
  shows "text_request l = None \<Longrightarrow> parse_request_line i hc = None"
    and "text_request l = Some None \<Longrightarrow> \<exists>hc'. parse_request_line i hc = Some (BAD_REQUEST, hc')"
    and "text_request l = Some (Some u) \<Longrightarrow> \<exists>buf url v. parse_request_line i hc = Some (NO_REQUEST,
        hc\<lparr>hc_read_buf := buf, hc_url := url, hc_method := GET, hc_version := In_buf v, hc_check_state := CHECK_STATE_HEADER\<rparr>) \<and>
      length buf = length (hc_read_buf hc) \<and> (\<forall>k \<ge> i + length l. buf ! k = hc_read_buf hc ! k) \<and>
      url_ok url buf (i + length l + 1) \<and> (case url of Null \<Rightarrow> None | In_buf p \<Rightarrow> c_string buf p | Default_url \<Rightarrow> Some ''/index.html'') = Some u"
proof -
  let ?b = "hc_read_buf hc"
  have ex: "(text_request l = None \<longrightarrow> parse_request_line i hc = None) \<and>
    (text_request l = Some None \<longrightarrow> (\<exists>hc'. parse_request_line i hc = Some (BAD_REQUEST, hc'))) \<and>
    (text_request l = Some (Some u) \<longrightarrow> (\<exists>buf url v. parse_request_line i hc = Some (NO_REQUEST,
        hc\<lparr>hc_read_buf := buf, hc_url := url, hc_method := GET, hc_version := In_buf v, hc_check_state := CHECK_STATE_HEADER\<rparr>) \<and>
      length buf = length ?b \<and> (\<forall>k \<ge> i + length l. buf ! k = ?b ! k) \<and> url_ok url buf (i + length l + 1) \<and>
      (case url of Null \<Rightarrow> None | In_buf p \<Rightarrow> c_string buf p | Default_url \<Rightarrow> Some ''/index.html'') = Some u))"
  proof (cases "split_blank l")
    case None
    then show ?thesis using strpbrk_blank [OF l] by (simp add: text_request_def parse_request_line_def)
  next
    case (Some mr)
    obtain m r where mr: "split_blank l = Some (m, r)" using Some by (cases mr) auto
    note m = split_blank_Some [OF mr]
    let ?q = "i + length m"
    let ?b1 = "?b[?q := CHR 0x00]"
    have lb: "i + length l < length ?b" using l by (simp add: c_string_Some)
    have c1: "c_string ?b1 i = Some m" "c_string ?b1 (?q + 1) = Some r"
      using c_string_cut [OF l, of "length m"] m by auto
    have p1: "strpbrk ?b i blank = Some (Some ?q)" "mem_put ?q (CHR 0x00) ?b = Some ?b1"
      using strpbrk_blank [OF l] mr m lb by (simp_all add: mem_put_def)
    show ?thesis
    proof (cases "same_case m ''GET''")
      case False
      then show ?thesis using mr p1 c1(1) by (simp add: text_request_def parse_request_line_def Let_def)
    next
      case get: True
      show ?thesis
      proof (cases "split_blank r")
        case None
        then show ?thesis using mr p1 c1 get strpbrk_blank [OF c1(2)]
          by (simp add: text_request_def parse_request_line_def Let_def)
      next
        case (Some uv)
        obtain w v where uv: "split_blank r = Some (w, v)" using Some by (cases uv) auto
        note w = split_blank_Some [OF uv]
        let ?v = "?q + 1 + length w"
        let ?b2 = "?b1[?v := CHR 0x00]"
        have lr: "?q + 1 + length r = i + length l" using m by auto
        have c2: "c_string ?b2 (?q + 1) = Some w" "c_string ?b2 (?v + 1) = Some v"
          using c_string_cut [OF c1(2), of "length w"] w by auto
        have p2: "strpbrk ?b1 (?q + 1) blank = Some (Some ?v)" "mem_put ?v (CHR 0x00) ?b1 = Some ?b2"
          using strpbrk_blank [OF c1(2)] uv w lr lb by (simp_all add: mem_put_def)
        note run = mr uv p1 p2 c1 c2 get
        show ?thesis
        proof (cases "same_case v ''HTTP/1.1''")
          case False
          then show ?thesis using run by (simp add: text_request_def parse_request_line_def Let_def)
        next
          case http: True
          let ?s = "if same_case_n w ''http://'' 7 then dropWhile (\<lambda>c. c \<noteq> CHR ''/'') (drop 7 w) else w"
          have keep: "length ?b2 = length ?b" "\<forall>k \<ge> i + length l. ?b2 ! k = ?b ! k" using m w lr by auto
          obtain z where z: "(if same_case_n w ''http://'' 7 then strpbrk ?b2 (?q + 8) ''/'' else Some (Some (?q + 1))) = Some z"
            "z = None \<longrightarrow> ?s = []" "\<forall>p. z = Some p \<longrightarrow> c_string ?b2 p = Some ?s \<and> p + length ?s = ?v"
          proof (cases "same_case_n w ''http://'' 7")
            case True
            have w7: "7 \<le> length w" by (rule same_case_n_length [OF True]) simp_all
            have c8: "c_string ?b2 (?q + 8) = Some (drop 7 w)"
            proof -
              have e: "?q + 8 = ?q + 1 + 7" by simp
              show ?thesis unfolding e by (rule c_string_drop [OF c2(1) w7])
            qed
            let ?n = "length (takeWhile (\<lambda>c. c \<notin> set ''/'') (drop 7 w))"
            have dw: "?s = drop ?n (drop 7 w)" using True by (simp add: dropWhile_eq_drop)
            have n: "?n \<le> length (drop 7 w)" by (rule length_takeWhile_le)
            have "c_string ?b2 (?q + 8 + ?n) = Some ?s" unfolding dw by (rule c_string_drop [OF c8 n])
            moreover have "?q + 8 + ?n + length ?s = ?v" unfolding dw using n w7 by simp
            moreover have "strpbrk ?b2 (?q + 8) ''/'' = Some (if ?n < length (drop 7 w) then Some (?q + 8 + ?n) else None)"
              using strpbrk_at [OF c8, of "''/''"] by (simp only: Let_def)
            moreover have "\<not> ?n < length (drop 7 w) \<longrightarrow> ?s = []" unfolding dw by simp
            ultimately show ?thesis using True
              by (intro that [of "if ?n < length (drop 7 w) then Some (?q + 8 + ?n) else None"])
                (simp_all only: if_True option.distinct option.inject simp_thms split: if_split)
          next
            case False
            then show ?thesis using that [of "Some (?q + 1)"] c2(1) by simp
          qed
          have ru: "text_request l = Some (request_url w)" using run http by (simp add: text_request_def)
          have rw: "request_url w = (if ?s = [] \<or> hd ?s \<noteq> CHR ''/'' then None else Some (if ?s = ''/'' then ''/index.html'' else ?s))"
            by (simp only: request_url_def Let_def)
          show ?thesis
          proof (cases z)
            case None
            then show ?thesis using z run http rw by (simp add: ru parse_request_line_def Let_def cong del: if_weak_cong split del: if_split)
          next
            case (Some p)
            then have p: "c_string ?b2 p = Some ?s" "p + length ?s = ?v" using z(3) by auto
            have ok: "url_ok (In_buf p) ?b2 (i + length l + 1)" using p w lr by (simp add: url_ok_def)
            show ?thesis
            proof (cases "?s = [] \<or> hd ?s \<noteq> CHR ''/''")
              case True
              then show ?thesis using z(1) Some p run http rw by (simp add: ru parse_request_line_def Let_def cong del: if_weak_cong split del: if_split)
            next
              case good: False
              let ?url = "if ?s = ''/'' then Default_url else In_buf p"
              have "parse_request_line i hc = Some (NO_REQUEST, hc\<lparr>hc_read_buf := ?b2, hc_url := ?url, hc_method := GET,
                  hc_version := In_buf (?v + 1), hc_check_state := CHECK_STATE_HEADER\<rparr>)"
                using z(1) Some p(1) run http good
                by (cases "?s = ''/''") (simp_all add: parse_request_line_def Let_def cong del: if_weak_cong split del: if_split)
              note run = this
              have uo: "url_ok ?url ?b2 (i + length l + 1)" using ok by (simp add: url_ok_def)
              have us: "(case ?url of Null \<Rightarrow> None | In_buf p \<Rightarrow> c_string ?b2 p | Default_url \<Rightarrow> Some ''/index.html'') =
                  Some (if ?s = ''/'' then ''/index.html'' else ?s)" using p(1) by simp
              have rl: "text_request l = Some (Some (if ?s = ''/'' then ''/index.html'' else ?s))"
                unfolding ru rw using good by (simp only: if_False de_Morgan_disj simp_thms)
              show ?thesis
              proof (intro conjI impI)
                assume "text_request l = Some (Some u)"
                then have u: "(if ?s = ''/'' then ''/index.html'' else ?s) = u" using rl by (simp only: option.inject)
                show "\<exists>buf url v. parse_request_line i hc = Some (NO_REQUEST,
                    hc\<lparr>hc_read_buf := buf, hc_url := url, hc_method := GET, hc_version := In_buf v, hc_check_state := CHECK_STATE_HEADER\<rparr>) \<and>
                  length buf = length ?b \<and> (\<forall>k \<ge> i + length l. buf ! k = ?b ! k) \<and> url_ok url buf (i + length l + 1) \<and>
                  (case url of Null \<Rightarrow> None | In_buf p \<Rightarrow> c_string buf p | Default_url \<Rightarrow> Some ''/index.html'') = Some u"
                  using run keep uo us [unfolded u] by blast
              qed (simp_all only: rl option.distinct option.inject)
            qed
          qed
        qed
      qed
    qed
  qed
  show "text_request l = None \<Longrightarrow> parse_request_line i hc = None"
    and "text_request l = Some None \<Longrightarrow> \<exists>hc'. parse_request_line i hc = Some (BAD_REQUEST, hc')"
    and "text_request l = Some (Some u) \<Longrightarrow> \<exists>buf url v. parse_request_line i hc = Some (NO_REQUEST,
        hc\<lparr>hc_read_buf := buf, hc_url := url, hc_method := GET, hc_version := In_buf v, hc_check_state := CHECK_STATE_HEADER\<rparr>) \<and>
      length buf = length (hc_read_buf hc) \<and> (\<forall>k \<ge> i + length l. buf ! k = hc_read_buf hc ! k) \<and>
      url_ok url buf (i + length l + 1) \<and> (case url of Null \<Rightarrow> None | In_buf p \<Rightarrow> c_string buf p | Default_url \<Rightarrow> Some ''/index.html'') = Some u"
    using ex by blast+
qed

end
