(* ===== verification/WebParse.thy ===== *)
theory WebParse
  imports WebConn
begin

text \<open>
  What \<^verbatim>\<open>process_read\<close> of \<^verbatim>\<open>web-5.11-pressure/http_conn.cpp\<close> makes of the bytes received: the state machine over the
  buffer, started as often as bytes arrive, does what the reference \<open>parse_text\<close> does on the text alone.
\<close>

subsection \<open>A header line\<close>

lemma c_string_skip:
  assumes "c_string mem p = Some s"
  shows "c_string mem (p + strspn s accept) = Some (dropWhile (\<lambda>c. c \<in> set accept) s)"
proof -
  have "strspn s accept \<le> length s" by (simp add: strspn_def length_takeWhile_le)
  from c_string_drop [OF assms this] show ?thesis by (simp add: strspn_def dropWhile_eq_drop)
qed

lemma header_run:
  assumes l: "c_string (hc_read_buf hc) i = Some l" "l \<noteq> []" and z: "c_string (hc_read_buf hc) (i + length l + 1) = Some []"
    and cl: "hc_content_length hc = 0"
  shows "\<exists>host. parse_headers i hc = Some (NO_REQUEST, hc\<lparr>hc_host := host, hc_linger := hc_linger hc \<or> keep_alive_line l\<rparr>)"
proof -
  have nz: "CHR 0x00 \<notin> set l" using l(1) by (simp add: c_string_Some)
  have same: "hc = hc\<lparr>hc_host := hc_host hc, hc_linger := hc_linger hc\<rparr>" by simp
  consider (conn) "same_case_n l ''Connection:'' 11"
    | (len) "\<not> same_case_n l ''Connection:'' 11" "same_case_n l ''Content-Length'' 15"
    | (host) "\<not> same_case_n l ''Connection:'' 11" "\<not> same_case_n l ''Content-Length'' 15" "same_case_n l ''Host:'' 5"
    | (other) "\<not> same_case_n l ''Connection:'' 11" "\<not> same_case_n l ''Content-Length'' 15" "\<not> same_case_n l ''Host:'' 5"
    by blast
  then show ?thesis
  proof cases
    case conn
    have "11 \<le> length l" by (rule same_case_n_length [OF conn]) simp_all
    note s1 = c_string_drop [OF l(1) this]
    note s2 = c_string_skip [OF s1, of blank]
    have "parse_headers i hc = Some (NO_REQUEST, if keep_alive_line l then hc\<lparr>hc_linger := True\<rparr> else hc)"
      using conn l s1 s2 by (simp add: parse_headers_def keep_alive_line_def Let_def)
    then show ?thesis by (intro exI [of _ "hc_host hc"]) (cases hc, simp)
  next
    case len
    have "length l = length ''Content-Length''" by (rule same_case_n_all) (use len(2) nz in \<open>simp_all add: numeral_eq_Suc\<close>)
    then have "length l = 14" by simp
    then have s1: "c_string (hc_read_buf hc) (i + 15) = Some []" using z by (simp add: add.commute)
    have "parse_headers i hc = Some (NO_REQUEST, hc\<lparr>hc_content_length := 0\<rparr>)"
      using len l s1 by (simp add: parse_headers_def Let_def strspn_def atol_def dec_value_def)
    moreover have "\<not> keep_alive_line l" using len(1) by (simp add: keep_alive_line_def)
    ultimately show ?thesis using cl by (intro exI [of _ "hc_host hc"]) (cases hc, simp)
  next
    case host
    have "5 \<le> length l" by (rule same_case_n_length [OF host(3)]) simp_all
    note s1 = c_string_drop [OF l(1) this]
    have "\<not> keep_alive_line l" using host(1) by (simp add: keep_alive_line_def)
    then show ?thesis using host l s1 by (simp add: parse_headers_def Let_def) (cases hc, auto)
  next
    case other
    then have "parse_headers i hc = Some (NO_REQUEST, hc)" using l by (simp add: parse_headers_def Let_def)
    moreover have "\<not> keep_alive_line l" using other(1) by (simp add: keep_alive_line_def)
    ultimately show ?thesis by (intro exI [of _ "hc_host hc"]) simp
  qed
qed

subsection \<open>The file\<close>

definition file_name :: "string \<Rightarrow> string" where
  "file_name u = doc_root @ take (FILENAME_LEN - length doc_root - 1) u"

definition served :: "(string \<Rightarrow> (file_stat \<times> mapping) option) \<Rightarrow> string \<Rightarrow> http_code" where
  "served fs u = (case fs (file_name u) of None \<Rightarrow> NO_RESOURCE
     | Some (stat, m) \<Rightarrow> if \<not> st_roth stat then FORBIDDEN_REQUEST else if st_dir stat then BAD_REQUEST else FILE_REQUEST)"

lemma do_request_run:
  assumes u: "url_string hc = Some u" "CHR 0x00 \<notin> set u"
    and f: "length (hc_real_file hc) = FILENAME_LEN" "hc_real_file hc ! 199 = CHR 0x00"
  shows "\<exists>hc'. do_request fs hc = Some (served fs u, hc') \<and> hc_linger hc' = hc_linger hc \<and> hc_write_idx hc' = hc_write_idx hc \<and>
    (served fs u = FILE_REQUEST \<longrightarrow> fs (file_name u) = Some (hc_file_stat hc', hc_file_address hc'))"
proof -
  let ?d = "length doc_root"
  let ?n = "FILENAME_LEN - ?d - 1"
  let ?file = "overwrite ?d (take ?n (u @ bzero ?n)) (overwrite 0 (doc_root @ [CHR 0x00]) (hc_real_file hc))"
  have d: "?d = 40" "CHR 0x00 \<notin> set doc_root" by (simp_all add: doc_root_def)
  have fl: "?file = doc_root @ take ?n (u @ bzero ?n) @ [CHR 0x00]"
  proof -
    have "drop 199 (hc_real_file hc) = [CHR 0x00]"
      using f by (simp add: FILENAME_LEN_def Cons_nth_drop_Suc [symmetric])
    moreover have "take ?n (u @ bzero ?n) = take ?n u @ bzero (?n - length u)" by (simp add: bzero_def min_def)
    moreover have "min (length u) 159 + (159 - length u) = 159" by simp
    ultimately show ?thesis using f d by (simp add: overwrite_def FILENAME_LEN_def bzero_def)
  qed
  have "c_string ?file 0 = Some (file_name u)"
  proof (cases "?n \<le> length u")
    case True
    then show ?thesis unfolding fl using u(2) d by (auto simp: c_string_def file_name_def takeWhile_append dest: in_set_takeD)
  next
    case False
    then have "take ?n (u @ bzero ?n) = u @ CHR 0x00 # bzero (?n - length u - 1)"
      by (cases "?n - length u") (simp_all add: bzero_def min_def)
    then show ?thesis unfolding fl using u(2) d False by (auto simp: c_string_def file_name_def takeWhile_append)
  qed
  then show ?thesis unfolding do_request_def served_def Let_def u(1)
    by (auto simp: Let_def split: option.splits)
qed

subsection \<open>All lines\<close>

text \<open>After a line has been cut off.\<close>

definition after_line :: "string \<Rightarrow> http_conn \<Rightarrow> http_conn" where
  "after_line l hc = (let j = hc_start_line hc + length l in
     hc\<lparr>hc_checked_idx := j + 2, hc_read_buf := (hc_read_buf hc)[j := CHR 0x00, j + 1 := CHR 0x00], hc_start_line := j + 2\<rparr>)"

lemma rng_nth_cong:
  assumes "length ys = length xs" and "\<And>k. i \<le> k \<Longrightarrow> ys ! k = xs ! k"
  shows "rng i j ys = rng i j xs"
  by (rule nth_equalityI) (use assms in \<open>auto simp: rng_def\<close>)

lemma url_ok_later:
  assumes "url_ok url buf i" and "length buf' = length buf" and "\<And>k. k < i \<Longrightarrow> buf' ! k = buf ! k" and "i \<le> i'"
  shows "url_ok url buf' i' \<and> (\<forall>p. url = In_buf p \<longrightarrow> c_string buf' p = c_string buf p)"
proof (cases url)
  case (In_buf p)
  then obtain s where s: "c_string buf p = Some s" "p + length s < i" using assms(1) by (auto simp: url_ok_def)
  have "c_string buf' p = Some s" by (rule c_string_later [OF s(1) assms(2)]) (use s(2) assms(3) in auto)
  then show ?thesis using In_buf s assms(4) by (auto simp: url_ok_def)
qed (use assms(1) in \<open>auto simp: url_ok_def\<close>)

lemma url_string_ok: "url_ok (hc_url hc) (hc_read_buf hc) i \<Longrightarrow> \<exists>u. url_string hc = Some u \<and> CHR 0x00 \<notin> set u"
  by (cases "hc_url hc") (auto simp: url_ok_def url_string_def dest: c_string_Some [THEN iffD1])

lemma after_line_simps:
  "hc_check_state (after_line l hc) = hc_check_state hc" "hc_linger (after_line l hc) = hc_linger hc"
  "hc_url (after_line l hc) = hc_url hc" "hc_content_length (after_line l hc) = hc_content_length hc"
  "hc_real_file (after_line l hc) = hc_real_file hc" "hc_write_idx (after_line l hc) = hc_write_idx hc"
  "hc_read_idx (after_line l hc) = hc_read_idx hc"
  "hc_start_line (after_line l hc) = hc_start_line hc + length l + 2"
  "hc_checked_idx (after_line l hc) = hc_start_line hc + length l + 2"
  "length (hc_read_buf (after_line l hc)) = length (hc_read_buf hc)"
  by (simp_all add: after_line_def Let_def)

lemma after_line_ok:
  assumes ok: "web_conn_ok hc" and full: "text_line (text_of hc) = Full_line l rest"
  shows "web_conn_ok (after_line l hc)" "text_of (after_line l hc) = rest" "stage_of (after_line l hc) = stage_of hc"
    "c_string (hc_read_buf (after_line l hc)) (hc_start_line hc) = Some l"
    "c_string (hc_read_buf (after_line l hc)) (hc_start_line hc + length l + 1) = Some []"
    "hc_start_line hc + length l + 2 \<le> hc_read_idx hc"
proof -
  let ?i = "hc_start_line hc"
  let ?j = "?i + length l" and ?h = "after_line l hc"
  note f = parse_line_full [OF ok full, unfolded Let_def]
  have buf: "hc_read_buf ?h = (hc_read_buf hc)[?j := CHR 0x00, ?j + 1 := CHR 0x00]" by (simp add: after_line_def Let_def)
  have idx: "?j + 2 \<le> hc_read_idx hc" "hc_read_idx hc \<le> READ_BUFFER_SIZE" "length (hc_read_buf hc) = READ_BUFFER_SIZE"
    using f ok by (auto simp: web_conn_ok_def)
  show rest: "text_of ?h = rest" using f by (simp add: text_of_def buf after_line_simps add.assoc)
  show "c_string (hc_read_buf ?h) ?i = Some l" using f by (simp add: buf)
  show "c_string (hc_read_buf ?h) (?j + 1) = Some []" using f idx by (simp add: c_string_at buf)
  show "?j + 2 \<le> hc_read_idx hc" by (rule idx)
  have nz: "CHR 0x00 \<notin> set rest" using ok text_line_Full [OF full] by (auto simp: web_conn_ok_def)
  have url: "url_ok (hc_url hc) (hc_read_buf ?h) (?j + 2) \<and> (\<forall>p. hc_url hc = In_buf p \<longrightarrow>
      c_string (hc_read_buf ?h) p = c_string (hc_read_buf hc) p)" if "hc_check_state hc = CHECK_STATE_HEADER"
    by (rule url_ok_later [where i = ?i]) (use ok that in \<open>auto simp: web_conn_ok_def buf\<close>)
  have z: "hc_read_buf ?h ! (?j + 1) = CHR 0x00" using idx by (simp add: buf)
  show "web_conn_ok ?h" using ok idx nz rest z url unfolding web_conn_ok_def after_line_simps by (simp add: after_line_simps)
  show "stage_of ?h = stage_of hc" using url
    by (auto simp: stage_of_def url_string_def after_line_simps split: cptr.splits)
qed

lemma process_loop_line:
  assumes ok: "web_conn_ok hc" and full: "text_line (text_of hc) = Full_line l rest"
  shows "process_loop fs LINE_OK hc =
    (if hc_check_state hc = CHECK_STATE_REQUESTLINE
     then do {
       (ret, hc3) \<leftarrow> parse_request_line (hc_start_line hc) (after_line l hc);
       if ret = BAD_REQUEST then Some (BAD_REQUEST, hc3) else process_loop fs LINE_OK hc3 }
     else do {
       (ret, hc3) \<leftarrow> parse_headers (hc_start_line hc) (after_line l hc);
       if ret = BAD_REQUEST then Some (BAD_REQUEST, hc3)
       else if ret = GET_REQUEST then do_request fs hc3 else process_loop fs LINE_OK hc3 })"
proof -
  have c: "hc_check_state hc \<noteq> CHECK_STATE_CONTENT" using ok by (simp add: web_conn_ok_def)
  have run: "parse_line hc = Some (LINE_OK, hc\<lparr>hc_checked_idx := hc_start_line hc + length l + 2,
      hc_read_buf := (hc_read_buf hc)[hc_start_line hc + length l := CHR 0x00, hc_start_line hc + length l + 1 := CHR 0x00]\<rparr>)"
    using parse_line_full [OF ok full] unfolding Let_def by simp
  show ?thesis
    by (subst process_loop.simps) (use c in \<open>cases "hc_check_state hc"; simp add: run Let_def after_line_def\<close>)
qed

subsection \<open>The parser against the reference\<close>

definition agrees :: "(string \<Rightarrow> (file_stat \<times> mapping) option) \<Rightarrow> nat \<Rightarrow> outcome \<Rightarrow> (http_code \<times> http_conn) option \<Rightarrow> bool" where
  "agrees fs n out res \<longleftrightarrow> (case out of
     Stops \<Rightarrow> res = None
   | Waits st t \<Rightarrow> \<exists>hc. res = Some (NO_REQUEST, hc) \<and> web_conn_ok hc \<and> stage_of hc = st \<and> text_of hc = t \<and> hc_read_idx hc = n
   | Bad \<Rightarrow> \<exists>hc. res = Some (BAD_REQUEST, hc)
   | Request u k \<Rightarrow> \<exists>hc. res = Some (served fs u, hc) \<and> hc_linger hc = k \<and>
       (served fs u = FILE_REQUEST \<longrightarrow> fs (file_name u) = Some (hc_file_stat hc, hc_file_address hc)))"

lemma request_line_ok:
  assumes ok: "web_conn_ok hc" and full: "text_line (text_of hc) = Full_line l rest"
    and st: "hc_check_state hc = CHECK_STATE_REQUESTLINE" and u: "text_request l = Some (Some u)"
  shows "\<exists>hc'. parse_request_line (hc_start_line hc) (after_line l hc) = Some (NO_REQUEST, hc') \<and> web_conn_ok hc' \<and>
    stage_of hc' = Among u False \<and> text_of hc' = rest \<and> hc_read_idx hc' = hc_read_idx hc"
proof -
  let ?h = "after_line l hc" and ?i = "hc_start_line hc"
  note a = after_line_ok [OF ok full]
  obtain buf url v where r: "parse_request_line ?i ?h = Some (NO_REQUEST,
        ?h\<lparr>hc_read_buf := buf, hc_url := url, hc_method := GET, hc_version := In_buf v, hc_check_state := CHECK_STATE_HEADER\<rparr>)"
    and b: "length buf = length (hc_read_buf ?h)" "\<forall>k \<ge> ?i + length l. buf ! k = hc_read_buf ?h ! k"
      "url_ok url buf (?i + length l + 1)"
      "(case url of Null \<Rightarrow> None | In_buf p \<Rightarrow> c_string buf p | Default_url \<Rightarrow> Some ''/index.html'') = Some u"
    using request_line_run(3) [OF a(4) u] by blast
  let ?h' = "?h\<lparr>hc_read_buf := buf, hc_url := url, hc_method := GET, hc_version := In_buf v, hc_check_state := CHECK_STATE_HEADER\<rparr>"
  have t: "text_of ?h' = rest"
  proof -
    have "rng (hc_start_line ?h) (hc_read_idx ?h) buf = rng (hc_start_line ?h) (hc_read_idx ?h) (hc_read_buf ?h)"
      by (rule rng_nth_cong) (use b(1,2) in \<open>auto simp: after_line_simps\<close>)
    then show ?thesis using a(2) by (simp add: text_of_def)
  qed
  have "url_ok url buf (hc_start_line ?h)"
    using url_ok_later [OF b(3), of buf "hc_start_line ?h"] by (simp add: after_line_simps)
  moreover have "buf ! (hc_start_line ?h - 1) = hc_read_buf ?h ! (hc_start_line ?h - 1)" using b(2) by (simp add: after_line_simps)
  ultimately have "web_conn_ok ?h'" using a(1,2) t b(1) st unfolding web_conn_ok_def by (simp add: after_line_simps)
  moreover have "stage_of ?h' = Among u False"
    using b(4) ok st by (cases url) (simp_all add: stage_of_def url_string_def after_line_simps web_conn_ok_def)
  moreover have "hc_read_idx ?h' = hc_read_idx hc" by (simp add: after_line_simps)
  ultimately show ?thesis using r t by blast
qed

lemma process_loop_stops:
  assumes ok: "web_conn_ok hc" and n: "\<forall>l rest. text_line (text_of hc) \<noteq> Full_line l rest"
  shows "\<exists>hc'. process_loop fs LINE_OK hc = Some (NO_REQUEST, hc') \<and> web_conn_ok hc' \<and> stage_of hc' = stage_of hc \<and>
    text_of hc' = text_of hc \<and> hc_read_idx hc' = hc_read_idx hc"
proof -
  obtain st j where p: "parse_line hc = Some (st, hc\<lparr>hc_checked_idx := j\<rparr>)" "st \<noteq> LINE_OK" "web_conn_ok (hc\<lparr>hc_checked_idx := j\<rparr>)"
    using parse_line_none [OF ok n] by blast
  have "process_loop fs LINE_OK hc = Some (NO_REQUEST, hc\<lparr>hc_checked_idx := j\<rparr>)"
    by (subst process_loop.simps) (use p ok in \<open>simp add: web_conn_ok_def\<close>)
  then show ?thesis using p(3) by (cases "hc_url hc") (simp_all add: stage_of_def url_string_def text_of_def)
qed

lemma process_loop_text:
  "web_conn_ok hc \<Longrightarrow> stage_of hc = st \<Longrightarrow> text_of hc = t \<Longrightarrow> agrees fs (hc_read_idx hc) (parse_text st t) (process_loop fs LINE_OK hc)"
proof (induction st t arbitrary: hc rule: parse_text.induct)
  case (1 st t)
  note ok = \<open>web_conn_ok hc\<close> and tx = \<open>text_of hc = t\<close>
  have c: "hc_check_state hc \<noteq> CHECK_STATE_CONTENT" using ok by (simp add: web_conn_ok_def)
  note pt = parse_text.simps [of _ t]
  show ?case
  proof (cases "text_line t")
    case (Full_line l rest)
    note full = Full_line [folded tx]
    note a = after_line_ok [OF ok full] and step = process_loop_line [OF ok full, of fs]
    show ?thesis
    proof (cases "hc_check_state hc = CHECK_STATE_REQUESTLINE")
      case True
      then have st: "st = Before" using 1(4) by (simp add: stage_of_def)
      consider (stops) "text_request l = None" | (bad) "text_request l = Some None" | (good) u where "text_request l = Some (Some u)"
        by (cases "text_request l") auto
      then show ?thesis
      proof cases
        case stops
        then show ?thesis using request_line_run(1) [OF a(4)] True step st Full_line
          by (simp add: pt agrees_def)
      next
        case bad
        then show ?thesis using request_line_run(2) [OF a(4)] True step st Full_line
          by (auto simp: pt agrees_def)
      next
        case good
        obtain hc' where h: "parse_request_line (hc_start_line hc) (after_line l hc) = Some (NO_REQUEST, hc')" "web_conn_ok hc'"
          "stage_of hc' = Among u False" "text_of hc' = rest" "hc_read_idx hc' = hc_read_idx hc"
          using request_line_ok [OF ok full True good] by blast
        have "agrees fs (hc_read_idx hc) (parse_text (Among u False) rest) (process_loop fs LINE_OK hc')"
          using 1(1) [OF Full_line st good refl h(2-4)] h(5) by simp
        then show ?thesis using step True h(1) st Full_line good by (simp add: pt)
      qed
    next
      case False
      then have hdr: "hc_check_state hc = CHECK_STATE_HEADER" using c by (cases "hc_check_state hc") auto
      let ?h = "after_line l hc"
      obtain u where u: "url_string hc = Some u" "CHR 0x00 \<notin> set u" "st = Among u (hc_linger hc)"
        using url_string_ok [of hc "hc_start_line hc"] ok hdr 1(4) by (auto simp: web_conn_ok_def stage_of_def)
      have st: "stage_of ?h = Among u (hc_linger hc)" using a(3) u(3) 1(4) by simp
      have cl: "hc_content_length ?h = 0" using ok by (simp add: web_conn_ok_def after_line_simps)
      show ?thesis
      proof (cases "l = []")
        case True
        have us: "url_string ?h = Some u"
        proof -
          have "url_ok (hc_url ?h) (hc_read_buf ?h) (hc_start_line ?h)" using a(1) hdr by (simp add: web_conn_ok_def after_line_simps)
          then obtain u' where "url_string ?h = Some u'" using url_string_ok by blast
          then show ?thesis using st hdr by (simp add: stage_of_def after_line_simps)
        qed
        have "parse_headers (hc_start_line hc) ?h = Some (GET_REQUEST, ?h)"
          using a(4) cl True by (simp add: parse_headers_def)
        then have run: "process_loop fs LINE_OK hc = do_request fs ?h" using step False by simp
        have "\<exists>hc'. do_request fs ?h = Some (served fs u, hc') \<and> hc_linger hc' = hc_linger ?h \<and> hc_write_idx hc' = hc_write_idx ?h \<and>
            (served fs u = FILE_REQUEST \<longrightarrow> fs (file_name u) = Some (hc_file_stat hc', hc_file_address hc'))"
          by (rule do_request_run [OF us u(2)]) (use a(1) in \<open>simp_all add: web_conn_ok_def\<close>)
        then show ?thesis unfolding run using u(3) True Full_line by (auto simp: pt agrees_def after_line_simps)
      next
        case l: False
        obtain host where h: "parse_headers (hc_start_line hc) ?h =
            Some (NO_REQUEST, ?h\<lparr>hc_host := host, hc_linger := hc_linger ?h \<or> keep_alive_line l\<rparr>)"
          using header_run [OF a(4) l a(5) cl] by blast
        let ?h' = "?h\<lparr>hc_host := host, hc_linger := hc_linger ?h \<or> keep_alive_line l\<rparr>"
        have "web_conn_ok ?h'" using a(1) hdr by (simp add: web_conn_ok_def text_of_def after_line_simps)
        moreover have "stage_of ?h' = Among u (hc_linger hc \<or> keep_alive_line l)"
          using st hdr by (cases "hc_url hc") (simp_all add: stage_of_def url_string_def after_line_simps)
        moreover have "text_of ?h' = rest" using a(2) by (simp add: text_of_def)
        moreover have "hc_read_idx ?h' = hc_read_idx hc" by (simp add: after_line_simps)
        ultimately have "agrees fs (hc_read_idx hc) (parse_text (Among u (hc_linger hc \<or> keep_alive_line l)) rest) (process_loop fs LINE_OK ?h')"
          using 1(2) [OF Full_line u(3) l, of ?h'] by simp
        then show ?thesis using step False h u(3) Full_line l by (simp add: pt)
      qed
    qed
  next
    case Open_line
    then show ?thesis using process_loop_stops [OF ok, of fs] 1(4,5) by (simp add: pt agrees_def)
  next
    case Bad_line
    then show ?thesis using process_loop_stops [OF ok, of fs] 1(4,5) by (simp add: pt agrees_def)
  qed
qed

subsection \<open>Requests in pieces\<close>

text \<open>What the server does with the pieces as they arrive, until it has something to answer.\<close>

fun feed_pieces :: "(string \<Rightarrow> (file_stat \<times> mapping) option) \<Rightarrow> http_conn \<Rightarrow> string list \<Rightarrow> (http_code \<times> http_conn) option" where
  "feed_pieces fs hc [] = Some (NO_REQUEST, hc)"
| "feed_pieces fs hc (c # cs) =
     (let (ok, hc1) = http_read (hc\<lparr>hc_recv := [Data c]\<rparr>)
      in if \<not> ok then Some (CLOSED_CONNECTION, hc1)
         else do {
           (ret, hc2) \<leftarrow> process_read fs hc1;
           if ret = NO_REQUEST then feed_pieces fs hc2 cs else Some (ret, hc2) })"

lemma read_piece:
  assumes ok: "web_conn_ok hc" and c: "c \<noteq> []" "CHR 0x00 \<notin> set c" and room: "hc_read_idx hc + length c < READ_BUFFER_SIZE"
  shows "\<exists>hc1. http_read (hc\<lparr>hc_recv := [Data c]\<rparr>) = (True, hc1) \<and> web_conn_ok hc1 \<and> stage_of hc1 = stage_of hc \<and>
    text_of hc1 = text_of hc @ c \<and> hc_read_idx hc1 = hc_read_idx hc + length c"
proof -
  let ?i = "hc_read_idx hc" and ?b = "hc_read_buf hc"
  let ?buf = "overwrite ?i c ?b"
  let ?h = "hc\<lparr>hc_recv := [], hc_read_buf := ?buf, hc_read_idx := ?i + length c\<rparr>"
  have idx: "length ?b = READ_BUFFER_SIZE" "hc_start_line hc \<le> hc_checked_idx hc" "hc_checked_idx hc \<le> ?i"
    using ok by (auto simp: web_conn_ok_def)
  have "sys_recv (READ_BUFFER_SIZE - ?i) [Data c] = (Data c, [])" using c(1) room by (auto simp: sys_recv_def)
  then have "read_loop (hc\<lparr>hc_recv := [Data c]\<rparr>) = read_loop ?h" using c(1) by (subst read_loop.simps) (simp add: Let_def)
  also have "\<dots> = (True, ?h)" using room by (subst read_loop.simps) (simp add: Let_def sys_recv_def)
  finally have r: "http_read (hc\<lparr>hc_recv := [Data c]\<rparr>) = (True, ?h)" using room by (simp add: http_read_def)
  have old: "?buf ! k = ?b ! k" if "k < ?i" for k
    using that room idx by (simp add: overwrite_def nth_append)
  have len: "length ?buf = length ?b" using room idx by (intro length_overwrite) (simp add: less_imp_le)
  have t: "text_of ?h = text_of hc @ c" using room idx by (simp add: text_of_def rng_append_overwrite)
  have "rng (hc_start_line hc) (hc_checked_idx hc) ?buf = rng (hc_start_line hc) (hc_checked_idx hc) ?b"
    using idx room by (intro rng_overwrite_before) simp_all
  moreover have "url_ok (hc_url hc) ?buf (hc_start_line hc) \<and> (\<forall>p. hc_url hc = In_buf p \<longrightarrow> c_string ?buf p = c_string ?b p)"
    if "hc_check_state hc = CHECK_STATE_HEADER"
    by (rule url_ok_later [where i = "hc_start_line hc" and buf = ?b]) (use ok that old len in \<open>auto simp: web_conn_ok_def\<close>)
  ultimately have "web_conn_ok ?h \<and> stage_of ?h = stage_of hc"
    using ok t c(2) old [of "hc_start_line hc - 1"] len room idx unfolding web_conn_ok_def stage_of_def url_string_def
    by (cases "hc_url hc") simp_all
  then show ?thesis using r t by simp
qed

lemma parse_text_waits: "parse_text st t = Waits st' t' \<Longrightarrow> parse_text st' t' = Waits st' t'"
  using parse_text_append [of st t st' t' "[]"] by simp

lemma feed_text:
  "web_conn_ok hc \<Longrightarrow> parse_text (stage_of hc) (text_of hc) = Waits (stage_of hc) (text_of hc) \<Longrightarrow> \<forall>c \<in> set cs. c \<noteq> [] \<and> CHR 0x00 \<notin> set c \<Longrightarrow>
   hc_read_idx hc + length (concat cs) < READ_BUFFER_SIZE \<Longrightarrow>
   agrees fs (hc_read_idx hc + length (concat cs)) (parse_text (stage_of hc) (text_of hc @ concat cs)) (feed_pieces fs hc cs)"
proof (induction cs arbitrary: hc)
  case Nil
  then show ?case by (simp add: agrees_def)
next
  case (Cons c cs)
  obtain hc1 where r: "http_read (hc\<lparr>hc_recv := [Data c]\<rparr>) = (True, hc1)" "web_conn_ok hc1" "stage_of hc1 = stage_of hc"
    "text_of hc1 = text_of hc @ c" "hc_read_idx hc1 = hc_read_idx hc + length c"
    using read_piece [of hc c] Cons.prems by auto
  let ?o = "parse_text (stage_of hc) (text_of hc @ c)"
  have a: "agrees fs (hc_read_idx hc1) ?o (process_read fs hc1)"
    unfolding process_read_def by (rule process_loop_text) (use r in auto)
  note app = parse_text_append [where st = "stage_of hc" and t = "text_of hc @ c" and ?t2.0 = "concat cs"]
  show ?case
  proof (cases ?o)
    case (Waits st t)
    then obtain hc2 where h: "process_read fs hc1 = Some (NO_REQUEST, hc2)" "web_conn_ok hc2" "stage_of hc2 = st" "text_of hc2 = t"
      "hc_read_idx hc2 = hc_read_idx hc1" using a by (auto simp: agrees_def)
    have "parse_text st t = Waits st t" using parse_text_waits [OF Waits] .
    then have "agrees fs (hc_read_idx hc2 + length (concat cs)) (parse_text (stage_of hc2) (text_of hc2 @ concat cs)) (feed_pieces fs hc2 cs)"
      using Cons.IH [OF h(2)] h r(5) Cons.prems(3,4) by simp
    then show ?thesis using app Waits h r(1,5) by (simp add: add.assoc)
  next
    case Stops
    then show ?thesis using app a r(1) by (simp add: agrees_def)
  next
    case Bad
    then show ?thesis using app a r(1) by (auto simp: agrees_def)
  next
    case (Request u k)
    have "served fs u \<noteq> NO_REQUEST" by (auto simp: served_def split: option.splits)
    then show ?thesis using Request app a r(1) by (auto simp: agrees_def)
  qed
qed

lemma init_ok:
  "web_conn_ok (http_init hc)" "stage_of (http_init hc) = Before" "text_of (http_init hc) = []" "hc_read_idx (http_init hc) = 0"
  by (simp_all add: http_init_def web_conn_ok_def stage_of_def text_of_def bzero_def READ_BUFFER_SIZE_def FILENAME_LEN_def)


definition request_example :: "string list" where
  "request_example = [''GET / HT'', ''TP/1.1'' @ [CHR 0x0D], [CHR 0x0A] @ ''Connection: keep-alive'' @ crlf, crlf]"

lemma request_example_parse: "parse_text Before (concat request_example) = Request ''/index.html'' True"
  by (simp add: request_example_def crlf_def parse_text.simps text_line_def eol_def text_request_def split_blank_def blank_def
      same_case_def lower_def request_url_def same_case_n_def keep_alive_line_def)


end
