(* ===== verification/WebReply.thy ===== *)
theory WebReply
  imports WebConn
begin

text \<open>
  \<^verbatim>\<open>process_write\<close> and \<^verbatim>\<open>write\<close> of \<^verbatim>\<open>web-5.11-pressure/http_conn.cpp\<close>: the text of the answers and how much of it
  reaches the peer.
\<close>

subsection \<open>Writing into the buffer\<close>

definition wrote :: "http_conn \<Rightarrow> string \<Rightarrow> bool" where
  "wrote hc t \<longleftrightarrow> length (hc_write_buf hc) = WRITE_BUFFER_SIZE \<and> hc_write_idx hc = length t \<and>
     take (length t) (hc_write_buf hc) = t"

definition put :: "string \<Rightarrow> http_conn \<Rightarrow> http_conn" where
  "put s hc = hc\<lparr>hc_write_buf := overwrite (hc_write_idx hc) (s @ [CHR 0x00]) (hc_write_buf hc), hc_write_idx := hc_write_idx hc + length s\<rparr>"

lemma put_simps [simp]:
  "hc_linger (put s hc) = hc_linger hc" "hc_file_stat (put s hc) = hc_file_stat hc" "hc_file_address (put s hc) = hc_file_address hc"
  "hc_writev (put s hc) = hc_writev hc" "hc_out (put s hc) = hc_out hc" "hc_sockfd (put s hc) = hc_sockfd hc"
  by (simp_all add: put_def)

lemma add_response_put:
  assumes "wrote hc t" and "length t + length s < WRITE_BUFFER_SIZE - 1"
  shows "add_response s hc = (True, put s hc)" and "wrote (put s hc) (t @ s)"
proof -
  have w: "length (hc_write_buf hc) = 2048" "hc_write_idx hc = length t" "take (length t) (hc_write_buf hc) = t"
    using assms(1) by (auto simp: wrote_def WRITE_BUFFER_SIZE_def)
  have l: "length t + length s < 2047" using assms(2) by (simp add: WRITE_BUFFER_SIZE_def)
  show "add_response s hc = (True, put s hc)" using w l
    by (simp add: add_response_def put_def vsnprintf_def Let_def WRITE_BUFFER_SIZE_def)
  show "wrote (put s hc) (t @ s)" using w l by (simp add: wrote_def put_def overwrite_def WRITE_BUFFER_SIZE_def)
qed

definition status_text :: "nat \<Rightarrow> string \<Rightarrow> string" where
  "status_text status title = ''HTTP/1.1 '' @ dec status @ '' '' @ title @ crlf"

definition header_text :: "int \<Rightarrow> bool \<Rightarrow> string" where
  "header_text n k = ''Content-Length: '' @ dec_int n @ crlf @ ''Content-Type:text/html'' @ crlf @
     ''Connection: '' @ (if k then ''keep-alive'' else ''close'') @ crlf @ crlf"

lemma length_crlf [simp]: "length crlf = 2"
  by (simp add: crlf_def)

lemma status_put:
  assumes "wrote hc []" and "length (status_text status title) < WRITE_BUFFER_SIZE - 1"
  shows "snd (add_status_line status title hc) = put (status_text status title) hc"
    and "wrote (put (status_text status title) hc) (status_text status title)"
proof -
  have "add_status_line status title hc = add_response (status_text status title) hc"
    by (simp add: add_status_line_def status_text_def)
  then show "snd (add_status_line status title hc) = put (status_text status title) hc"
    using add_response_put(1) [OF assms(1)] assms(2) by simp
  show "wrote (put (status_text status title) hc) (status_text status title)"
    using add_response_put(2) [OF assms(1)] assms(2) by simp
qed

lemma headers_wrote:
  assumes w: "wrote hc t" and l: "length t + length (header_text n (hc_linger hc)) < WRITE_BUFFER_SIZE - 1"
  shows "wrote (add_headers n hc) (t @ header_text n (hc_linger hc))"
    and "hc_linger (add_headers n hc) = hc_linger hc" "hc_file_stat (add_headers n hc) = hc_file_stat hc"
    "hc_file_address (add_headers n hc) = hc_file_address hc" "hc_writev (add_headers n hc) = hc_writev hc"
    "hc_out (add_headers n hc) = hc_out hc" "hc_sockfd (add_headers n hc) = hc_sockfd hc"
proof -
  let ?k = "if hc_linger hc then ''keep-alive'' else ''close''"
  let ?s1 = "''Content-Length: '' @ dec_int n @ crlf" and ?s2 = "''Content-Type:'' @ ''text/html'' @ crlf"
    and ?s3 = "''Connection: '' @ ?k @ crlf"
  have len: "length t + length ?s1 + length ?s2 + length ?s3 + length crlf < WRITE_BUFFER_SIZE - 1"
    using l by (simp add: header_text_def split del: if_split)
  note p1 = add_response_put [OF w, of ?s1]
  note p2 = add_response_put [OF p1(2), of ?s2]
  note p3 = add_response_put [OF p2(2), of ?s3]
  note p4 = add_response_put [OF p3(2), of crlf]
  have eq: "add_headers n hc = put crlf (put ?s3 (put ?s2 (put ?s1 hc)))"
    using p1(1) p2(1) p3(1) p4(1) len
    by (simp add: add_headers_def add_content_length_def add_content_type_def add_linger_def add_blank_line_def split del: if_split)
  have "wrote (put crlf (put ?s3 (put ?s2 (put ?s1 hc)))) ((((t @ ?s1) @ ?s2) @ ?s3) @ crlf)"
    by (rule p4(2)) (use len in \<open>simp_all split del: if_split\<close>)
  then show "wrote (add_headers n hc) (t @ header_text n (hc_linger hc))"
    unfolding eq by (simp add: header_text_def split del: if_split)
  show "hc_linger (add_headers n hc) = hc_linger hc" "hc_file_stat (add_headers n hc) = hc_file_stat hc"
    "hc_file_address (add_headers n hc) = hc_file_address hc" "hc_writev (add_headers n hc) = hc_writev hc"
    "hc_out (add_headers n hc) = hc_out hc" "hc_sockfd (add_headers n hc) = hc_sockfd hc"
    unfolding eq by simp_all
qed

subsection \<open>The answers\<close>

definition reply :: "http_code \<Rightarrow> string \<Rightarrow> bool \<Rightarrow> string \<times> string" where
  "reply ret content k = (case error_page ret of
     Some (status, title, form) \<Rightarrow> (status_text status title @ header_text (int (length form)) k @ form, [])
   | None \<Rightarrow> (status_text 200 ''OK'' @ header_text (int (length content)) k, content))"

lemma length_dec_int_le: "0 \<le> n \<Longrightarrow> n < 10 ^ m \<Longrightarrow> 0 < m \<Longrightarrow> length (dec_int n) \<le> m"
  using length_dec [of "nat n" m] by (simp add: dec_int_def nat_less_iff)

lemma length_header_text:
  assumes "0 \<le> n" and "n < 2 ^ 31"
  shows "length (header_text n k) \<le> 79"
proof -
  have "length (dec_int n) \<le> 10" by (rule length_dec_int_le) (use assms in simp_all)
  then show ?thesis by (simp add: header_text_def)
qed

lemma error_page_length:
  assumes "error_page ret = Some (status, title, form)"
  shows "length (status_text status title) + length form \<le> 200" and "0 < status"
proof -
  have "length (dec status) \<le> 3" if "status < 1000" by (rule length_dec) (use that in simp_all)
  then show "length (status_text status title) + length form \<le> 200" "0 < status" using assms
    by (cases ret; auto simp: error_page_def status_text_def error_400_form_def error_403_form_def error_404_form_def error_500_form_def)+
qed

text \<open>The connection once the answer is in the buffer.\<close>

definition ready :: "http_conn \<Rightarrow> string \<Rightarrow> string \<Rightarrow> http_conn \<Rightarrow> bool" where
  "ready hc head body hc1 \<longleftrightarrow> wrote hc1 head \<and> iov_text hc1 (hc_iv hc1) = Some (head @ body) \<and> hc_linger hc1 = hc_linger hc \<and>
     hc_file_address hc1 = hc_file_address hc \<and> hc_writev hc1 = hc_writev hc \<and> hc_out hc1 = hc_out hc \<and> hc_sockfd hc1 = hc_sockfd hc"

lemma process_write_error:
  assumes w: "wrote hc []" and e: "error_page ret = Some (status, title, form)"
  shows "\<exists>hc1. process_write ret hc = (True, hc1) \<and> ready hc (fst (reply ret s (hc_linger hc))) [] hc1"
proof -
  let ?t = "status_text status title" and ?n = "int (length form)"
  note el = error_page_length [OF e]
  have hl: "length (header_text ?n (hc_linger hc)) \<le> 79" by (rule length_header_text) (use el in simp_all)
  note s = status_put [OF w, of status title]
  have s1: "snd (add_status_line status title hc) = put ?t hc" "wrote (put ?t hc) ?t"
    using s el by (simp_all add: WRITE_BUFFER_SIZE_def)
  have hb: "length ?t + length (header_text ?n (hc_linger (put ?t hc))) < WRITE_BUFFER_SIZE - 1"
    using el(1) hl by (simp add: WRITE_BUFFER_SIZE_def)
  note h = headers_wrote [OF s1(2) hb]
  let ?h = "add_headers ?n (put ?t hc)"
  have lf: "length (?t @ header_text ?n (hc_linger (put ?t hc))) + length form < WRITE_BUFFER_SIZE - 1"
    using el(1) hl by (simp add: WRITE_BUFFER_SIZE_def)
  note f = add_response_put [OF h(1) lf]
  have "process_write ret hc = (True, (put form ?h)\<lparr>hc_iv := [Iov_buf (hc_write_idx (put form ?h))]\<rparr>)"
    using e s1(1) f(1) by (simp add: process_write_def add_content_def Let_def)
  moreover have "ready hc (fst (reply ret s (hc_linger hc))) [] ((put form ?h)\<lparr>hc_iv := [Iov_buf (hc_write_idx (put form ?h))]\<rparr>)"
    using f(2) h e by (simp add: ready_def wrote_def iov_bytes_def reply_def)
  ultimately show ?thesis by blast
qed

lemma process_write_file:
  assumes w: "wrote hc []" and m: "hc_file_address hc = Mapped s" "length s = st_size (hc_file_stat hc)" "length s < 2 ^ 31"
  shows "\<exists>hc1. process_write FILE_REQUEST hc = (True, hc1) \<and> ready hc (fst (reply FILE_REQUEST s (hc_linger hc))) s hc1"
proof -
  let ?t = "status_text 200 ''OK''" and ?n = "int (length s)"
  have sn: "signed_take_bit 31 (int (st_size (hc_file_stat hc))) = ?n"
    using m(2,3) by (simp add: signed_take_bit_int_eq_self)
  have hl: "length (header_text ?n (hc_linger hc)) \<le> 79" by (rule length_header_text) (use m in simp_all)
  have "length (dec 200) \<le> 3" by (rule length_dec) simp_all
  then have tl: "length ?t \<le> 20" by (simp add: status_text_def)
  note s = status_put [OF w, of 200 "''OK''"]
  have s1: "snd (add_status_line 200 ''OK'' hc) = put ?t hc" "wrote (put ?t hc) ?t"
    using s tl by (simp_all add: WRITE_BUFFER_SIZE_def)
  have hb: "length ?t + length (header_text ?n (hc_linger (put ?t hc))) < WRITE_BUFFER_SIZE - 1"
    using tl hl by (simp add: WRITE_BUFFER_SIZE_def)
  note h = headers_wrote [OF s1(2) hb]
  let ?h = "add_headers ?n (put ?t hc)"
  have "process_write FILE_REQUEST hc = (True, ?h\<lparr>hc_iv := [Iov_buf (hc_write_idx ?h), Iov_file (length s)]\<rparr>)"
    using s1(1) h(3) sn m(2) by (simp add: process_write_def error_page_def Let_def)
  moreover have "ready hc (fst (reply FILE_REQUEST s (hc_linger hc))) s (?h\<lparr>hc_iv := [Iov_buf (hc_write_idx ?h), Iov_file (length s)]\<rparr>)"
    using h m by (simp add: ready_def wrote_def iov_bytes_def reply_def error_page_def)
  ultimately show ?thesis by blast
qed

lemma http_write_once:
  assumes r: "ready hc head body hc1" and a: "hc_writev hc = Sent n # as" "length head \<le> n" "head \<noteq> []"
  shows "\<exists>hc2. http_write (hc1, re) = Some (hc_linger hc, hc2, modfd (hc_sockfd hc) Ep_in re) \<and>
    hc_out hc2 = hc_out hc @ take n (head @ body) \<and> hc_file_address hc2 = hc_file_address hc"
proof -
  let ?h = "hc1\<lparr>hc_writev := as, hc_out := hc_out hc @ take n (head @ body)\<rparr>"
  have w: "hc_write_idx hc1 = length head" "hc_write_idx hc1 \<noteq> 0" using r a(3) by (auto simp: ready_def wrote_def)
  have s: "sys_writev hc1 = (Sent (min n (length (head @ body))), ?h)" using r a(1) by (simp add: sys_writev_def ready_def)
  have u: "unmap h = h" for h by (cases h) (simp add: unmap_def)
  show ?thesis
    using r a(2) w s u by (simp add: http_write_def write_loop.simps Let_def ready_def http_init_def)
qed

text \<open>C33: the answer to a request is the page of its error or the headers and the file, and one
  \<^verbatim>\<open>writev\<close> that takes at least the headers ends it: what the kernel did not take of the file is never sent,
  although its length has been announced, and the connection goes on or is closed as if all had been sent. The
  mapping of the file stays.\<close>

theorem web_reply:
  assumes w: "wrote hc []" and ret: "error_page ret = None \<longrightarrow> ret = FILE_REQUEST \<and> hc_file_address hc = Mapped s \<and>
      length s = st_size (hc_file_stat hc) \<and> length s < 2 ^ 31"
    and r: "reply ret s (hc_linger hc) = (head, body)" and a: "hc_writev hc = Sent n # as" "length head \<le> n"
  shows "\<exists>hc1 hc2. process_write ret hc = (True, hc1) \<and>
    http_write (hc1, re) = Some (hc_linger hc, hc2, modfd (hc_sockfd hc) Ep_in re) \<and>
    hc_out hc2 = hc_out hc @ take n (head @ body) \<and> hc_file_address hc2 = hc_file_address hc"
proof -
  have head: "head \<noteq> []" using r by (auto simp: reply_def status_text_def split: option.splits)
  obtain hc1 where "process_write ret hc = (True, hc1)" "ready hc head body hc1"
  proof (cases "error_page ret")
    case None
    then show ?thesis using that process_write_file [OF w, of s] ret r by (auto simp: reply_def)
  next
    case (Some e)
    then show ?thesis using that process_write_error [OF w, of ret _ _ _ s] r by (cases e) (auto simp: reply_def)
  qed
  then show ?thesis using http_write_once [OF _ a head] by blast
qed

definition reply_example :: http_conn where
  "reply_example = conn_example\<lparr>hc_file_address := Mapped ''hello'', hc_file_stat := \<lparr>st_size = 5, st_roth = True, st_dir = False\<rparr>,
     hc_linger := True, hc_writev := [Sent (length (fst (reply FILE_REQUEST ''hello'' True)) + 2)]\<rparr>"

definition reactor_example :: reactor where
  "reactor_example = \<lparr>re_watch = [7 \<mapsto> {Ep_out, Ep_et, Ep_oneshot, Ep_rdhup}], re_nonblocking = {7}, re_closed = [], re_user_count = 1\<rparr>"

theorem web_reply_witness:
  "\<exists>hc1 hc2. process_write FILE_REQUEST reply_example = (True, hc1) \<and>
    http_write (hc1, reactor_example) = Some (True, hc2, modfd 7 Ep_in reactor_example) \<and>
    hc_out hc2 = fst (reply FILE_REQUEST ''hello'' True) @ ''he'' \<and> hc_file_address hc2 = Mapped ''hello''"
proof -
  have "wrote reply_example []" by (simp add: wrote_def reply_example_def conn_example_def bzero_def)
  from web_reply [OF this, of FILE_REQUEST "''hello''" "fst (reply FILE_REQUEST ''hello'' True)" "''hello''" _ "[]" reactor_example]
  show ?thesis by (simp add: reply_example_def conn_example_def reply_def error_page_def)
qed

end
