(* ===== verification/WebTimer.thy ===== *)
theory WebTimer
  imports Prelude "HOL-Library.Monad_Syntax"
begin

text \<open>
  \<^verbatim>\<open>web-5.11-pressure/lst_timer.{h,cpp}\<close>: the doubly linked list of connection timers, ordered by expiry.

  The timers are objects of a heap, \<open>prev\<close> and \<open>next\<close> are addresses or null. An operation that follows a
  null or dangling pointer is \<open>None\<close>, and so is a walk along the list that does not end. \<open>timers_ok\<close>
  says which sequence of timers a list holds; each operation refines the one on sequences.
\<close>

record util_timer =
  ut_expire :: int
  ut_user_data :: nat
  ut_prev :: "nat option"
  ut_next :: "nat option"

record sort_timer_lst =
  tl_heap :: "nat \<rightharpoonup> util_timer"
  tl_head :: "nat option"
  tl_tail :: "nat option"

definition sort_timer_lst_new :: "(nat \<rightharpoonup> util_timer) \<Rightarrow> sort_timer_lst" where
  "sort_timer_lst_new h = \<lparr>tl_heap = h, tl_head = None, tl_tail = None\<rparr>"

definition util_timer_new :: "int \<Rightarrow> nat \<Rightarrow> util_timer" where
  "util_timer_new expire user_data = \<lparr>ut_expire = expire, ut_user_data = user_data, ut_prev = None, ut_next = None\<rparr>"

text \<open>Reading through a pointer, writing a field through it, deleting what it points to.\<close>

definition deref :: "nat option \<Rightarrow> sort_timer_lst \<Rightarrow> util_timer option" where
  "deref p l = do { a \<leftarrow> p; tl_heap l a }"

definition put_timer :: "nat option \<Rightarrow> (util_timer \<Rightarrow> util_timer) \<Rightarrow> sort_timer_lst \<Rightarrow> sort_timer_lst option" where
  "put_timer p f l = do { a \<leftarrow> p; t \<leftarrow> tl_heap l a; Some (l\<lparr>tl_heap := (tl_heap l)(a \<mapsto> f t)\<rparr>) }"

definition free_timer :: "nat option \<Rightarrow> sort_timer_lst \<Rightarrow> sort_timer_lst option" where
  "free_timer p l = do { a \<leftarrow> p; t \<leftarrow> tl_heap l a; Some (l\<lparr>tl_heap := (tl_heap l)(a := None)\<rparr>) }"

definition put_next :: "nat option \<Rightarrow> nat option \<Rightarrow> sort_timer_lst \<Rightarrow> sort_timer_lst option" where
  "put_next p q l = put_timer p (\<lambda>t. t\<lparr>ut_next := q\<rparr>) l"

definition put_prev :: "nat option \<Rightarrow> nat option \<Rightarrow> sort_timer_lst \<Rightarrow> sort_timer_lst option" where
  "put_prev p q l = put_timer p (\<lambda>t. t\<lparr>ut_prev := q\<rparr>) l"

text \<open>The walk of the private \<^verbatim>\<open>add_timer\<close>.\<close>

partial_function (option) add_loop :: "nat option \<Rightarrow> nat option \<Rightarrow> nat option \<Rightarrow> sort_timer_lst \<Rightarrow> sort_timer_lst option" where
  "add_loop timer pre_node next_node l =
     (if next_node = None
      then do {
        l1 \<leftarrow> put_next pre_node timer l;
        l2 \<leftarrow> put_prev timer pre_node l1;
        l3 \<leftarrow> put_next timer None l2;
        Some (l3\<lparr>tl_tail := timer\<rparr>) }
      else do {
        t \<leftarrow> deref timer l;
        n \<leftarrow> deref next_node l;
        if ut_expire t < ut_expire n
        then do {
          l1 \<leftarrow> put_next pre_node timer l;
          l2 \<leftarrow> put_prev timer pre_node l1;
          l3 \<leftarrow> put_prev next_node timer l2;
          put_next timer next_node l3 }
        else add_loop timer next_node (ut_next n) l })"

definition add_timer_after :: "nat option \<Rightarrow> nat option \<Rightarrow> sort_timer_lst \<Rightarrow> sort_timer_lst option" where
  "add_timer_after timer lst_head l = do { t \<leftarrow> deref lst_head l; add_loop timer lst_head (ut_next t) l }"

definition add_timer :: "nat option \<Rightarrow> sort_timer_lst \<Rightarrow> sort_timer_lst option" where
  "add_timer timer l =
     (if timer = None then Some l
      else do {
        let l1 = (if tl_head l = None then l\<lparr>tl_head := timer, tl_tail := timer\<rparr> else l);
        t \<leftarrow> deref timer l1;
        h \<leftarrow> deref (tl_head l1) l1;
        if ut_expire t < ut_expire h
        then do {
          l2 \<leftarrow> put_next timer (tl_head l1) l1;
          l3 \<leftarrow> put_prev (tl_head l2) timer l2;
          Some (l3\<lparr>tl_head := timer\<rparr>) }
        else add_timer_after timer (tl_head l1) l1 })"

definition del_timer :: "nat option \<Rightarrow> sort_timer_lst \<Rightarrow> sort_timer_lst option" where
  "del_timer timer l =
     (if timer = None then Some l
      else if timer = tl_head l \<and> timer = tl_tail l
      then free_timer timer (l\<lparr>tl_head := None, tl_tail := None\<rparr>)
      else if timer = tl_head l
      then do {
        h \<leftarrow> deref (tl_head l) l;
        let l1 = l\<lparr>tl_head := ut_next h\<rparr>;
        l2 \<leftarrow> put_prev (tl_head l1) None l1;
        free_timer timer l2 }
      else if timer = tl_tail l
      then do {
        t \<leftarrow> deref (tl_tail l) l;
        let l1 = l\<lparr>tl_tail := ut_prev t\<rparr>;
        l2 \<leftarrow> put_next (tl_tail l1) None l1;
        free_timer timer l2 }
      else do {
        t \<leftarrow> deref timer l;
        l1 \<leftarrow> put_next (ut_prev t) (ut_next t) l;
        t1 \<leftarrow> deref timer l1;
        l2 \<leftarrow> put_prev (ut_next t1) (ut_prev t1) l1;
        free_timer timer l2 })"

definition adjust_timer :: "nat option \<Rightarrow> sort_timer_lst \<Rightarrow> sort_timer_lst option" where
  "adjust_timer timer l =
     (if timer = None then Some l
      else do {
        t \<leftarrow> deref timer l;
        if timer = tl_head l
        then do {
          h \<leftarrow> deref (tl_head l) l;
          let l1 = l\<lparr>tl_head := ut_next h\<rparr>;
          l2 \<leftarrow> put_next timer None l1;
          l3 \<leftarrow> put_prev (tl_head l2) None l2;
          add_timer_after timer (tl_head l3) l3 }
        else do {
          l1 \<leftarrow> put_next (ut_prev t) (ut_next t) l;
          t1 \<leftarrow> deref timer l1;
          l2 \<leftarrow> put_prev (ut_next t1) (ut_prev t1) l1;
          t2 \<leftarrow> deref timer l2;
          add_timer_after timer (ut_next t2) l2 } })"

text \<open>The result also lists the connections closed, in order.\<close>

partial_function (option) tick_loop :: "int \<Rightarrow> nat option \<Rightarrow> sort_timer_lst \<Rightarrow> (nat list \<times> sort_timer_lst) option" where
  "tick_loop cur_time temp l =
     (if temp = None then Some ([], l)
      else do {
        t \<leftarrow> deref temp l;
        if ut_expire t > cur_time then Some ([], l)
        else do {
          h \<leftarrow> deref (tl_head l) l;
          let l1 = l\<lparr>tl_head := ut_next h\<rparr>;
          l2 \<leftarrow> (if tl_head l1 \<noteq> None then put_prev (tl_head l1) None l1 else Some l1);
          l3 \<leftarrow> free_timer temp l2;
          (closed, l4) \<leftarrow> tick_loop cur_time (tl_head l3) l3;
          Some (ut_user_data t # closed, l4) } })"

definition tick :: "int \<Rightarrow> sort_timer_lst \<Rightarrow> (nat list \<times> sort_timer_lst) option" where
  "tick cur_time l = (if tl_head l = None then Some ([], l) else tick_loop cur_time (tl_head l) l)"

partial_function (option) delete_loop :: "nat option \<Rightarrow> sort_timer_lst \<Rightarrow> sort_timer_lst option" where
  "delete_loop temp l =
     (if temp = None then Some l
      else do {
        t \<leftarrow> deref temp l;
        let l1 = l\<lparr>tl_head := ut_next t\<rparr>;
        l2 \<leftarrow> free_timer temp l1;
        delete_loop (tl_head l2) l2 })"

definition sort_timer_lst_delete :: "sort_timer_lst \<Rightarrow> sort_timer_lst option" where
  "sort_timer_lst_delete l = delete_loop (tl_head l) l"

subsection \<open>Lists of timers\<close>

definition first :: "'a list \<Rightarrow> 'a option" where
  "first xs = (case xs of [] \<Rightarrow> None | x # _ \<Rightarrow> Some x)"

lemma first_simps [simp]: "first [] = None" "first (x # xs) = Some x" "(first xs = None) = (xs = [])"
  by (simp_all add: first_def split: list.splits)

text \<open>The nodes \<open>ps\<close> hang together in both directions; what is before the first is left open.\<close>

fun linked :: "(nat \<rightharpoonup> util_timer) \<Rightarrow> nat list \<Rightarrow> bool" where
  "linked h [] \<longleftrightarrow> True"
| "linked h (p # ps) \<longleftrightarrow> (\<exists>t. h p = Some t \<and> ut_next t = first ps) \<and>
     (ps \<noteq> [] \<longrightarrow> (\<exists>u. h (hd ps) = Some u \<and> ut_prev u = Some p)) \<and> linked h ps"

definition expiry :: "(nat \<rightharpoonup> util_timer) \<Rightarrow> nat \<Rightarrow> int" where
  "expiry h p = (case h p of Some t \<Rightarrow> ut_expire t | None \<Rightarrow> 0)"

definition timers_ok :: "nat list \<Rightarrow> sort_timer_lst \<Rightarrow> bool" where
  "timers_ok ps l \<longleftrightarrow> distinct ps \<and> linked (tl_heap l) ps \<and> tl_head l = first ps \<and>
     (ps \<noteq> [] \<longrightarrow> tl_tail l = Some (last ps)) \<and> sorted (map (expiry (tl_heap l)) ps)"

text \<open>The reference: a timer goes behind those that expire no later.\<close>

definition insert_timer :: "(nat \<Rightarrow> int) \<Rightarrow> nat \<Rightarrow> nat list \<Rightarrow> nat list" where
  "insert_timer e p ps = takeWhile (\<lambda>q. e q \<le> e p) ps @ p # dropWhile (\<lambda>q. e q \<le> e p) ps"

lemma linked_dom: "linked h ps \<Longrightarrow> p \<in> set ps \<Longrightarrow> \<exists>t. h p = Some t"
  by (induction ps) auto

lemma linked_cong:
  assumes "\<And>p. p \<in> set ps \<Longrightarrow> h' p = h p"
  shows "linked h' ps = linked h ps"
  using assms
proof (induction ps)
  case (Cons p ps)
  have "linked h' ps = linked h ps" by (rule Cons.IH) (use Cons.prems in simp)
  then show ?case using Cons.prems [of p] Cons.prems by (cases ps) simp_all
qed simp

lemma linked_suffix: "linked h (as @ bs) \<Longrightarrow> linked h bs"
  by (induction as) auto

text \<open>The link before the first node does not matter.\<close>

lemma linked_first_prev:
  assumes "linked h (p # ps)" and "p \<notin> set ps" and "h p = Some t"
  shows "linked (h(p \<mapsto> t\<lparr>ut_prev := x\<rparr>)) (p # ps)"
proof -
  have "linked (h(p \<mapsto> t\<lparr>ut_prev := x\<rparr>)) ps = linked h ps" by (rule linked_cong) (use assms(2) in auto)
  then show ?thesis using assms by (cases ps) auto
qed

text \<open>What an operation on the links leaves alone.\<close>

definition same_data :: "(nat \<rightharpoonup> util_timer) \<Rightarrow> (nat \<rightharpoonup> util_timer) \<Rightarrow> bool" where
  "same_data h h' \<longleftrightarrow> (\<forall>p. map_option (\<lambda>t. (ut_expire t, ut_user_data t)) (h' p) =
     map_option (\<lambda>t. (ut_expire t, ut_user_data t)) (h p))"

lemma same_data_at: "same_data h h' \<Longrightarrow> map_option (\<lambda>t. (ut_expire t, ut_user_data t)) (h' p) =
     map_option (\<lambda>t. (ut_expire t, ut_user_data t)) (h p)"
  by (simp add: same_data_def)

lemma same_data_expiry:
  assumes "same_data h h'"
  shows "expiry h' = expiry h"
proof
  fix p
  have eq: "expiry k p = (case map_option (\<lambda>t. (ut_expire t, ut_user_data t)) (k p) of None \<Rightarrow> 0 | Some (e, u) \<Rightarrow> e)" for k
    by (simp add: expiry_def split: option.splits)
  show "expiry h' p = expiry h p" unfolding eq using assms by (simp only: same_data_def)
qed

lemma same_data_refl [simp]: "same_data h h"
  by (simp add: same_data_def)

lemma same_data_trans: "same_data a b \<Longrightarrow> same_data b c \<Longrightarrow> same_data a c"
  by (simp add: same_data_def)

lemma same_data_upd:
  "h p = Some t \<Longrightarrow> ut_expire t' = ut_expire t \<Longrightarrow> ut_user_data t' = ut_user_data t \<Longrightarrow> same_data h (h(p \<mapsto> t'))"
  by (simp add: same_data_def)

subsection \<open>Inserting\<close>

text \<open>The walk from a node \<open>p\<close> over those behind it, \<open>ps\<close>: the timer goes where it belongs among them.\<close>

lemma add_loop_inserts:
  assumes "linked (tl_heap l) (p # ps)" and "distinct (p # ps)" and "x \<notin> set (p # ps)" and "tl_heap l x = Some t"
  shows "\<exists>l'. add_loop (Some x) (Some p) (first ps) l = Some l' \<and>
    linked (tl_heap l') (p # insert_timer (expiry (tl_heap l)) x ps) \<and> tl_head l' = tl_head l \<and>
    tl_tail l' = (if last (p # insert_timer (expiry (tl_heap l)) x ps) = x then Some x else tl_tail l) \<and>
    same_data (tl_heap l) (tl_heap l') \<and> (\<forall>q. q \<notin> set (x # p # ps) \<longrightarrow> tl_heap l' q = tl_heap l q) \<and>
    (\<forall>u. tl_heap l p = Some u \<longrightarrow> (\<exists>u'. tl_heap l' p = Some u' \<and> ut_prev u' = ut_prev u))"
  using assms
proof (induction ps arbitrary: p)
  case Nil
  obtain u where u: "tl_heap l p = Some u" using Nil by auto
  have px: "p \<noteq> x" using Nil.prems(3) by auto
  let ?h = "(tl_heap l)(p \<mapsto> u\<lparr>ut_next := Some x\<rparr>, x \<mapsto> t\<lparr>ut_prev := Some p, ut_next := None\<rparr>)"
  have "add_loop (Some x) (Some p) None l = Some (l\<lparr>tl_heap := ?h, tl_tail := Some x\<rparr>)"
    using u px Nil.prems(4) by (subst add_loop.simps) (simp add: put_next_def put_prev_def put_timer_def)
  moreover have "same_data (tl_heap l) ?h"
    using u px Nil.prems(4) by (simp add: same_data_def)
  ultimately show ?case using px u by (simp add: insert_timer_def)
next
  case (Cons n ps)
  obtain u where u: "tl_heap l p = Some u" "ut_next u = Some n" using Cons.prems(1) by auto
  obtain v where v: "tl_heap l n = Some v" "ut_next v = first ps" "ut_prev v = Some p"
    using Cons.prems(1) by (simp, elim conjE exE) simp
  have ne: "p \<noteq> x" "n \<noteq> x" "n \<noteq> p" using Cons.prems(2,3) by auto
  have e: "expiry (tl_heap l) x = ut_expire t" "expiry (tl_heap l) n = ut_expire v"
    using Cons.prems(4) v by (simp_all add: expiry_def)
  show ?case
  proof (cases "ut_expire t < ut_expire v")
    case True
    let ?h = "(tl_heap l)(p \<mapsto> u\<lparr>ut_next := Some x\<rparr>, n \<mapsto> v\<lparr>ut_prev := Some x\<rparr>,
        x \<mapsto> t\<lparr>ut_prev := Some p, ut_next := Some n\<rparr>)"
    have "add_loop (Some x) (Some p) (Some n) l = Some (l\<lparr>tl_heap := ?h\<rparr>)"
      using u v ne Cons.prems(4) True
      by (subst add_loop.simps) (simp add: put_next_def put_prev_def put_timer_def deref_def fun_upd_twist)
    moreover have "linked ?h (p # x # n # ps)"
    proof -
      have "linked ?h ps = linked (tl_heap l) ps" by (rule linked_cong) (use Cons.prems(2,3) in auto)
      moreover have "ps \<noteq> [] \<longrightarrow> (\<exists>w. ?h (hd ps) = Some w \<and> ut_prev w = Some n)"
        using Cons.prems(1-3) by (cases ps) auto
      ultimately show ?thesis using ne v Cons.prems(1) by simp
    qed
    moreover have "same_data (tl_heap l) ?h" using u v ne Cons.prems(4) by (simp add: same_data_def)
    moreover have "insert_timer (expiry (tl_heap l)) x (n # ps) = x # n # ps"
      using True e by (simp add: insert_timer_def)
    moreover have "last (n # ps) \<noteq> x" using Cons.prems(3) last_in_set [of "n # ps"] by (metis list.distinct(1) set_subset_Cons subsetD)
    ultimately show ?thesis using ne u by simp
  next
    case False
    then have ins: "insert_timer (expiry (tl_heap l)) x (n # ps) = n # insert_timer (expiry (tl_heap l)) x ps"
      using e by (simp add: insert_timer_def)
    have step: "add_loop (Some x) (Some p) (Some n) l = add_loop (Some x) (Some n) (first ps) l"
      using False v Cons.prems(4) by (subst add_loop.simps) (simp add: deref_def)
    obtain l' where l': "add_loop (Some x) (Some n) (first ps) l = Some l'"
      "linked (tl_heap l') (n # insert_timer (expiry (tl_heap l)) x ps)" "tl_head l' = tl_head l"
      "tl_tail l' = (if last (n # insert_timer (expiry (tl_heap l)) x ps) = x then Some x else tl_tail l)"
      "same_data (tl_heap l) (tl_heap l')" "\<forall>q. q \<notin> set (x # n # ps) \<longrightarrow> tl_heap l' q = tl_heap l q"
      "\<forall>u. tl_heap l n = Some u \<longrightarrow> (\<exists>u'. tl_heap l' n = Some u' \<and> ut_prev u' = ut_prev u)"
      using Cons.IH [of n] Cons.prems by auto
    have "tl_heap l' p = Some u" using l'(6) u Cons.prems(2) ne by auto
    then have "linked (tl_heap l') (p # n # insert_timer (expiry (tl_heap l)) x ps)"
      using l'(2,7) u v by auto
    then show ?thesis unfolding ins first_simps step
      using l' u \<open>tl_heap l' p = Some u\<close> by simp
  qed
qed

lemma insert_timer_sorted: "sorted (map e ps) \<Longrightarrow> sorted (map e (insert_timer e x ps))"
proof (induction ps)
  case (Cons p ps)
  then show ?case
    by (auto simp: insert_timer_def dest: set_takeWhileD set_dropWhileD) 
qed (simp add: insert_timer_def)

lemma insert_timer_set [simp]: "set (insert_timer e x ps) = insert x (set ps)"
proof -
  have "set ps = set (takeWhile (\<lambda>q. e q \<le> e x) ps @ dropWhile (\<lambda>q. e q \<le> e x) ps)" by simp
  then show ?thesis unfolding insert_timer_def set_append by auto
qed

lemma insert_timer_distinct:
  assumes "distinct ps" and "x \<notin> set ps"
  shows "distinct (insert_timer e x ps)"
proof -
  let ?a = "takeWhile (\<lambda>q. e q \<le> e x) ps" and ?b = "dropWhile (\<lambda>q. e q \<le> e x) ps"
  have "distinct (?a @ ?b)" using assms(1) by simp
  then have "distinct ?a" "distinct ?b" "set ?a \<inter> set ?b = {}" unfolding distinct_append by auto
  moreover have "x \<notin> set ?a" "x \<notin> set ?b" using assms(2) by (auto dest: set_takeWhileD set_dropWhileD)
  ultimately show ?thesis by (auto simp: insert_timer_def)
qed

lemma last_insert_timer: "last (p # insert_timer e x ps) = x \<or> last (p # insert_timer e x ps) = last (p # ps)"
proof (cases "dropWhile (\<lambda>q. e q \<le> e x) ps")
  case Nil
  then show ?thesis by (simp add: insert_timer_def)
next
  case (Cons q qs)
  have "last (dropWhile (\<lambda>q. e q \<le> e x) ps) = last ps" using Cons by (induction ps) (auto split: if_splits)
  moreover have "ps \<noteq> []" using Cons by auto
  ultimately show ?thesis using Cons by (simp add: insert_timer_def)
qed

lemma add_timer_ok:
  assumes ok: "timers_ok ps l" and x: "x \<notin> set ps" "tl_heap l x = Some t" "ut_next t = None"
  shows "\<exists>l'. add_timer (Some x) l = Some l' \<and> timers_ok (insert_timer (expiry (tl_heap l)) x ps) l' \<and>
    same_data (tl_heap l) (tl_heap l')"
proof (cases ps)
  case Nil
  let ?l = "l\<lparr>tl_heap := (tl_heap l)(x \<mapsto> t\<lparr>ut_prev := Some x, ut_next := None\<rparr>), tl_head := Some x, tl_tail := Some x\<rparr>"
  have "add_timer (Some x) l = Some ?l"
    using ok Nil x(2,3)
    by (cases l) (simp add: add_timer_def timers_ok_def deref_def add_timer_after_def add_loop.simps put_next_def put_prev_def
        put_timer_def)
  moreover have "same_data (tl_heap l) (tl_heap ?l)" using x(2) by (simp add: same_data_def)
  ultimately show ?thesis using Nil by (simp add: timers_ok_def insert_timer_def)
next
  case (Cons p qs)
  obtain u where u: "tl_heap l p = Some u" "ut_next u = first qs" using ok Cons by (auto simp: timers_ok_def)
  have px: "p \<noteq> x" using x(1) Cons by auto
  have e: "expiry (tl_heap l) x = ut_expire t" "expiry (tl_heap l) p = ut_expire u" using x(2) u by (simp_all add: expiry_def)
  have hd: "tl_head l = Some p" using ok Cons by (simp add: timers_ok_def)
  show ?thesis
  proof (cases "ut_expire t < ut_expire u")
    case True
    let ?l = "l\<lparr>tl_heap := (tl_heap l)(p \<mapsto> u\<lparr>ut_prev := Some x\<rparr>, x \<mapsto> t\<lparr>ut_next := Some p\<rparr>), tl_head := Some x\<rparr>"
    have run: "add_timer (Some x) l = Some ?l"
      using hd True x(2) u px by (simp add: add_timer_def deref_def put_next_def put_prev_def put_timer_def fun_upd_twist)
    have ins: "insert_timer (expiry (tl_heap l)) x ps = x # ps" using True e Cons by (simp add: insert_timer_def)
    have sd: "same_data (tl_heap l) (tl_heap ?l)" using x(2) u px by (simp add: same_data_def)
    have "linked ((tl_heap l)(p \<mapsto> u\<lparr>ut_prev := Some x\<rparr>)) (p # qs)"
      by (rule linked_first_prev) (use ok Cons u in \<open>auto simp: timers_ok_def\<close>)
    moreover have "linked (tl_heap ?l) (p # qs) = linked ((tl_heap l)(p \<mapsto> u\<lparr>ut_prev := Some x\<rparr>)) (p # qs)"
      by (rule linked_cong) (use x(1) Cons in auto)
    ultimately have "linked (tl_heap ?l) (x # p # qs)" using px by simp
    moreover have "sorted (map (expiry (tl_heap l)) (x # ps))"
      using insert_timer_sorted [of "expiry (tl_heap l)" ps x] ok ins by (simp add: timers_ok_def)
    ultimately have "timers_ok (x # ps) ?l"
      using ok x(1) Cons same_data_expiry [OF sd] by (simp add: timers_ok_def)
    then show ?thesis using run ins sd by auto
  next
    case False
    then have ins: "insert_timer (expiry (tl_heap l)) x ps = p # insert_timer (expiry (tl_heap l)) x qs"
      using e Cons by (simp add: insert_timer_def)
    have run: "add_timer (Some x) l = add_loop (Some x) (Some p) (first qs) l"
      using False hd x(2) u by (simp add: add_timer_def add_timer_after_def deref_def)
    obtain l' where l': "add_loop (Some x) (Some p) (first qs) l = Some l'"
      "linked (tl_heap l') (p # insert_timer (expiry (tl_heap l)) x qs)" "tl_head l' = tl_head l"
      "tl_tail l' = (if last (p # insert_timer (expiry (tl_heap l)) x qs) = x then Some x else tl_tail l)"
      "same_data (tl_heap l) (tl_heap l')"
      using add_loop_inserts [of l p qs x t] ok x Cons by (auto simp: timers_ok_def)
    have "tl_tail l' = Some (last (p # insert_timer (expiry (tl_heap l)) x qs))"
      using l'(4) last_insert_timer [of p "expiry (tl_heap l)" x qs] ok Cons by (auto simp: timers_ok_def)
    moreover have "sorted (map (expiry (tl_heap l)) (insert_timer (expiry (tl_heap l)) x ps))"
      by (rule insert_timer_sorted) (use ok in \<open>simp add: timers_ok_def\<close>)
    moreover have "distinct (insert_timer (expiry (tl_heap l)) x ps)"
      by (rule insert_timer_distinct) (use ok x in \<open>auto simp: timers_ok_def\<close>)
    ultimately have "timers_ok (insert_timer (expiry (tl_heap l)) x ps) l'"
      using l' ok Cons same_data_expiry [OF l'(5)] ins by (simp add: timers_ok_def)
    then show ?thesis using run l'(1,5) by auto
  qed
qed

subsection \<open>Removing\<close>

lemma unlink:
  assumes "linked h (as @ b # x # rest)" and "distinct (as @ b # x # rest)"
    and "h b = Some tb" and "h' b = Some (tb\<lparr>ut_next := first rest\<rparr>)"
    and "\<And>q. q \<in> set as \<union> set (tl rest) \<Longrightarrow> h' q = h q"
    and "rest \<noteq> [] \<Longrightarrow> \<exists>tc. h (hd rest) = Some tc \<and> h' (hd rest) = Some (tc\<lparr>ut_prev := Some b\<rparr>)"
  shows "linked h' (as @ b # rest)"
  using assms(1,2,5)
proof (induction as)
  case Nil
  have "linked h' rest"
  proof (cases rest)
    case (Cons c cs)
    then obtain tc where tc: "h c = Some tc" "h' c = Some (tc\<lparr>ut_prev := Some b\<rparr>)" using assms(6) by auto
    have "linked h' cs = linked h cs" by (rule linked_cong) (use Nil.prems(3) Cons in auto)
    then show ?thesis using Nil.prems Cons tc by (cases cs) auto
  qed simp
  then show ?case using assms(4,6) by auto
next
  case (Cons a as)
  have ih: "linked h' (as @ b # rest)" by (rule Cons.IH) (use Cons.prems in auto)
  have "h' a = h a" using Cons.prems(3) by simp
  moreover obtain ta where "h a = Some ta" "ut_next ta = first (as @ b # x # rest)" using Cons.prems(1) by auto
  moreover have "first (as @ b # x # rest) = first (as @ b # rest)" by (cases as) simp_all
  moreover have "\<exists>u. h' (hd (as @ b # rest)) = Some u \<and> ut_prev u = Some a"
    using Cons.prems assms(3,4) by (cases as) auto
  ultimately show ?case using ih by simp
qed

lemma expiry_free: "q \<noteq> x \<Longrightarrow> expiry (h(x := None)) q = expiry h q"
  by (simp add: expiry_def)

lemma sorted_remove: "sorted (map e (as @ x # bs)) \<Longrightarrow> sorted (map e (as @ bs))"
  by (simp add: sorted_append)

lemma same_fields:
  "l\<lparr>tl_heap := h, tl_head := tl_head l, tl_tail := t\<rparr> = l\<lparr>tl_heap := h, tl_tail := t\<rparr>"
  "l\<lparr>tl_heap := h, tl_tail := tl_tail l\<rparr> = l\<lparr>tl_heap := h\<rparr>"
  "l\<lparr>tl_heap := h, tl_head := y, tl_tail := tl_tail l\<rparr> = l\<lparr>tl_heap := h, tl_head := y\<rparr>"
  by (cases l; simp)+

text \<open>Deleting the only timer, the first, the last, and one in between.\<close>

lemma del_timer_ok:
  assumes ok: "timers_ok (as @ x # bs) l"
  shows "\<exists>l'. del_timer (Some x) l = Some l' \<and> timers_ok (as @ bs) l' \<and> tl_heap l' x = None \<and>
    (\<exists>h. same_data (tl_heap l) h \<and> tl_heap l' = h(x := None))"
proof -
  have lk: "linked (tl_heap l) (as @ x # bs)" and d: "distinct (as @ x # bs)" and hd: "tl_head l = first (as @ x # bs)"
    and tl: "tl_tail l = Some (last (as @ x # bs))" and so: "sorted (map (expiry (tl_heap l)) (as @ x # bs))"
    using ok by (auto simp: timers_ok_def)
  obtain tx where tx: "tl_heap l x = Some tx" using linked_dom [OF lk] by auto
  have finish: "timers_ok (as @ bs) (l\<lparr>tl_heap := h(x := None), tl_head := first (as @ bs), tl_tail := t\<rparr>) \<and>
      (\<exists>h'. same_data (tl_heap l) h' \<and> h(x := None) = h'(x := None))"
    if "same_data (tl_heap l) h" "linked h (as @ bs)" "as @ bs \<noteq> [] \<Longrightarrow> t = Some (last (as @ bs))" for h t
  proof -
    have "linked (h(x := None)) (as @ bs) = linked h (as @ bs)" by (rule linked_cong) (use d in auto)
    moreover have ex: "expiry (h(x := None)) q = expiry (tl_heap l) q" if "q \<noteq> x" for q
      using expiry_free [OF that, of h] same_data_expiry [OF \<open>same_data (tl_heap l) h\<close>] by simp
    moreover have "sorted (map (expiry (h(x := None))) (as @ bs))"
    proof -
      have "map (expiry (h(x := None))) (as @ bs) = map (expiry (tl_heap l)) (as @ bs)"
        by (rule map_cong [OF refl], rule ex) (use d in auto)
      then show ?thesis using sorted_remove [OF so] by (simp only:)
    qed
    ultimately have "timers_ok (as @ bs) (l\<lparr>tl_heap := h(x := None), tl_head := first (as @ bs), tl_tail := t\<rparr>)"
      using that d by (simp add: timers_ok_def)
    then show ?thesis using that(1) by blast
  qed
  show ?thesis
  proof (cases as rule: rev_cases)
    case Nil
    show ?thesis
    proof (cases bs)
      case bs: Nil
      then have "del_timer (Some x) l = Some (l\<lparr>tl_heap := (tl_heap l)(x := None), tl_head := None, tl_tail := None\<rparr>)"
        using Nil hd tl tx by (simp add: del_timer_def free_timer_def)
      then show ?thesis using finish [of "tl_heap l" None] Nil bs by simp
    next
      case bs: (Cons b cs)
      then obtain tb where tb: "tl_heap l b = Some tb" using linked_dom [OF lk, of b] by auto
      let ?h = "(tl_heap l)(b \<mapsto> tb\<lparr>ut_prev := None\<rparr>)"
      have nx: "ut_next tx = Some b" using lk Nil bs tx by auto
      have ne: "b \<noteq> x" "tl_tail l \<noteq> Some x" using d tl Nil bs last_in_set [of "b # cs"] by auto
      have "del_timer (Some x) l = Some (l\<lparr>tl_heap := ?h(x := None), tl_head := Some b\<rparr>)"
        using hd Nil tx tb nx ne by (simp add: del_timer_def deref_def put_prev_def put_timer_def free_timer_def)
      moreover have "linked ?h (b # cs)" by (rule linked_first_prev) (use lk d Nil bs tb in auto)
      moreover have "same_data (tl_heap l) ?h" using tb by (simp add: same_data_def)
      ultimately show ?thesis using finish [of ?h "tl_tail l"] Nil bs tl unfolding same_fields by simp
    qed
  next
    case (snoc as' a)
    obtain ta where ta: "tl_heap l a = Some ta" using linked_dom [OF lk, of a] snoc by auto
    have pv: "ut_prev tx = Some a" "ut_next tx = first bs"
    proof -
      have "linked (tl_heap l) (a # x # bs)" using lk snoc linked_suffix [of "tl_heap l" as' "a # x # bs"] by simp
      then show "ut_prev tx = Some a" "ut_next tx = first bs" using tx by auto
    qed
    have ne: "a \<noteq> x" "tl_head l \<noteq> Some x" using d hd snoc by (cases as'; auto)+
    have fh: "first (as @ bs) = tl_head l" using hd snoc by (cases as') simp_all
    have lk': "linked (tl_heap l) (as' @ a # x # bs)" and d': "distinct (as' @ a # x # bs)" using lk d snoc by simp_all
    show ?thesis
    proof (cases bs)
      case Nil
      let ?h = "(tl_heap l)(a \<mapsto> ta\<lparr>ut_next := None\<rparr>)"
      have "del_timer (Some x) l = Some (l\<lparr>tl_heap := ?h(x := None), tl_tail := Some a\<rparr>)"
        using tl Nil tx ta pv ne by (simp add: del_timer_def deref_def put_next_def put_timer_def free_timer_def)
      moreover have "linked ?h (as' @ a # [])"
        by (rule unlink [OF lk' [unfolded Nil] d' [unfolded Nil] ta]) (use d' in auto)
      moreover have "same_data (tl_heap l) ?h" using ta by (simp add: same_data_def)
      ultimately show ?thesis using finish [of ?h "Some a"] Nil snoc unfolding fh same_fields by simp
    next
      case (Cons c cs)
      then obtain tc where tc: "tl_heap l c = Some tc" using linked_dom [OF lk, of c] by auto
      let ?h = "(tl_heap l)(a \<mapsto> ta\<lparr>ut_next := Some c\<rparr>, c \<mapsto> tc\<lparr>ut_prev := Some a\<rparr>)"
      have ne': "c \<noteq> a" "c \<noteq> x" "tl_tail l \<noteq> Some x" using d tl snoc Cons last_in_set [of "c # cs"] by auto
      have "del_timer (Some x) l = Some (l\<lparr>tl_heap := ?h(x := None)\<rparr>)"
        using Cons tx ta tc pv ne ne'
        by (simp add: del_timer_def deref_def put_next_def put_prev_def put_timer_def free_timer_def)
      moreover have "linked ?h (as' @ a # bs)"
        by (rule unlink [OF lk' d' ta]) (use d' Cons tc in auto)
      moreover have "same_data (tl_heap l) ?h" using ta tc ne' by (simp add: same_data_def)
      ultimately show ?thesis using finish [of ?h "tl_tail l"] Cons snoc tl unfolding fh same_fields by simp
    qed
  qed
qed

definition timer_data :: "(nat \<rightharpoonup> util_timer) \<Rightarrow> nat \<Rightarrow> (int \<times> nat) option" where
  "timer_data h p = map_option (\<lambda>t. (ut_expire t, ut_user_data t)) (h p)"

lemma timer_data_same: "same_data h h' \<Longrightarrow> timer_data h' p = timer_data h p"
  by (simp add: timer_data_def same_data_def)

definition user_of :: "(nat \<rightharpoonup> util_timer) \<Rightarrow> nat \<Rightarrow> nat" where
  "user_of h p = (case h p of Some t \<Rightarrow> ut_user_data t | None \<Rightarrow> 0)"

lemma tick_loop_ok:
  assumes "linked (tl_heap l) ps" and "distinct ps" and "tl_head l = first ps"
  shows "\<exists>l'. tick_loop now (first ps) l =
      Some (map (user_of (tl_heap l)) (takeWhile (\<lambda>p. expiry (tl_heap l) p \<le> now) ps), l') \<and>
    linked (tl_heap l') (dropWhile (\<lambda>p. expiry (tl_heap l) p \<le> now) ps) \<and>
    tl_head l' = first (dropWhile (\<lambda>p. expiry (tl_heap l) p \<le> now) ps) \<and> tl_tail l' = tl_tail l \<and>
    (\<forall>p \<in> set (dropWhile (\<lambda>p. expiry (tl_heap l) p \<le> now) ps). expiry (tl_heap l') p = expiry (tl_heap l) p) \<and>
    (\<forall>p \<in> set (takeWhile (\<lambda>p. expiry (tl_heap l) p \<le> now) ps). tl_heap l' p = None) \<and>
    (\<forall>p. p \<notin> set ps \<longrightarrow> tl_heap l' p = tl_heap l p) \<and>
    (\<forall>p. p \<notin> set (takeWhile (\<lambda>p. expiry (tl_heap l) p \<le> now) ps) \<longrightarrow> timer_data (tl_heap l') p = timer_data (tl_heap l) p)"
  using assms
proof (induction ps arbitrary: l)
  case Nil
  then show ?case by (simp add: tick_loop.simps)
next
  case (Cons p ps)
  obtain t where t: "tl_heap l p = Some t" "ut_next t = first ps" using Cons.prems(1) by auto
  have e: "expiry (tl_heap l) p = ut_expire t" using t by (simp add: expiry_def)
  show ?case
  proof (cases "ut_expire t > now")
    case True
    then have "tick_loop now (Some p) l = Some ([], l)" using t by (subst tick_loop.simps) (simp add: deref_def)
    then show ?thesis using True e Cons.prems by simp
  next
    case False
    define h where "h = (if ps = [] then tl_heap l
        else (tl_heap l)(hd ps \<mapsto> the (tl_heap l (hd ps))\<lparr>ut_prev := None\<rparr>))"
    define k where "k = h(p := None)"
    let ?l = "l\<lparr>tl_heap := k, tl_head := first ps\<rparr>"
    have lk: "tl_heap ?l = k" "tl_head ?l = first ps" "tl_tail ?l = tl_tail l" by simp_all
    have pn: "p \<notin> set ps" using Cons.prems(2) by simp
    have step: "tick_loop now (Some p) l =
        do { (closed, l4) \<leftarrow> tick_loop now (first ps) ?l; Some (ut_user_data t # closed, l4) }"
    proof (cases ps)
      case Nil
      then show ?thesis using False t Cons.prems(3)
        by (cases l, subst tick_loop.simps) (simp add: deref_def free_timer_def h_def k_def)
    next
      case (Cons q qs)
      then obtain u where "tl_heap l q = Some u" using Cons.prems(1) by auto
      then show ?thesis using False t Cons.prems(3) Cons pn
        by (cases l, subst tick_loop.simps) (simp add: deref_def free_timer_def h_def k_def put_prev_def put_timer_def)
    qed
    have sd: "same_data (tl_heap l) h" using Cons.prems(1) by (auto simp: h_def same_data_def)
    have lh: "linked h ps"
    proof (cases ps)
      case (Cons q qs)
      then obtain u where u: "tl_heap l q = Some u" using Cons.prems(1) by auto
      have "linked ((tl_heap l)(q \<mapsto> u\<lparr>ut_prev := None\<rparr>)) (q # qs)"
        by (rule linked_first_prev) (use Cons.prems(1,2) Cons u in auto)
      then show ?thesis using Cons u by (simp add: h_def)
    qed simp
    have "linked k ps = linked h ps" by (rule linked_cong) (use pn in \<open>auto simp: k_def\<close>)
    then have lp: "linked (tl_heap ?l) ps" using lh by simp
    have ex: "expiry k q = expiry (tl_heap l) q" "user_of k q = user_of (tl_heap l) q" if "q \<in> set ps" for q
    proof -
      have q: "q \<noteq> p" using that pn by auto
      show "expiry k q = expiry (tl_heap l) q" using expiry_free [OF q, of h] same_data_expiry [OF sd] by (simp add: k_def)
      show "user_of k q = user_of (tl_heap l) q" using q Cons.prems(1) by (auto simp: user_of_def h_def k_def)
    qed
    have tw: "takeWhile (\<lambda>q. expiry k q \<le> now) ps = takeWhile (\<lambda>q. expiry (tl_heap l) q \<le> now) ps"
      "dropWhile (\<lambda>q. expiry k q \<le> now) ps = dropWhile (\<lambda>q. expiry (tl_heap l) q \<le> now) ps"
      by (rule takeWhile_cong [OF refl] dropWhile_cong [OF refl]; simp only: ex)+
    have us: "map (user_of k) (takeWhile P ps) = map (user_of (tl_heap l)) (takeWhile P ps)" for P
      by (rule map_cong [OF refl], rule ex) (rule set_takeWhileD [THEN conjunct1])
    obtain l' where l': "tick_loop now (first ps) ?l =
        Some (map (user_of (tl_heap l)) (takeWhile (\<lambda>q. expiry (tl_heap l) q \<le> now) ps), l')"
      "linked (tl_heap l') (dropWhile (\<lambda>q. expiry (tl_heap l) q \<le> now) ps)"
      "tl_head l' = first (dropWhile (\<lambda>q. expiry (tl_heap l) q \<le> now) ps)" "tl_tail l' = tl_tail l"
      "\<forall>q \<in> set (dropWhile (\<lambda>q. expiry (tl_heap l) q \<le> now) ps). expiry (tl_heap l') q = expiry k q"
      "\<forall>q \<in> set (takeWhile (\<lambda>q. expiry (tl_heap l) q \<le> now) ps). tl_heap l' q = None"
      "\<forall>q. q \<notin> set ps \<longrightarrow> tl_heap l' q = k q"
      "\<forall>q. q \<notin> set (takeWhile (\<lambda>q. expiry (tl_heap l) q \<le> now) ps) \<longrightarrow> timer_data (tl_heap l') q = timer_data k q"
      using Cons.IH [OF lp _ lk(2), unfolded lk tw us] Cons.prems(2) by auto
    have l5: "\<forall>q \<in> set (dropWhile (\<lambda>q. expiry (tl_heap l) q \<le> now) ps). expiry (tl_heap l') q = expiry (tl_heap l) q"
      using l'(5) ex set_dropWhileD by metis
    have td: "timer_data k q = timer_data (tl_heap l) q" if "q \<noteq> p" for q
      using that same_data_at [OF sd, of q] by (simp add: k_def timer_data_def)
    have "user_of (tl_heap l) p = ut_user_data t" using t by (simp add: user_of_def)
    moreover have "tl_heap l' p = None" using l'(7) pn by (simp add: k_def)
    moreover have "\<forall>q. q \<notin> set (p # ps) \<longrightarrow> tl_heap l' q = tl_heap l q" using l'(7) by (auto simp: h_def k_def)
    moreover have "\<forall>q. q \<notin> set (p # takeWhile (\<lambda>q. expiry (tl_heap l) q \<le> now) ps) \<longrightarrow>
        timer_data (tl_heap l') q = timer_data (tl_heap l) q" using l'(8) td by simp
    ultimately show ?thesis using False e step l'(1-4,6) l5 by simp
  qed
qed

lemma tick_ok:
  assumes "timers_ok ps l"
  shows "\<exists>l'. tick now l = Some (map (user_of (tl_heap l)) (takeWhile (\<lambda>p. expiry (tl_heap l) p \<le> now) ps), l') \<and>
    timers_ok (dropWhile (\<lambda>p. expiry (tl_heap l) p \<le> now) ps) l' \<and>
    (\<forall>p \<in> set (takeWhile (\<lambda>p. expiry (tl_heap l) p \<le> now) ps). tl_heap l' p = None) \<and>
    (\<forall>p. p \<notin> set (takeWhile (\<lambda>p. expiry (tl_heap l) p \<le> now) ps) \<longrightarrow> timer_data (tl_heap l') p = timer_data (tl_heap l) p)"
proof (cases ps)
  case Nil
  then show ?thesis using assms by (simp add: tick_def timers_ok_def)
next
  case (Cons p qs)
  let ?P = "\<lambda>p. expiry (tl_heap l) p \<le> now"
  have ok: "linked (tl_heap l) ps" "distinct ps" "tl_head l = first ps" "tl_tail l = Some (last ps)"
    "sorted (map (expiry (tl_heap l)) ps)" using assms Cons by (auto simp: timers_ok_def)
  obtain l' where l': "tick_loop now (first ps) l = Some (map (user_of (tl_heap l)) (takeWhile ?P ps), l')"
    "linked (tl_heap l') (dropWhile ?P ps)" "tl_head l' = first (dropWhile ?P ps)" "tl_tail l' = tl_tail l"
    "\<forall>p \<in> set (dropWhile ?P ps). expiry (tl_heap l') p = expiry (tl_heap l) p"
    "\<forall>p \<in> set (takeWhile ?P ps). tl_heap l' p = None"
    "\<forall>p. p \<notin> set (takeWhile ?P ps) \<longrightarrow> timer_data (tl_heap l') p = timer_data (tl_heap l) p"
    using tick_loop_ok [OF ok(1,2,3), of now] by blast
  have "tl_tail l' = Some (last (dropWhile ?P ps))" if "dropWhile ?P ps \<noteq> []"
  proof -
    have "last (dropWhile ?P ps) = last ps" using that by (induction ps) (auto split: if_splits)
    then show ?thesis using l'(4) ok(4) by simp
  qed
  moreover have "sorted (map (expiry (tl_heap l')) (dropWhile ?P ps))"
  proof -
    have eq: "map (expiry (tl_heap l')) (dropWhile ?P ps) = map (expiry (tl_heap l)) (dropWhile ?P ps)"
      using l'(5) by simp
    have "sorted (map (expiry (tl_heap l)) (takeWhile ?P ps) @ map (expiry (tl_heap l)) (dropWhile ?P ps))"
      using ok(5) by (simp flip: map_append)
    then show ?thesis unfolding eq sorted_append by blast
  qed
  moreover have "distinct (dropWhile ?P ps)" using ok(2) by simp
  ultimately have "timers_ok (dropWhile ?P ps) l'" using l'(2,3) by (simp add: timers_ok_def)
  moreover have "tick now l = tick_loop now (first ps) l" using ok(3) Cons by (simp add: tick_def)
  ultimately show ?thesis using l'(1,6,7) by auto
qed

lemma delete_loop_ok:
  "linked (tl_heap l) ps \<Longrightarrow> distinct ps \<Longrightarrow>
    \<exists>l'. delete_loop (first ps) l = Some l' \<and> (\<forall>p \<in> set ps. tl_heap l' p = None) \<and>
      (\<forall>p. p \<notin> set ps \<longrightarrow> tl_heap l' p = tl_heap l p)"
proof (induction ps arbitrary: l)
  case Nil
  then show ?case by (simp add: delete_loop.simps)
next
  case (Cons p ps)
  obtain t where t: "tl_heap l p = Some t" "ut_next t = first ps" using Cons.prems(1) by auto
  let ?l = "l\<lparr>tl_heap := (tl_heap l)(p := None), tl_head := first ps\<rparr>"
  have "delete_loop (Some p) l = delete_loop (first ps) ?l"
    using t by (cases l, subst delete_loop.simps) (simp add: deref_def free_timer_def)
  moreover have "linked (tl_heap ?l) ps"
  proof -
    have "linked (tl_heap ?l) ps = linked (tl_heap l) ps" by (rule linked_cong) (use Cons.prems(2) in auto)
    then show ?thesis using Cons.prems(1) by simp
  qed
  moreover obtain l' where "delete_loop (first ps) ?l = Some l'" "\<forall>q \<in> set ps. tl_heap l' q = None"
    "\<forall>q. q \<notin> set ps \<longrightarrow> tl_heap l' q = tl_heap ?l q"
    using Cons.IH [OF calculation(2)] Cons.prems(2) by auto
  ultimately show ?case using Cons.prems(2) by simp
qed

text \<open>C34: the timer list is a sorted sequence. Adding a new timer puts it behind those that expire no
  later and before the rest; deleting one that is in the list, wherever it stands, takes out just that one and frees
  it; a tick closes the connections that are due, in the order of their expiry, and keeps the others; the
  destructor frees every timer. No null or freed pointer is followed.\<close>

theorem timer_list_refines:
  assumes "timers_ok ps l"
  shows "(x \<notin> set ps \<longrightarrow> tl_heap l x = Some (util_timer_new e c) \<longrightarrow>
      (\<exists>l'. add_timer (Some x) l = Some l' \<and> timers_ok (insert_timer (expiry (tl_heap l)) x ps) l')) \<and>
    (x \<in> set ps \<longrightarrow> (\<exists>l'. del_timer (Some x) l = Some l' \<and> timers_ok (remove1 x ps) l' \<and> tl_heap l' x = None)) \<and>
    (\<exists>l'. tick now l = Some (map (user_of (tl_heap l)) (takeWhile (\<lambda>p. expiry (tl_heap l) p \<le> now) ps), l') \<and>
      timers_ok (dropWhile (\<lambda>p. expiry (tl_heap l) p \<le> now) ps) l') \<and>
    (\<exists>l'. sort_timer_lst_delete l = Some l' \<and> (\<forall>p \<in> set ps. tl_heap l' p = None))"
proof (intro conjI impI)
  show "\<exists>l'. add_timer (Some x) l = Some l' \<and> timers_ok (insert_timer (expiry (tl_heap l)) x ps) l'"
    if "x \<notin> set ps" "tl_heap l x = Some (util_timer_new e c)"
    using add_timer_ok [OF assms that] by (auto simp: util_timer_new_def)
  show "\<exists>l'. del_timer (Some x) l = Some l' \<and> timers_ok (remove1 x ps) l' \<and> tl_heap l' x = None" if x: "x \<in> set ps"
  proof -
    obtain as bs where ps: "ps = as @ x # bs" "x \<notin> set as" using split_list_first [OF x] by auto
    then show ?thesis using del_timer_ok [of as x bs l] assms by (auto simp: remove1_append)
  qed
  show "\<exists>l'. tick now l = Some (map (user_of (tl_heap l)) (takeWhile (\<lambda>p. expiry (tl_heap l) p \<le> now) ps), l') \<and>
      timers_ok (dropWhile (\<lambda>p. expiry (tl_heap l) p \<le> now) ps) l'"
    using tick_ok [OF assms] by blast
  have "linked (tl_heap l) ps" "distinct ps" "tl_head l = first ps" using assms by (auto simp: timers_ok_def)
  from delete_loop_ok [OF this(1,2)] this(3)
  show "\<exists>l'. sort_timer_lst_delete l = Some l' \<and> (\<forall>p \<in> set ps. tl_heap l' p = None)"
    by (auto simp: sort_timer_lst_delete_def)
qed

theorem timer_list_refines_witness:
  "\<exists>l'. add_timer (Some 4) (sort_timer_lst_new [4 \<mapsto> util_timer_new 15 7]) = Some l' \<and> timers_ok [4] l'"
proof -
  have "timers_ok [] (sort_timer_lst_new [4 \<mapsto> util_timer_new 15 7])" by (simp add: timers_ok_def sort_timer_lst_new_def)
  from timer_list_refines [OF this, of 4 15 7 0] show ?thesis
    by (auto simp: sort_timer_lst_new_def insert_timer_def)
qed

text \<open>Adjusting a timer works in the middle of the list alone: the last one has no successor to relink.\<close>

lemma adjust_last_stops:
  assumes "timers_ok (ps @ [x]) l"
  shows "adjust_timer (Some x) l = None"
proof -
  have lk: "linked (tl_heap l) (ps @ [x])" and hd: "tl_head l = first (ps @ [x])" using assms by (auto simp: timers_ok_def)
  have "linked (tl_heap l) [x]" using lk linked_suffix by blast
  then obtain t where t: "tl_heap l x = Some t" "ut_next t = None" by auto
  show ?thesis
  proof (cases "tl_head l = Some x")
    case True
    then show ?thesis using t by (simp add: adjust_timer_def deref_def put_next_def put_prev_def put_timer_def)
  next
    case False
    show ?thesis
    proof (cases "put_next (ut_prev t) None l")
      case None
      then show ?thesis using False t by (auto simp: adjust_timer_def deref_def)
    next
      case (Some l1)
      have "\<exists>t1. tl_heap l1 x = Some t1 \<and> ut_next t1 = None"
        using t Some by (auto simp: put_next_def put_timer_def Option.bind_eq_Some_conv)
      then show ?thesis using False t Some by (auto simp: adjust_timer_def deref_def put_prev_def put_timer_def)
    qed
  qed
qed

end
