(* ===== verification/Step_Invariant.thy ===== *)
theory Step_Invariant
  imports Main
begin

text \<open>
  Runs of a program given by its steps: what every step keeps, every run keeps. The instances are
  the events of the HTTP server (\<open>HttpLife\<close>), the single-reactor server's loop (\<open>WebMain\<close>), the threads of its
  pool (\<open>WebPool\<close>) and the loop among signals (\<open>WebSignal\<close>).
\<close>

locale step_invariant =
  fixes step :: "'s \<Rightarrow> 's \<Rightarrow> bool" and inv :: "'s \<Rightarrow> bool"
  assumes step_keeps: "step s s' \<Longrightarrow> inv s \<Longrightarrow> inv s'"
begin

lemma reach_keeps:
  assumes "step\<^sup>*\<^sup>* s s'" and "inv s"
  shows "inv s'"
  using assms by (induction rule: rtranclp_induct) (auto intro: step_keeps)

end

end
