(* ===== verification/WebPool.thy ===== *)
theory WebPool
  imports Prelude Step_Invariant "HOL-Library.Monad_Syntax"
begin

text \<open>
  \<^verbatim>\<open>web-5.11-pressure/threadpool.h\<close> and the semaphore of \<^verbatim>\<open>locker.{h,cpp}\<close>: the queue between the main loop
  and the workers. What a thread does between \<^verbatim>\<open>lock\<close> and \<^verbatim>\<open>unlock\<close> of the queue's lock is one step; adding to
  the queue and posting the semaphore are two, as are waiting for the semaphore and taking from the queue.
  A request is a number or null.
\<close>

text \<open>A worker: at the test of \<^verbatim>\<open>m_stop\<close>, in \<^verbatim>\<open>wait\<close>, past it, running a request, or gone.\<close>

datatype web_worker = W_head | W_wait | W_woken | W_run nat | W_done

record web_pool =
  wp_max_requests :: nat
  wp_workers :: "web_worker list"
  wp_workqueue :: "nat option list"
  wp_queuestat :: nat
  wp_stop :: bool
  wp_posting :: nat
  wp_accepted :: "nat option list"
  wp_taken :: "nat option list"

text \<open>The constructor, given whether each \<^verbatim>\<open>pthread_create\<close> and each \<^verbatim>\<open>pthread_detach\<close> succeeds; \<open>None\<close> is
  an exception.\<close>

definition threadpool_new :: "int \<Rightarrow> int \<Rightarrow> (bool \<times> bool) list \<Rightarrow> web_pool option" where
  "threadpool_new thread_number max_requests created =
     (if thread_number \<le> 0 \<or> max_requests \<le> 0 then None
      else if \<exists>r \<in> set (take (nat thread_number) created). \<not> fst r \<or> \<not> snd r then None
      else Some \<lparr>wp_max_requests = nat max_requests, wp_workers = replicate (nat thread_number) W_head, wp_workqueue = [],
             wp_queuestat = 0, wp_stop = False, wp_posting = 0, wp_accepted = [], wp_taken = []\<rparr>)"

definition threadpool_delete :: "web_pool \<Rightarrow> web_pool" where
  "threadpool_delete wp = wp\<lparr>wp_stop := True\<rparr>"

definition sem_post :: "web_pool \<Rightarrow> web_pool" where
  "sem_post wp = wp\<lparr>wp_queuestat := wp_queuestat wp + 1\<rparr>"

definition sem_wait :: "web_pool \<Rightarrow> web_pool option" where
  "sem_wait wp = (if wp_queuestat wp = 0 then None else Some (wp\<lparr>wp_queuestat := wp_queuestat wp - 1\<rparr>))"

text \<open>\<^verbatim>\<open>append\<close> up to the unlocking; the number of those that have yet to post grows.\<close>

definition threadpool_append :: "nat option \<Rightarrow> web_pool \<Rightarrow> bool \<times> web_pool" where
  "threadpool_append request wp =
     (if length (wp_workqueue wp) > wp_max_requests wp then (False, wp)
      else (True, wp\<lparr>wp_workqueue := wp_workqueue wp @ [request], wp_posting := wp_posting wp + 1,
                     wp_accepted := wp_accepted wp @ [request]\<rparr>))"

definition append_post :: "web_pool \<Rightarrow> web_pool option" where
  "append_post wp = (if wp_posting wp = 0 then None else Some (sem_post (wp\<lparr>wp_posting := wp_posting wp - 1\<rparr>)))"

text \<open>A turn of \<^verbatim>\<open>run\<close> after \<^verbatim>\<open>wait\<close>: what the worker does next.\<close>

definition run_take :: "web_pool \<Rightarrow> web_worker \<times> web_pool" where
  "run_take wp = (case wp_workqueue wp of
     [] \<Rightarrow> (W_head, wp)
   | request # rest \<Rightarrow>
       (case request of None \<Rightarrow> W_head | Some r \<Rightarrow> W_run r,
        wp\<lparr>wp_workqueue := rest, wp_taken := wp_taken wp @ [request]\<rparr>))"

definition set_worker :: "nat \<Rightarrow> web_worker \<Rightarrow> web_pool \<Rightarrow> web_pool" where
  "set_worker i w wp = wp\<lparr>wp_workers := (wp_workers wp)[i := w]\<rparr>"

text \<open>A step of the program. \<^verbatim>\<open>wait\<close> may return without the semaphore when a signal arrives; its result is not
  looked at.\<close>

inductive pool_step :: "web_pool \<Rightarrow> web_pool \<Rightarrow> bool" where
  ps_append: "pool_step wp (snd (threadpool_append request wp))"
| ps_post: "append_post wp = Some wp' \<Longrightarrow> pool_step wp wp'"
| ps_test: "i < length (wp_workers wp) \<Longrightarrow> wp_workers wp ! i = W_head \<Longrightarrow>
    pool_step wp (set_worker i (if wp_stop wp then W_done else W_wait) wp)"
| ps_wait: "i < length (wp_workers wp) \<Longrightarrow> wp_workers wp ! i = W_wait \<Longrightarrow> sem_wait wp = Some wp' \<Longrightarrow>
    pool_step wp (set_worker i W_woken wp')"
| ps_interrupt: "i < length (wp_workers wp) \<Longrightarrow> wp_workers wp ! i = W_wait \<Longrightarrow> pool_step wp (set_worker i W_woken wp)"
| ps_take: "i < length (wp_workers wp) \<Longrightarrow> wp_workers wp ! i = W_woken \<Longrightarrow> run_take wp = (w, wp') \<Longrightarrow>
    pool_step wp (set_worker i w wp')"
| ps_processed: "i < length (wp_workers wp) \<Longrightarrow> wp_workers wp ! i = W_run r \<Longrightarrow> pool_step wp (set_worker i W_head wp)"
| ps_delete: "pool_step wp (threadpool_delete wp)"

definition pool_reach :: "web_pool \<Rightarrow> web_pool \<Rightarrow> bool" where
  "pool_reach wp wp' \<longleftrightarrow> pool_step\<^sup>*\<^sup>* wp wp'"

lemma pool_reach_intros: "pool_reach wp wp" "pool_reach wp wp1 \<Longrightarrow> pool_step wp1 wp2 \<Longrightarrow> pool_reach wp wp2"
  unfolding pool_reach_def by (auto intro: rtranclp.rtrancl_into_rtrancl)

subsection \<open>No request is lost\<close>

definition woken :: "web_pool \<Rightarrow> nat" where
  "woken wp = length (filter (\<lambda>w. w = W_woken) (wp_workers wp))"

definition wp_inv :: "web_pool \<Rightarrow> bool" where
  "wp_inv wp \<longleftrightarrow> wp_accepted wp = wp_taken wp @ wp_workqueue wp \<and>
     length (wp_workqueue wp) \<le> wp_queuestat wp + wp_posting wp + woken wp \<and>
     length (wp_workqueue wp) \<le> wp_max_requests wp + 1"

lemma filter_update_length:
  "i < length xs \<Longrightarrow> length (filter P (xs[i := x])) + (if P (xs ! i) then 1 else 0) = length (filter P xs) + (if P x then 1 else 0)"
proof (induction xs arbitrary: i)
  case (Cons y ys)
  then show ?case by (cases i) auto
qed simp

lemma woken_set:
  "i < length (wp_workers wp) \<Longrightarrow>
   woken (set_worker i w wp) + (if wp_workers wp ! i = W_woken then 1 else 0) = woken wp + (if w = W_woken then 1 else 0)"
  using filter_update_length [of i "wp_workers wp" "\<lambda>w. w = W_woken" w] by (simp add: woken_def set_worker_def)

lemma set_worker_simps [simp]:
  "wp_workqueue (set_worker i w wp) = wp_workqueue wp" "wp_queuestat (set_worker i w wp) = wp_queuestat wp"
  "wp_posting (set_worker i w wp) = wp_posting wp" "wp_accepted (set_worker i w wp) = wp_accepted wp"
  "wp_taken (set_worker i w wp) = wp_taken wp" "wp_max_requests (set_worker i w wp) = wp_max_requests wp"
  by (simp_all add: set_worker_def)

lemma pool_step_inv:
  assumes "pool_step wp wp'" and "wp_inv wp"
  shows "wp_inv wp' \<and> wp_max_requests wp' = wp_max_requests wp"
  using assms
proof (induction rule: pool_step.induct)
  case (ps_append wp request)
  then show ?case by (auto simp: threadpool_append_def wp_inv_def woken_def)
next
  case (ps_post wp wp')
  then show ?case by (auto simp: append_post_def sem_post_def wp_inv_def woken_def split: if_splits)
next
  case (ps_test i wp)
  then show ?case using woken_set [of i wp "if wp_stop wp then W_done else W_wait"] by (auto simp: wp_inv_def split: if_splits)
next
  case (ps_wait i wp wp')
  then have wp': "wp' = wp\<lparr>wp_queuestat := wp_queuestat wp - 1\<rparr>" "wp_queuestat wp \<noteq> 0"
    by (auto simp: sem_wait_def split: if_splits)
  have "woken wp' = woken wp" "i < length (wp_workers wp')" "wp_workers wp' ! i = W_wait"
    using wp' ps_wait by (auto simp: woken_def)
  then show ?case using wp' woken_set [of i wp' W_woken] ps_wait.prems by (auto simp: wp_inv_def)
next
  case (ps_interrupt i wp)
  then show ?case using woken_set [of i wp W_woken] by (auto simp: wp_inv_def)
next
  case (ps_take i wp w wp')
  have w: "w \<noteq> W_woken" "woken wp' = woken wp" "wp_workers wp' = wp_workers wp"
    using ps_take.hyps(3) by (auto simp: run_take_def woken_def split: list.splits option.splits)
  then show ?case using woken_set [of i wp' w] ps_take
    by (auto simp: run_take_def wp_inv_def split: list.splits option.splits)
next
  case (ps_processed i wp r)
  then show ?case using woken_set [of i wp W_head] by (auto simp: wp_inv_def)
next
  case (ps_delete wp)
  then show ?case by (simp add: threadpool_delete_def wp_inv_def woken_def)
qed

interpretation pool_runs: step_invariant pool_step "\<lambda>wp. wp_inv wp \<and> wp_max_requests wp = m"
  by unfold_locales (use pool_step_inv in auto)

text \<open>C35: whatever the threads do, the requests accepted are those taken, in that order, followed by those still
  queued, so each is taken once and none overtakes another; there are never more than one above the maximum in
  the queue; and while one is queued, the semaphore is up, or somebody is about to post it, or a worker is on the way
  to the queue.\<close>

theorem web_pool_keeps:
  assumes "threadpool_new n m created = Some wp0" and "pool_reach wp0 wp"
  shows "wp_accepted wp = wp_taken wp @ wp_workqueue wp \<and> length (wp_workqueue wp) \<le> nat m + 1 \<and>
    (wp_workqueue wp \<noteq> [] \<longrightarrow> wp_queuestat wp > 0 \<or> wp_posting wp > 0 \<or> W_woken \<in> set (wp_workers wp))"
proof -
  have "wp_inv wp0 \<and> wp_max_requests wp0 = nat m"
    using assms(1) by (auto simp: threadpool_new_def wp_inv_def split: if_splits)
  then have "wp_inv wp \<and> wp_max_requests wp = nat m"
    using pool_runs.reach_keeps assms(2) unfolding pool_reach_def by blast
  moreover have "woken wp = 0" if "W_woken \<notin> set (wp_workers wp)"
    using that by (auto simp: woken_def filter_empty_conv)
  ultimately show ?thesis by (cases "wp_workqueue wp"; cases "W_woken \<in> set (wp_workers wp)") (auto simp: wp_inv_def)
qed

definition pool_example :: web_pool where
  "pool_example = \<lparr>wp_max_requests = 1, wp_workers = [W_head], wp_workqueue = [], wp_queuestat = 0, wp_stop = False,
     wp_posting = 0, wp_accepted = [], wp_taken = []\<rparr>"

definition pool_example2 :: web_pool where
  "pool_example2 = snd (threadpool_append (Some 5) (snd (threadpool_append (Some 4) pool_example)))"

theorem web_pool_keeps_witness:
  "wp_workqueue pool_example2 = [Some 4, Some 5] \<and> length (wp_workqueue pool_example2) \<le> nat 1 + 1 \<and>
   wp_accepted pool_example2 = wp_taken pool_example2 @ wp_workqueue pool_example2"
proof -
  have "threadpool_new 1 1 [] = Some pool_example" by (simp add: threadpool_new_def pool_example_def)
  moreover have "pool_reach pool_example pool_example2"
    unfolding pool_example2_def
    by (rule pool_reach_intros(2) [OF pool_reach_intros(2) [OF pool_reach_intros(1) ps_append] ps_append])
  ultimately have "wp_accepted pool_example2 = wp_taken pool_example2 @ wp_workqueue pool_example2 \<and>
      length (wp_workqueue pool_example2) \<le> nat 1 + 1"
    using web_pool_keeps [of 1 1 "[]" pool_example pool_example2] by blast
  then show ?thesis by (simp add: pool_example2_def pool_example_def threadpool_append_def)
qed

subsection \<open>The wrappers of the library's locks\<close>

text \<open>What they return, and \<open>None\<close> where a constructor throws, from the result of the library's function.\<close>

definition locker_new :: "int \<Rightarrow> unit option" where
  "locker_new r = (if r \<noteq> 0 then None else Some ())"

definition locker_lock :: "int \<Rightarrow> bool" where
  "locker_lock r \<longleftrightarrow> r = 0"

definition locker_unlock :: "int \<Rightarrow> bool" where
  "locker_unlock r \<longleftrightarrow> r = 0"

definition cond_new :: "int \<Rightarrow> unit option" where
  "cond_new r = (if r \<noteq> 0 then None else Some ())"

text \<open>\<^verbatim>\<open>ret ==\<close> compares and stores nothing.\<close>

definition cond_wait :: "int \<Rightarrow> bool" where
  "cond_wait r = (let ret = (0 :: int); compared = (ret = r) in ret = 0)"

definition cond_timewait :: "int \<Rightarrow> bool" where
  "cond_timewait r = (let ret = (0 :: int); compared = (ret = r) in ret = 0)"

definition cond_signal :: "int \<Rightarrow> bool" where
  "cond_signal r \<longleftrightarrow> r = 0"

definition cond_broadcast :: "int \<Rightarrow> bool" where
  "cond_broadcast r \<longleftrightarrow> r = 0"

definition sem_new :: "int \<Rightarrow> int \<Rightarrow> int option" where
  "sem_new num r = (if r \<noteq> 0 then None else Some num)"

text \<open>A wait that timed out or failed is reported as a success.\<close>

lemma cond_wait_succeeds: "cond_wait r" "cond_timewait r"
  by (simp_all add: cond_wait_def cond_timewait_def)

end
