(* ===== verification/WebMain.thy ===== *)
theory WebMain
  imports WebReply WebTimer WebPool
begin

text \<open>
  \<^verbatim>\<open>web-5.11-pressure/main.cpp\<close>: the main loop over the connections, the timers and the queue to the workers.
  A connection is known by its descriptor. \<open>None\<close> is a null or dangling pointer followed or an index
  outside the array of connections. A worker's \<^verbatim>\<open>process\<close> is one step between the main loop's.
\<close>

definition MAX_FD :: int where
  "MAX_FD = 65536"

definition TIMESLOT :: int where
  "TIMESLOT = 5"

definition MAX_REQUESTS :: nat where
  "MAX_REQUESTS = 10000"

record web_server =
  ws_users :: "int \<Rightarrow> http_conn"
  ws_timer :: "int \<Rightarrow> nat option"
  ws_timers :: sort_timer_lst
  ws_reactor :: reactor
  ws_queue :: "int list"
  ws_timeout :: bool

datatype web_event = Accept int nat | Hangup int | Signals "int list" | Readable int "recv_answer list"
  | Writable int "writev_answer list"

definition user :: "int \<Rightarrow> web_server \<Rightarrow> http_conn option" where
  "user fd ws = (if 0 \<le> fd \<and> fd < MAX_FD then Some (ws_users ws fd) else None)"

definition put_user :: "int \<Rightarrow> http_conn \<times> reactor \<Rightarrow> web_server \<Rightarrow> web_server" where
  "put_user fd = (\<lambda>(hc, re) ws. ws\<lparr>ws_users := (ws_users ws)(fd := hc), ws_reactor := re\<rparr>)"

text \<open>The setup before the loop: the listener and the reading end of the pipe are watched.\<close>

definition main_start :: "int \<Rightarrow> int \<Rightarrow> int \<Rightarrow> (int \<Rightarrow> http_conn) \<Rightarrow> (nat \<rightharpoonup> util_timer) \<Rightarrow> web_server" where
  "main_start listenfd pipe0 pipe1 users heap =
     (let re0 = \<lparr>re_watch = Map.empty, re_nonblocking = {}, re_closed = [], re_user_count = 0\<rparr>;
          re1 = addfd pipe0 False (setnoblocking pipe1 (addfd listenfd False re0))
      in \<lparr>ws_users = users, ws_timer = (\<lambda>_. None), ws_timers = sort_timer_lst_new heap, ws_reactor = re1, ws_queue = [],
          ws_timeout = False\<rparr>)"

text \<open>\<^verbatim>\<open>accept\<close> gave \<open>connfd\<close>; the new timer is at \<open>addr\<close>.\<close>

definition on_accept :: "int \<Rightarrow> int \<Rightarrow> nat \<Rightarrow> web_server \<Rightarrow> web_server option" where
  "on_accept now connfd addr ws =
     (if connfd < 0 then Some ws
      else if re_user_count (ws_reactor ws) \<ge> MAX_FD
      then Some (ws\<lparr>ws_reactor := (ws_reactor ws)\<lparr>re_closed := re_closed (ws_reactor ws) @ [connfd]\<rparr>\<rparr>)
      else do {
        hc \<leftarrow> user connfd ws;
        let ws1 = put_user connfd (http_init_fd connfd (hc, ws_reactor ws)) ws;
        let timer = util_timer_new (now + 3 * TIMESLOT) (nat connfd);
        let l = ws_timers ws1;
        l1 \<leftarrow> add_timer (Some addr) (l\<lparr>tl_heap := (tl_heap l)(addr \<mapsto> timer)\<rparr>);
        Some (ws1\<lparr>ws_timer := (ws_timer ws1)(connfd := Some addr), ws_timers := l1\<rparr>) })"

text \<open>The timer goes out of the list and the connection is closed.\<close>

definition drop_conn :: "int \<Rightarrow> web_server \<Rightarrow> web_server option" where
  "drop_conn fd ws = do {
     hc \<leftarrow> user fd ws;
     l \<leftarrow> del_timer (ws_timer ws fd) (ws_timers ws);
     Some (put_user fd (close_conn (hc, ws_reactor ws)) (ws\<lparr>ws_timers := l\<rparr>)) }"

definition on_signals :: "int list \<Rightarrow> web_server \<Rightarrow> web_server" where
  "on_signals signals ws = (if 14 \<in> set signals then ws\<lparr>ws_timeout := True\<rparr> else ws)"

definition pool_append_conn :: "int \<Rightarrow> web_server \<Rightarrow> web_server" where
  "pool_append_conn fd ws = (if length (ws_queue ws) > MAX_REQUESTS then ws else ws\<lparr>ws_queue := ws_queue ws @ [fd]\<rparr>)"

definition on_readable :: "int \<Rightarrow> recv_answer list \<Rightarrow> web_server \<Rightarrow> web_server option" where
  "on_readable fd answers ws = do {
     hc \<leftarrow> user fd ws;
     let (ok, hc1) = http_read (hc\<lparr>hc_recv := answers\<rparr>);
     let ws1 = put_user fd (hc1, ws_reactor ws) ws;
     if ok then Some (pool_append_conn fd ws1) else drop_conn fd ws1 }"

definition on_writable :: "int \<Rightarrow> writev_answer list \<Rightarrow> web_server \<Rightarrow> web_server option" where
  "on_writable fd answers ws = do {
     hc \<leftarrow> user fd ws;
     (ok, hc1, re1) \<leftarrow> http_write (hc\<lparr>hc_writev := answers\<rparr>, ws_reactor ws);
     let ws1 = put_user fd (hc1, re1) ws;
     if ok then Some ws1 else drop_conn fd ws1 }"

definition handle_event :: "int \<Rightarrow> web_event \<Rightarrow> web_server \<Rightarrow> web_server option" where
  "handle_event now ev ws = (case ev of
     Accept connfd addr \<Rightarrow> on_accept now connfd addr ws
   | Hangup fd \<Rightarrow> drop_conn fd ws
   | Signals signals \<Rightarrow> Some (on_signals signals ws)
   | Readable fd answers \<Rightarrow> on_readable fd answers ws
   | Writable fd answers \<Rightarrow> on_writable fd answers ws)"

fun handle_events :: "int \<Rightarrow> web_event list \<Rightarrow> web_server \<Rightarrow> web_server option" where
  "handle_events now [] ws = Some ws"
| "handle_events now (ev # evs) ws = do { ws1 \<leftarrow> handle_event now ev ws; handle_events now evs ws1 }"

text \<open>The connections a tick closes; that the list is taken apart in between makes no difference to them.\<close>

fun close_users :: "nat list \<Rightarrow> web_server \<Rightarrow> web_server option" where
  "close_users [] ws = Some ws"
| "close_users (u # us) ws = do {
     hc \<leftarrow> user (int u) ws;
     close_users us (put_user (int u) (close_conn (hc, ws_reactor ws)) ws) }"

definition timer_handler :: "int \<Rightarrow> web_server \<Rightarrow> web_server option" where
  "timer_handler now ws = do { (closed, l) \<leftarrow> tick now (ws_timers ws); close_users closed (ws\<lparr>ws_timers := l\<rparr>) }"

text \<open>A turn of the loop.\<close>

definition web_turn :: "int \<Rightarrow> web_event list \<Rightarrow> web_server \<Rightarrow> web_server option" where
  "web_turn now evs ws = do {
     ws1 \<leftarrow> handle_events now evs ws;
     if ws_timeout ws1
     then do { ws2 \<leftarrow> timer_handler now ws1; Some (ws2\<lparr>ws_timeout := False\<rparr>) }
     else Some ws1 }"

text \<open>A worker processes the first request of the queue.\<close>

definition web_process :: "(string \<Rightarrow> (file_stat \<times> mapping) option) \<Rightarrow> web_server \<Rightarrow> web_server option" where
  "web_process fs ws = (case ws_queue ws of
     [] \<Rightarrow> Some ws
   | fd # rest \<Rightarrow> do {
       hc \<leftarrow> user fd ws;
       st \<leftarrow> http_process fs (hc, ws_reactor ws);
       Some (put_user fd st (ws\<lparr>ws_queue := rest\<rparr>)) })"

subsection \<open>What a connection's operations do to its descriptor\<close>

text \<open>The connection stays as it is or is closed.\<close>

definition stays_or_closes :: "http_conn \<times> reactor \<Rightarrow> http_conn \<times> reactor \<Rightarrow> bool" where
  "stays_or_closes st st' \<longleftrightarrow>
     (hc_sockfd (fst st') = hc_sockfd (fst st) \<and> dom (re_watch (snd st')) = dom (re_watch (snd st)) \<and>
      re_user_count (snd st') = re_user_count (snd st)) \<or>
     (hc_sockfd (fst st) \<noteq> -1 \<and> hc_sockfd (fst st') = -1 \<and>
      dom (re_watch (snd st')) = dom (re_watch (snd st)) - {hc_sockfd (fst st)} \<and>
      re_user_count (snd st') = re_user_count (snd st) - 1)"

lemma dom_modfd [simp]: "dom (re_watch (modfd fd ev re)) = dom (re_watch re)"
  "re_user_count (modfd fd ev re) = re_user_count re"
  by (auto simp: modfd_def)

lemma close_conn_step: "stays_or_closes (hc, re) (close_conn (hc, re))"
  by (auto simp: stays_or_closes_def close_conn_def removefd_def)

lemma close_conn_sockfd: "hc_sockfd (fst (close_conn (hc, re))) = -1"
  by (simp add: close_conn_def)

lemma http_read_sockfd: "hc_sockfd (snd (http_read hc)) = hc_sockfd hc"
proof -
  have "hc_sockfd (snd (read_loop hc)) = hc_sockfd hc"
  proof (induction hc rule: read_loop.induct)
    case (1 hc)
    obtain answer rest where a: "sys_recv (READ_BUFFER_SIZE - hc_read_idx hc) (hc_recv hc) = (answer, rest)" by fastforce
    show ?case
    proof (cases "\<exists>s. answer = Data s \<and> s \<noteq> []")
      case True
      then obtain s where s: "answer = Data s" "s \<noteq> []" by blast
      show ?thesis using 1 [OF refl a [symmetric] refl s] a s by (subst read_loop.simps) simp
    next
      case False
      then show ?thesis using a by (subst read_loop.simps) (cases answer; simp add: Let_def)
    qed
  qed
  then show ?thesis by (simp add: http_read_def)
qed

text \<open>The results of a fallible operation are of the connection with descriptor \<open>fd\<close>.\<close>

definition keeps_fd :: "int \<Rightarrow> ('a \<times> http_conn) option \<Rightarrow> bool" where
  "keeps_fd fd res \<longleftrightarrow> (\<forall>x hc. res = Some (x, hc) \<longrightarrow> hc_sockfd hc = fd)"

lemma keeps_fd_simps [simp]: "keeps_fd fd None" "keeps_fd fd (Some (x, hc)) \<longleftrightarrow> hc_sockfd hc = fd"
  by (simp_all add: keeps_fd_def)

lemma keeps_fd_bind: "(\<And>x. m = Some x \<Longrightarrow> keeps_fd fd (f x)) \<Longrightarrow> keeps_fd fd (m \<bind> f)"
  by (cases m) simp_all

lemma parse_line_fd: "keeps_fd (hc_sockfd hc) (parse_line hc)"
  unfolding parse_line_def by (intro keeps_fd_bind) (simp split: prod.split)

lemma parse_request_line_fd: "keeps_fd (hc_sockfd hc) (parse_request_line i hc)"
  unfolding parse_request_line_def Let_def
  by (intro keeps_fd_bind) (auto intro!: keeps_fd_bind split: option.split)

lemma parse_headers_fd: "keeps_fd (hc_sockfd hc) (parse_headers i hc)"
  unfolding parse_headers_def Let_def by (intro keeps_fd_bind) (auto intro!: keeps_fd_bind)

lemma parse_content_fd: "keeps_fd (hc_sockfd hc) (parse_content i hc)"
  unfolding parse_content_def by (auto intro!: keeps_fd_bind)

lemma do_request_fd: "keeps_fd (hc_sockfd hc) (do_request fs hc)"
  unfolding do_request_def Let_def by (intro keeps_fd_bind) (simp split: option.split prod.split)

lemma keeps_fd_step: "keeps_fd fd m \<Longrightarrow> (\<And>x hc. hc_sockfd hc = fd \<Longrightarrow> keeps_fd fd (f (x, hc))) \<Longrightarrow> keeps_fd fd (m \<bind> f)"
  by (cases m) auto

lemma keeps_fd_D: "res = Some r \<Longrightarrow> keeps_fd fd res \<Longrightarrow> hc_sockfd (snd r) = fd"
  by (cases r) simp

lemma process_loop_result: "process_loop fs st hc = Some r \<Longrightarrow> hc_sockfd (snd r) = hc_sockfd hc"
  apply (erule process_loop.raw_induct [rotated, where P = "\<lambda>fs st hc r. hc_sockfd (snd r) = hc_sockfd hc"])
  subgoal premises p for rec fs st hc r
  proof -
    have rc: "keeps_fd (hc_sockfd hc) (rec fs st1 hc1)" if "hc_sockfd hc1 = hc_sockfd hc" for st1 hc1
      unfolding keeps_fd_def using p(1) [of fs st1 hc1] that by auto
    have rl: "keeps_fd (hc_sockfd hc) (parse_request_line i hc1)" "keeps_fd (hc_sockfd hc) (parse_headers i hc1)"
      "keeps_fd (hc_sockfd hc) (parse_content i hc1)" "keeps_fd (hc_sockfd hc) (do_request fs hc1)"
      if "hc_sockfd hc1 = hc_sockfd hc" for i hc1
      using parse_request_line_fd [of hc1 i] parse_headers_fd [of hc1 i] parse_content_fd [of hc1 i] do_request_fd [of hc1 fs] that
      by simp_all
    show ?thesis
      by (rule keeps_fd_D [OF p(2)], unfold Let_def, rule keeps_fd_step)
        (auto intro!: keeps_fd_step rl rc parse_line_fd split: check_state.split)
  qed
  done

lemma add_response_fd [simp]: "hc_sockfd (snd (add_response s hc)) = hc_sockfd hc"
  by (simp add: add_response_def Let_def)

lemma process_write_fd: "hc_sockfd (snd (process_write ret hc)) = hc_sockfd hc"
proof -
  have h: "hc_sockfd (add_headers n hc1) = hc_sockfd hc1" for n hc1
    by (simp add: add_headers_def add_content_length_def add_content_type_def add_linger_def add_blank_line_def)
  have s: "hc_sockfd (snd (add_status_line n t hc)) = hc_sockfd hc" for n t by (simp add: add_status_line_def)
  have c: "hc_sockfd hc2 = hc_sockfd hc1" if "add_content f hc1 = (ok, hc2)" for f hc1 ok hc2
    using add_response_fd [of f hc1, folded add_content_def] unfolding that by simp
  show ?thesis
  proof (cases "error_page ret")
    case None
    then show ?thesis by (simp add: process_write_def Let_def h s)
  next
    case (Some e)
    obtain status title form where e: "e = (status, title, form)" by (cases e)
    obtain ok hc2 where a: "add_content form (add_headers (int (length form)) (snd (add_status_line status title hc))) = (ok, hc2)"
      by fastforce
    then show ?thesis using Some e c [OF a] by (simp add: process_write_def Let_def h s)
  qed
qed

lemma http_process_step: "http_process fs (hc, re) = Some st \<Longrightarrow> stays_or_closes (hc, re) st"
proof -
  assume run: "http_process fs (hc, re) = Some st"
  then obtain ret hc1 where p: "process_read fs hc = Some (ret, hc1)" by (auto simp: http_process_def Option.bind_eq_Some_conv)
  have fd1: "hc_sockfd hc1 = hc_sockfd hc" using process_loop_result p unfolding process_read_def by fastforce
  obtain ok hc2 where w: "process_write ret hc1 = (ok, hc2)" by fastforce
  have fd2: "hc_sockfd hc2 = hc_sockfd hc" using process_write_fd [of ret hc1] w fd1 by simp
  obtain hc3 re3 where c: "close_conn (hc2, re) = (hc3, re3)" by fastforce
  have "stays_or_closes (hc2, re) (hc3, re3)" using close_conn_step [of hc2 re] c by simp
  then have cl: "stays_or_closes (hc, re) (hc3, modfd (hc_sockfd hc3) Ep_out re3)"
    using fd2 by (simp add: stays_or_closes_def)
  have op: "stays_or_closes (hc, re) (hc2, modfd (hc_sockfd hc2) Ep_out re)"
    "stays_or_closes (hc, re) (hc1, modfd (hc_sockfd hc1) Ep_in re)"
    using fd1 fd2 by (simp_all add: stays_or_closes_def)
  show ?thesis
  proof (cases "ret = NO_REQUEST")
    case True
    then have "st = (hc1, modfd (hc_sockfd hc1) Ep_in re)" using run p by (simp add: http_process_def)
    then show ?thesis using op by simp
  next
    case False
    then have "st = (if ok then (hc2, modfd (hc_sockfd hc2) Ep_out re) else (hc3, modfd (hc_sockfd hc3) Ep_out re3))"
      using run p w c by (cases ok) (simp_all add: http_process_def)
    then show ?thesis using op cl by simp
  qed
qed

text \<open>Writing always comes to an end, for the kernel takes bytes, refuses them for now, or fails.\<close>

lemma write_loop_step:
  "\<exists>ok st. write_loop n m (hc, re) = Some (ok, st) \<and> stays_or_closes (hc, re) st \<and> hc_sockfd (fst st) = hc_sockfd hc"
proof (induction "length (hc_writev hc)" arbitrary: hc m rule: less_induct)
  case less
  have u: "unmap h = h" for h by (cases h) (simp add: unmap_def)
  obtain temp hc1 where s: "sys_writev hc = (temp, hc1)" by fastforce
  have fd: "hc_sockfd hc1 = hc_sockfd hc" using s by (auto simp: sys_writev_def split: option.splits list.splits writev_answer.splits)
  show ?case
  proof (cases temp)
    case (Sent k)
    have l: "length (hc_writev hc1) < length (hc_writev hc)"
      using s Sent by (auto simp: sys_writev_def split: option.splits list.splits writev_answer.splits)
    show ?thesis
    proof (cases "m + k \<ge> n")
      case True
      then show ?thesis using s Sent fd
        by (subst write_loop.simps) (cases "hc_linger hc1"; simp add: Let_def u stays_or_closes_def http_init_def; blast)
    next
      case False
      then show ?thesis using less [OF l, of "m + k"] s Sent fd
        by (subst write_loop.simps) (simp add: Let_def stays_or_closes_def)
    qed
  next
    case Again
    then show ?thesis using s fd by (subst write_loop.simps) (simp add: Let_def stays_or_closes_def; blast)
  next
    case Fail
    then show ?thesis using s fd by (subst write_loop.simps) (simp add: Let_def u stays_or_closes_def; blast)
  qed
qed

lemma http_write_step:
  "\<exists>ok st. http_write (hc, re) = Some (ok, st) \<and> stays_or_closes (hc, re) st \<and> hc_sockfd (fst st) = hc_sockfd hc"
  using write_loop_step [of "hc_write_idx hc" 0 hc re]
  by (cases "hc_write_idx hc = 0") (auto simp: http_write_def stays_or_closes_def http_init_def)

subsection \<open>The invariant\<close>

text \<open>\<open>special\<close> holds the listener and the pipe. The connections that are open are the other descriptors watched.\<close>

definition ws_open :: "int set \<Rightarrow> web_server \<Rightarrow> int set" where
  "ws_open special ws = dom (re_watch (ws_reactor ws)) - special"

text \<open>A descriptor kept in the queue or with a timer is of a connection that is open or closed, but not of another.\<close>

definition known :: "int set \<Rightarrow> web_server \<Rightarrow> int \<Rightarrow> bool" where
  "known special ws fd \<longleftrightarrow> 0 \<le> fd \<and> fd < MAX_FD \<and> fd \<notin> special \<and>
     (fd \<in> ws_open special ws \<and> hc_sockfd (ws_users ws fd) = fd \<or> fd \<notin> ws_open special ws \<and> hc_sockfd (ws_users ws fd) = -1)"

definition ws_inv :: "int set \<Rightarrow> nat list \<Rightarrow> web_server \<Rightarrow> bool" where
  "ws_inv special ps ws \<longleftrightarrow>
     timers_ok ps (ws_timers ws) \<and> special \<subseteq> dom (re_watch (ws_reactor ws)) \<and> finite (ws_open special ws) \<and>
     re_user_count (ws_reactor ws) = int (card (ws_open special ws)) \<and>
     (\<forall>fd \<in> ws_open special ws. known special ws fd) \<and> (\<forall>fd \<in> set (ws_queue ws). known special ws fd) \<and>
     (\<forall>p \<in> set ps. known special ws (int (user_of (tl_heap (ws_timers ws)) p)))"

text \<open>Every open connection has its timer in the list.\<close>

definition timed :: "nat list \<Rightarrow> web_server \<Rightarrow> int \<Rightarrow> bool" where
  "timed ps ws fd \<longleftrightarrow> (\<exists>p \<in> set ps. ws_timer ws fd = Some p \<and> int (user_of (tl_heap (ws_timers ws)) p) = fd)"

definition ws_ok :: "int set \<Rightarrow> web_server \<Rightarrow> bool" where
  "ws_ok special ws \<longleftrightarrow> (\<exists>ps. ws_inv special ps ws \<and> (\<forall>fd \<in> ws_open special ws. timed ps ws fd))"

subsection \<open>Every step keeps it\<close>

lemma put_user_simps [simp]:
  "ws_timers (put_user fd st ws) = ws_timers ws" "ws_timer (put_user fd st ws) = ws_timer ws"
  "ws_queue (put_user fd st ws) = ws_queue ws" "ws_reactor (put_user fd st ws) = snd st"
  "ws_users (put_user fd st ws) = (ws_users ws)(fd := fst st)" "ws_timeout (put_user fd st ws) = ws_timeout ws"
  by (cases st, simp add: put_user_def)+

lemma put_user_keeps:
  assumes k: "known special ws fd" and s: "stays_or_closes (ws_users ws fd, ws_reactor ws) st"
  shows "known special ws fd' \<Longrightarrow> known special (put_user fd st ws) fd'"
    and "ws_open special (put_user fd st ws) = (if hc_sockfd (fst st) = -1 then ws_open special ws - {fd} else ws_open special ws)"
    and "ws_inv special ps ws \<Longrightarrow> ws_inv special ps (put_user fd st ws)"
proof -
  let ?w = "put_user fd st ws"
  have kn: "0 \<le> fd" "fd \<notin> special" using k by (auto simp: known_def)
  show op: "ws_open special ?w = (if hc_sockfd (fst st) = -1 then ws_open special ws - {fd} else ws_open special ws)"
    using k s kn by (auto simp: known_def stays_or_closes_def ws_open_def)
  have kk: "known special ?w fd'" if "known special ws fd'" for fd'
    using that k s op kn unfolding known_def
    by (cases "fd' = fd"; cases "hc_sockfd (fst st) = -1") (auto simp: stays_or_closes_def)
  then show "known special ws fd' \<Longrightarrow> known special ?w fd'" .
  assume inv: "ws_inv special ps ws"
  have cnt: "re_user_count (snd st) = int (card (ws_open special ?w))"
  proof (cases "hc_sockfd (fst st) = hc_sockfd (ws_users ws fd)")
    case True
    then have "ws_open special ?w = ws_open special ws" using k op by (auto simp: known_def)
    then show ?thesis using s inv True by (auto simp: stays_or_closes_def ws_inv_def)
  next
    case False
    then have c: "hc_sockfd (ws_users ws fd) \<noteq> -1" "hc_sockfd (fst st) = -1" "re_user_count (snd st) = re_user_count (ws_reactor ws) - 1"
      using s by (auto simp: stays_or_closes_def)
    then have o: "fd \<in> ws_open special ws" using k by (auto simp: known_def)
    have f: "finite (ws_open special ws)" "re_user_count (ws_reactor ws) = int (card (ws_open special ws))"
      using inv by (simp_all add: ws_inv_def)
    have "ws_open special ?w = ws_open special ws - {fd}" using c(2) op by simp
    then have "card (ws_open special ws) = Suc (card (ws_open special ?w))" using card_Suc_Diff1 [OF f(1) o] by simp
    then show ?thesis using c(3) f(2) by linarith
  qed
  have "special \<subseteq> dom (re_watch (snd st))"
  proof -
    have "dom (re_watch (ws_reactor ws)) - {fd} \<subseteq> dom (re_watch (snd st))"
      using s k by (auto simp: stays_or_closes_def known_def)
    then show ?thesis using inv kn(2) unfolding ws_inv_def by blast
  qed
  moreover have "finite (ws_open special ?w)" using op inv by (simp add: ws_inv_def)
  moreover have "\<forall>fd \<in> ws_open special ?w. known special ?w fd" using op inv kk by (auto simp: ws_inv_def split: if_splits)
  ultimately show "ws_inv special ps ?w" using inv kk cnt by (simp add: ws_inv_def)
qed

lemma sorted_prefix_set: "sorted (map e ps) \<Longrightarrow> set (takeWhile (\<lambda>p. e p \<le> now) ps) = {p \<in> set ps. e p \<le> (now :: int)}"
  by (induction ps) auto

lemma known_user: "known special ws fd \<Longrightarrow> user fd ws = Some (ws_users ws fd)"
  by (simp add: known_def user_def)

lemma known_timers [simp]: "known special (ws\<lparr>ws_timers := l\<rparr>) fd = known special ws fd"
  "ws_open special (ws\<lparr>ws_timers := l\<rparr>) = ws_open special ws"
  by (simp_all add: known_def ws_open_def)

lemma user_of_data: "timer_data h' p = timer_data h p \<Longrightarrow> user_of h' p = user_of h p"
  by (auto simp: timer_data_def user_of_def split: option.splits)

lemma drop_conn_ok:
  assumes inv: "ws_inv special ps ws" and t: "\<forall>fd \<in> ws_open special ws. timed ps ws fd" and fd: "fd \<in> ws_open special ws"
  shows "\<exists>ws'. drop_conn fd ws = Some ws' \<and> ws_ok special ws' \<and> ws_open special ws' = ws_open special ws - {fd} \<and> ws_queue ws' = ws_queue ws"
proof -
  obtain p where p: "p \<in> set ps" "ws_timer ws fd = Some p" "int (user_of (tl_heap (ws_timers ws)) p) = fd"
    using t fd by (auto simp: timed_def)
  obtain as bs where ps: "ps = as @ p # bs" using split_list [OF p(1)] by blast
  have ok: "timers_ok (as @ p # bs) (ws_timers ws)" using inv ps by (simp add: ws_inv_def)
  obtain l h where l: "del_timer (Some p) (ws_timers ws) = Some l" "timers_ok (as @ bs) l"
    "same_data (tl_heap (ws_timers ws)) h" "tl_heap l = h(p := None)"
    using del_timer_ok [OF ok] by blast
  have us: "user_of (tl_heap l) q = user_of (tl_heap (ws_timers ws)) q" if "q \<noteq> p" for q
    by (rule user_of_data) (use that l(4) timer_data_same [OF l(3), of q] in \<open>simp add: timer_data_def\<close>)
  have d: "p \<notin> set (as @ bs)" using ok by (auto simp: timers_ok_def)
  let ?w = "ws\<lparr>ws_timers := l\<rparr>"
  have k: "known special ?w fd" using inv fd by (simp add: ws_inv_def)
  have "known special ?w (int (user_of (tl_heap l) q))" if "q \<in> set (as @ bs)" for q
  proof -
    have "q \<noteq> p" "q \<in> set ps" using that d ps by auto
    then show ?thesis using us [of q] inv by (simp add: ws_inv_def)
  qed
  then have inv1: "ws_inv special (as @ bs) ?w" using inv l(2) by (simp add: ws_inv_def)
  let ?st = "close_conn (ws_users ws fd, ws_reactor ws)"
  have st: "stays_or_closes (ws_users ?w fd, ws_reactor ?w) ?st" using close_conn_step by simp
  note keep = put_user_keeps [OF k st]
  have op: "ws_open special (put_user fd ?st ?w) = ws_open special ws - {fd}"
    using keep(2) close_conn_sockfd [of "ws_users ws fd" "ws_reactor ws"] by simp
  have "timed (as @ bs) (put_user fd ?st ?w) fd'" if "fd' \<in> ws_open special ws - {fd}" for fd'
  proof -
    have "timed ps ws fd'" using t that by blast
    then obtain q where q: "q \<in> set ps" "ws_timer ws fd' = Some q" "int (user_of (tl_heap (ws_timers ws)) q) = fd'"
      unfolding timed_def by blast
    have "q \<noteq> p" using q(3) p(3) that by auto
    then show ?thesis using q ps us [of q] by (auto simp: timed_def)
  qed
  then have "ws_ok special (put_user fd ?st ?w)" using keep(3) [OF inv1] op by (auto simp: ws_ok_def)
  moreover have "drop_conn fd ws = Some (put_user fd ?st ?w)"
    using known_user [of special ws fd] k p(2) l(1) by (simp add: drop_conn_def)
  ultimately show ?thesis using op by simp
qed

lemma close_users_ok:
  "\<forall>u \<in> set us. known special ws (int u) \<Longrightarrow> ws_inv special ps ws \<Longrightarrow>
   \<exists>ws'. close_users us ws = Some ws' \<and> ws_inv special ps ws' \<and> ws_open special ws' = ws_open special ws - int ` set us \<and>
     ws_timers ws' = ws_timers ws \<and> ws_timer ws' = ws_timer ws"
proof (induction us arbitrary: ws)
  case (Cons u us)
  let ?st = "close_conn (ws_users ws (int u), ws_reactor ws)"
  have k: "known special ws (int u)" using Cons.prems(1) by simp
  note keep = put_user_keeps [OF k close_conn_step]
  have op: "ws_open special (put_user (int u) ?st ws) = ws_open special ws - {int u}"
    using keep(2) close_conn_sockfd by simp
  obtain ws' where "close_users us (put_user (int u) ?st ws) = Some ws'" "ws_inv special ps ws'"
    "ws_open special ws' = ws_open special (put_user (int u) ?st ws) - int ` set us" "ws_timers ws' = ws_timers ws" "ws_timer ws' = ws_timer ws"
    using Cons.IH [of "put_user (int u) ?st ws"] keep(1,3) Cons.prems by auto
  then show ?case using known_user [OF k] op by auto
qed simp

lemma timer_handler_ok:
  assumes inv: "ws_inv special ps ws" and t: "\<forall>fd \<in> ws_open special ws. timed ps ws fd"
  shows "\<exists>ws'. timer_handler now ws = Some ws' \<and> ws_ok special ws' \<and>
    ws_open special ws' = ws_open special ws -
      {fd. \<exists>p \<in> set ps. expiry (tl_heap (ws_timers ws)) p \<le> now \<and> int (user_of (tl_heap (ws_timers ws)) p) = fd}"
proof -
  let ?h = "tl_heap (ws_timers ws)"
  let ?due = "takeWhile (\<lambda>p. expiry ?h p \<le> now) ps" and ?rest = "dropWhile (\<lambda>p. expiry ?h p \<le> now) ps"
  have ok: "timers_ok ps (ws_timers ws)" using inv by (simp add: ws_inv_def)
  obtain l where l: "tick now (ws_timers ws) = Some (map (user_of ?h) ?due, l)" "timers_ok ?rest l"
    "\<forall>p. p \<notin> set ?due \<longrightarrow> timer_data (tl_heap l) p = timer_data ?h p"
    using tick_ok [OF ok, of now] by blast
  have dj: "set ?due \<inter> set ?rest = {}"
  proof -
    have "distinct (?due @ ?rest)" using ok by (simp add: timers_ok_def)
    then show ?thesis unfolding distinct_append by blast
  qed
  have us: "user_of (tl_heap l) p = user_of ?h p" if "p \<in> set ?rest" for p
    by (rule user_of_data) (use that l(3) dj in blast)
  let ?w = "ws\<lparr>ws_timers := l\<rparr>"
  have kp: "known special ws (int (user_of ?h p))" if "p \<in> set ps" for p using inv that by (simp add: ws_inv_def)
  have "ws_inv special ?rest ?w" using inv l(2) us kp set_dropWhileD by (fastforce simp: ws_inv_def)
  moreover have "\<forall>u \<in> set (map (user_of ?h) ?due). known special ?w (int u)"
    using kp by (auto dest: set_takeWhileD)
  ultimately obtain ws' where w: "close_users (map (user_of ?h) ?due) ?w = Some ws'" "ws_inv special ?rest ws'"
    "ws_open special ws' = ws_open special ws - int ` set (map (user_of ?h) ?due)" "ws_timers ws' = l" "ws_timer ws' = ws_timer ws"
    using close_users_ok [of "map (user_of ?h) ?due" special ?w ?rest] by auto
  have "timed ?rest ws' fd" if "fd \<in> ws_open special ws'" for fd
  proof -
    have "fd \<in> ws_open special ws" using that w(3) by simp
    then have "timed ps ws fd" using t by blast
    then obtain p where p: "p \<in> set ps" "ws_timer ws fd = Some p" "int (user_of ?h p) = fd"
      unfolding timed_def by blast
    have "p \<notin> set ?due" using that w(3) p(3) by auto
    then have "p \<in> set ?rest" using p(1) by (metis UnE set_append takeWhile_dropWhile_id)
    then show ?thesis using p us [of p] w(4,5) by (auto simp: timed_def)
  qed
  then have "ws_ok special ws'" using w(2) by (auto simp: ws_ok_def)
  moreover have "set ?due = {p \<in> set ps. expiry ?h p \<le> now}"
    by (rule sorted_prefix_set) (use ok in \<open>simp add: timers_ok_def\<close>)
  then have "int ` set (map (user_of ?h) ?due) = {fd. \<exists>p \<in> set ps. expiry ?h p \<le> now \<and> int (user_of ?h p) = fd}" by auto
  ultimately show ?thesis using l(1) w(1,3) by (simp add: timer_handler_def)
qed

lemma timers_ok_alloc:
  assumes "timers_ok ps l" and "tl_heap l a = None"
  shows "timers_ok ps (l\<lparr>tl_heap := (tl_heap l)(a \<mapsto> t)\<rparr>)" and "a \<notin> set ps"
proof -
  show a: "a \<notin> set ps" using assms linked_dom [of "tl_heap l" ps a] by (auto simp: timers_ok_def)
  have "linked ((tl_heap l)(a \<mapsto> t)) ps = linked (tl_heap l) ps" by (rule linked_cong) (use a in auto)
  moreover have "map (expiry ((tl_heap l)(a \<mapsto> t))) ps = map (expiry (tl_heap l)) ps"
    by (rule map_cong [OF refl]) (use a in \<open>auto simp: expiry_def\<close>)
  ultimately show "timers_ok ps (l\<lparr>tl_heap := (tl_heap l)(a \<mapsto> t)\<rparr>)" using assms(1) by (simp add: timers_ok_def del: map_eq_conv)
qed

text \<open>A new connection.\<close>

lemma accept_known:
  assumes "fd \<notin> dom (re_watch (ws_reactor ws))" "0 \<le> fd" "fd < MAX_FD" "special \<subseteq> dom (re_watch (ws_reactor ws))"
    and ws1: "ws1 = put_user fd (http_init_fd fd (hc, ws_reactor ws)) ws"
  shows "dom (re_watch (ws_reactor ws1)) = insert fd (dom (re_watch (ws_reactor ws)))"
    and "ws_open special ws1 = insert fd (ws_open special ws)" and "known special ws1 fd"
    and "known special ws fd' \<Longrightarrow> known special ws1 fd'"
    and "re_user_count (ws_reactor ws1) = re_user_count (ws_reactor ws) + 1"
proof -
  show d: "dom (re_watch (ws_reactor ws1)) = insert fd (dom (re_watch (ws_reactor ws)))"
    using assms(1) by (simp add: ws1 http_init_fd_def addfd_def Let_def setnoblocking_def)
  show op: "ws_open special ws1 = insert fd (ws_open special ws)"
    using assms(1,4) d by (auto simp: ws_open_def)
  show k: "known special ws1 fd"
    using assms(1-4) op by (auto simp: known_def ws1 http_init_fd_def http_init_def)
  show "known special ws fd' \<Longrightarrow> known special ws1 fd'"
    using k op by (cases "fd' = fd") (auto simp: known_def ws1)
  show "re_user_count (ws_reactor ws1) = re_user_count (ws_reactor ws) + 1"
    using assms(1) by (simp add: ws1 http_init_fd_def addfd_def Let_def setnoblocking_def)
qed

lemma on_accept_ok:
  assumes inv: "ws_inv special ps ws" and t: "\<forall>fd \<in> ws_open special ws. timed ps ws fd"
    and fd: "0 \<le> fd" "fd < MAX_FD" "fd \<notin> dom (re_watch (ws_reactor ws))" and a: "tl_heap (ws_timers ws) addr = None"
    and room: "re_user_count (ws_reactor ws) < MAX_FD"
  shows "\<exists>ws'. on_accept now fd addr ws = Some ws' \<and> ws_ok special ws' \<and> ws_open special ws' = insert fd (ws_open special ws) \<and>
    ws_timer ws' fd = Some addr \<and> expiry (tl_heap (ws_timers ws')) addr = now + 3 * TIMESLOT"
proof -
  let ?l = "ws_timers ws" and ?t = "util_timer_new (now + 3 * TIMESLOT) (nat fd)"
  let ?k = "?l\<lparr>tl_heap := (tl_heap ?l)(addr \<mapsto> ?t)\<rparr>"
  define ws1 where "ws1 = put_user fd (http_init_fd fd (ws_users ws fd, ws_reactor ws)) ws"
  have sp: "special \<subseteq> dom (re_watch (ws_reactor ws))" using inv by (simp add: ws_inv_def)
  note k = accept_known [OF fd(3,1,2) sp ws1_def]
  have ok: "timers_ok ps ?k" "addr \<notin> set ps" using timers_ok_alloc(1) [of ps ?l addr ?t] timers_ok_alloc(2) [of ps ?l addr] inv a by (auto simp: ws_inv_def)
  obtain l1 where l1: "add_timer (Some addr) ?k = Some l1" "timers_ok (insert_timer (expiry (tl_heap ?k)) addr ps) l1"
    "same_data (tl_heap ?k) (tl_heap l1)"
    using add_timer_ok [OF ok, of ?t] by (auto simp: util_timer_new_def)
  let ?ps = "insert_timer (expiry (tl_heap ?k)) addr ps"
  have us: "user_of (tl_heap l1) p = user_of (tl_heap ?k) p" for p
    by (rule user_of_data, rule timer_data_same [OF l1(3)])
  have ua: "user_of (tl_heap l1) addr = nat fd" by (simp add: us) (simp add: user_of_def util_timer_new_def)
  have up: "user_of (tl_heap l1) p = user_of (tl_heap ?l) p" if "p \<in> set ps" for p
    using that ok(2) by (cases "p = addr") (simp_all add: us, simp add: user_of_def)
  define ws2 where "ws2 = ws1\<lparr>ws_timer := (ws_timer ws1)(fd := Some addr), ws_timers := l1\<rparr>"
  have same: "ws_open special ws2 = ws_open special ws1" "known special ws2 = known special ws1"
    "ws_reactor ws2 = ws_reactor ws1" "ws_timers ws2 = l1" "ws_queue ws2 = ws_queue ws" "ws_timer ws2 = (ws_timer ws)(fd := Some addr)"
    by (auto simp: ws2_def ws1_def ws_open_def known_def fun_eq_iff)
  have nf: "fd \<notin> ws_open special ws" using fd(3) by (simp add: ws_open_def)
  have "ws_inv special ?ps ws2" unfolding ws_inv_def same
  proof (intro conjI)
    show "timers_ok ?ps l1" by (rule l1)
    show "special \<subseteq> dom (re_watch (ws_reactor ws1))" using k(1) sp by auto
    show "finite (ws_open special ws1)" using k(2) inv by (simp add: ws_inv_def)
    show "re_user_count (ws_reactor ws1) = int (card (ws_open special ws1))" using k(2,5) inv nf by (simp add: ws_inv_def)
    show "\<forall>fd \<in> ws_open special ws1. known special ws1 fd" using k(2,3,4) inv by (auto simp: ws_inv_def)
    show "\<forall>fd \<in> set (ws_queue ws). known special ws1 fd" using k(4) inv by (auto simp: ws_inv_def)
    show "\<forall>p \<in> set ?ps. known special ws1 (int (user_of (tl_heap l1) p))"
      using k(3,4) inv up ua fd(1) by (auto simp: ws_inv_def)
  qed
  moreover have "timed ?ps ws2 fd'" if "fd' \<in> ws_open special ws2" for fd'
  proof (cases "fd' = fd")
    case True
    then show ?thesis using ua fd(1) by (auto simp: timed_def same)
  next
    case False
    then have "fd' \<in> ws_open special ws" using that k(2) by (simp add: same)
    then have "timed ps ws fd'" using t by blast
    then show ?thesis using up False by (auto simp: timed_def same)
  qed
  ultimately have "ws_ok special ws2" by (auto simp: ws_ok_def)
  moreover have "on_accept now fd addr ws = Some ws2"
    using fd(1,2) room l1(1) by (simp add: on_accept_def user_def ws1_def ws2_def)
  moreover have "expiry (tl_heap l1) addr = now + 3 * TIMESLOT"
    using same_data_expiry [OF l1(3)] by (simp add: expiry_def util_timer_new_def)
  ultimately show ?thesis using k(2) by (simp add: same)
qed

subsection \<open>Events\<close>

text \<open>What the kernel and the allocator promise: \<^verbatim>\<open>accept\<close> fails or gives a descriptor that is not in use, the
  descriptors of the process stay below the size of the array, events are of descriptors watched, and a new
  object is where none is.\<close>

definition event_ok :: "int set \<Rightarrow> web_event \<Rightarrow> web_server \<Rightarrow> bool" where
  "event_ok special ev ws \<longleftrightarrow> (case ev of
     Accept fd addr \<Rightarrow> fd < MAX_FD \<and> fd \<notin> dom (re_watch (ws_reactor ws)) \<and> tl_heap (ws_timers ws) addr = None
   | Hangup fd \<Rightarrow> fd \<in> ws_open special ws
   | Signals signals \<Rightarrow> True
   | Readable fd answers \<Rightarrow> fd \<in> ws_open special ws
   | Writable fd answers \<Rightarrow> fd \<in> ws_open special ws)"

fun events_ok :: "int set \<Rightarrow> int \<Rightarrow> web_event list \<Rightarrow> web_server \<Rightarrow> bool" where
  "events_ok special now [] ws \<longleftrightarrow> True"
| "events_ok special now (ev # evs) ws \<longleftrightarrow> event_ok special ev ws \<and>
     (case handle_event now ev ws of None \<Rightarrow> True | Some ws1 \<Rightarrow> events_ok special now evs ws1)"

lemma put_user_timed [simp]: "timed ps (put_user fd st ws) fd' = timed ps ws fd'"
  by (simp add: timed_def)

lemma pool_append_ok:
  assumes "ws_inv special ps ws" and "known special ws fd"
  shows "ws_inv special ps (pool_append_conn fd ws)" and "ws_open special (pool_append_conn fd ws) = ws_open special ws"
    and "timed ps (pool_append_conn fd ws) fd' = timed ps ws fd'" and "ws_timers (pool_append_conn fd ws) = ws_timers ws"
    "ws_timer (pool_append_conn fd ws) = ws_timer ws"
proof -
  have k: "known special (ws\<lparr>ws_queue := q\<rparr>) fd' = known special ws fd'" for q fd' by (simp add: known_def ws_open_def)
  show "ws_inv special ps (pool_append_conn fd ws)"
    using assms by (auto simp: pool_append_conn_def ws_inv_def k) (simp_all add: ws_open_def)
qed (simp_all add: pool_append_conn_def ws_open_def timed_def)

text \<open>What comes in and goes out leaves the timers alone, unless it closes the connection.\<close>

lemma conn_event_ok:
  assumes inv: "ws_inv special ps ws" and t: "\<forall>fd \<in> ws_open special ws. timed ps ws fd" and fd: "fd \<in> ws_open special ws"
    and ev: "ev = Readable fd answers \<or> ev = Writable fd sent"
  shows "\<exists>ws'. handle_event now ev ws = Some ws' \<and> ws_ok special ws' \<and>
    (ws_open special ws' = ws_open special ws \<and> ws_timers ws' = ws_timers ws \<and> ws_timer ws' = ws_timer ws \<or>
     ws_open special ws' = ws_open special ws - {fd})"
proof -
  have k: "known special ws fd" using inv fd by (simp add: ws_inv_def)
  note u = known_user [OF k]
  have "\<exists>ok st. stays_or_closes (ws_users ws fd, ws_reactor ws) st \<and> hc_sockfd (fst st) = hc_sockfd (ws_users ws fd) \<and>
      (handle_event now ev ws = (if ok then Some (pool_append_conn fd (put_user fd st ws)) else drop_conn fd (put_user fd st ws)) \<or>
       handle_event now ev ws = (if ok then Some (put_user fd st ws) else drop_conn fd (put_user fd st ws)))"
    using ev
  proof
    assume r: "ev = Readable fd answers"
    obtain ok hc1 where rd: "http_read (ws_users ws fd\<lparr>hc_recv := answers\<rparr>) = (ok, hc1)" by fastforce
    have "hc_sockfd hc1 = hc_sockfd (ws_users ws fd)" using http_read_sockfd [of "ws_users ws fd\<lparr>hc_recv := answers\<rparr>"] rd by simp
    then show ?thesis using r rd u
      by (intro exI [of _ ok] exI [of _ "(hc1, ws_reactor ws)"]) (simp add: handle_event_def on_readable_def stays_or_closes_def)
  next
    assume w: "ev = Writable fd sent"
    obtain ok st where "http_write (ws_users ws fd\<lparr>hc_writev := sent\<rparr>, ws_reactor ws) = Some (ok, st)"
      "stays_or_closes (ws_users ws fd\<lparr>hc_writev := sent\<rparr>, ws_reactor ws) st" "hc_sockfd (fst st) = hc_sockfd (ws_users ws fd)"
      using http_write_step [of "ws_users ws fd\<lparr>hc_writev := sent\<rparr>" "ws_reactor ws"] by auto
    then show ?thesis using w u
      by (intro exI [of _ ok] exI [of _ st]) (cases st; simp add: handle_event_def on_writable_def stays_or_closes_def)
  qed
  then obtain ok st where st: "stays_or_closes (ws_users ws fd, ws_reactor ws) st" "hc_sockfd (fst st) = hc_sockfd (ws_users ws fd)"
    and h: "handle_event now ev ws = (if ok then Some (pool_append_conn fd (put_user fd st ws)) else drop_conn fd (put_user fd st ws)) \<or>
       handle_event now ev ws = (if ok then Some (put_user fd st ws) else drop_conn fd (put_user fd st ws))" by blast
  let ?w = "put_user fd st ws"
  note keep = put_user_keeps [OF k st(1)]
  have op: "ws_open special ?w = ws_open special ws" using keep(2) st(2) k fd by (auto simp: known_def)
  note inv1 = keep(3) [OF inv] and k1 = keep(1) [OF k]
  note ap = pool_append_ok [OF inv1 k1]
  have t1: "\<forall>fd \<in> ws_open special ?w. timed ps ?w fd" using t op by simp
  show ?thesis
  proof (cases ok)
    case True
    have "ws_ok special ?w" using inv1 t1 by (auto simp: ws_ok_def)
    moreover have "ws_ok special (pool_append_conn fd ?w)" using ap t1 by (auto simp: ws_ok_def)
    ultimately show ?thesis using h True op ap by auto
  next
    case False
    obtain ws' where "drop_conn fd ?w = Some ws'" "ws_ok special ws'" "ws_open special ws' = ws_open special ?w - {fd}"
      using drop_conn_ok [OF inv1 t1, of fd] fd op by auto
    then show ?thesis using h False op by auto
  qed
qed

lemma ws_ok_same:
  assumes "ws_ok special ws" and "re_watch (ws_reactor ws') = re_watch (ws_reactor ws)"
    "re_user_count (ws_reactor ws') = re_user_count (ws_reactor ws)" "ws_users ws' = ws_users ws" "ws_timer ws' = ws_timer ws"
    "ws_timers ws' = ws_timers ws" "ws_queue ws' = ws_queue ws"
  shows "ws_ok special ws'"
  using assms unfolding ws_ok_def ws_inv_def known_def ws_open_def timed_def by simp

lemma handle_event_ok:
  assumes ok: "ws_ok special ws" and ev: "event_ok special ev ws"
  shows "\<exists>ws'. handle_event now ev ws = Some ws' \<and> ws_ok special ws'"
proof -
  obtain ps where inv: "ws_inv special ps ws" and t: "\<forall>fd \<in> ws_open special ws. timed ps ws fd"
    using ok by (auto simp: ws_ok_def)
  show ?thesis
  proof (cases ev)
    case (Accept fd addr)
    show ?thesis
    proof (cases "fd < 0 \<or> re_user_count (ws_reactor ws) \<ge> MAX_FD")
      case True
      have "ws_ok special (ws\<lparr>ws_reactor := (ws_reactor ws)\<lparr>re_closed := c\<rparr>\<rparr>)" for c
        by (rule ws_ok_same [OF ok]) simp_all
      then show ?thesis using True ok Accept by (auto simp: handle_event_def on_accept_def)
    next
      case False
      then show ?thesis using on_accept_ok [OF inv t, of fd addr now] ev Accept by (auto simp: handle_event_def event_ok_def)
    qed
  next
    case (Hangup fd)
    then show ?thesis using drop_conn_ok [OF inv t, of fd] ev by (auto simp: handle_event_def event_ok_def)
  next
    case (Signals signals)
    have "ws_ok special (ws\<lparr>ws_timeout := True\<rparr>)"
      by (rule ws_ok_same [OF ok]) simp_all
    then show ?thesis using ok Signals by (auto simp: handle_event_def on_signals_def)
  next
    case (Readable fd answers)
    then show ?thesis using conn_event_ok [OF inv t, of fd ev answers "[]" now] ev by (auto simp: event_ok_def)
  next
    case (Writable fd answers)
    then show ?thesis using conn_event_ok [OF inv t, of fd ev "[]" answers now] ev by (auto simp: event_ok_def)
  qed
qed

lemma handle_events_ok:
  "ws_ok special ws \<Longrightarrow> events_ok special now evs ws \<Longrightarrow> \<exists>ws'. handle_events now evs ws = Some ws' \<and> ws_ok special ws'"
proof (induction evs arbitrary: ws)
  case (Cons ev evs)
  obtain ws1 where "handle_event now ev ws = Some ws1" "ws_ok special ws1"
    using handle_event_ok [OF Cons.prems(1)] Cons.prems(2) by auto
  then show ?case using Cons by auto
qed simp

lemma timeout_ok:
  assumes "ws_ok special ws"
  shows "\<exists>ws'. timer_handler now ws = Some ws' \<and> ws_ok special (ws'\<lparr>ws_timeout := False\<rparr>)"
proof -
  obtain ps where "ws_inv special ps ws" "\<forall>fd \<in> ws_open special ws. timed ps ws fd" using assms by (auto simp: ws_ok_def)
  from timer_handler_ok [OF this, of now] obtain ws' where w: "timer_handler now ws = Some ws'" "ws_ok special ws'" by blast
  have "ws_ok special (ws'\<lparr>ws_timeout := False\<rparr>)" by (rule ws_ok_same [OF w(2)]) simp_all
  then show ?thesis using w(1) by blast
qed

lemma web_turn_ok:
  assumes "ws_ok special ws" and "events_ok special now evs ws"
  shows "\<exists>ws'. web_turn now evs ws = Some ws' \<and> ws_ok special ws'"
proof -
  obtain ws1 where w: "handle_events now evs ws = Some ws1" "ws_ok special ws1" using handle_events_ok [OF assms] by blast
  then show ?thesis using timeout_ok [OF w(2), of now] by (auto simp: web_turn_def)
qed

lemma web_process_ok:
  assumes "ws_ok special ws" and run: "web_process fs ws = Some ws'"
  shows "ws_ok special ws'"
proof (cases "ws_queue ws")
  case Nil
  then show ?thesis using assms by (simp add: web_process_def)
next
  case (Cons fd rest)
  obtain ps where inv: "ws_inv special ps ws" and t: "\<forall>fd \<in> ws_open special ws. timed ps ws fd"
    using assms(1) by (auto simp: ws_ok_def)
  have kq: "known special (ws\<lparr>ws_queue := q\<rparr>) fd' = known special ws fd'" "ws_open special (ws\<lparr>ws_queue := q\<rparr>) = ws_open special ws" for q fd'
    by (simp_all add: known_def ws_open_def)
  have inv1: "ws_inv special ps (ws\<lparr>ws_queue := rest\<rparr>)" using inv Cons by (simp add: ws_inv_def kq)
  have k: "known special (ws\<lparr>ws_queue := rest\<rparr>) fd" using inv Cons by (simp add: ws_inv_def kq)
  obtain st where st: "http_process fs (ws_users ws fd, ws_reactor ws) = Some st" "ws' = put_user fd st (ws\<lparr>ws_queue := rest\<rparr>)"
    using run Cons k by (auto simp: web_process_def known_user kq Option.bind_eq_Some_conv)
  have s: "stays_or_closes (ws_users (ws\<lparr>ws_queue := rest\<rparr>) fd, ws_reactor (ws\<lparr>ws_queue := rest\<rparr>)) st"
    using http_process_step [OF st(1)] by simp
  note keep = put_user_keeps [OF k s]
  have "timed ps ws' fd'" if "fd' \<in> ws_open special ws'" for fd'
  proof -
    have "fd' \<in> ws_open special ws" using that keep(2) unfolding st(2) kq by (auto split: if_splits)
    then have "timed ps ws fd'" using t by blast
    then show ?thesis unfolding st(2) by (simp add: timed_def)
  qed
  then show ?thesis using keep(3) [OF inv1] st(2) by (auto simp: ws_ok_def)
qed

subsection \<open>The server's runs\<close>

text \<open>The events of a batch, the timeout after it, and the workers, in any order.\<close>

inductive main_step :: "int set \<Rightarrow> (string \<Rightarrow> (file_stat \<times> mapping) option) \<Rightarrow> web_server \<Rightarrow> web_server \<Rightarrow> bool"
  for special fs where
  ms_event: "event_ok special ev ws \<Longrightarrow> handle_event now ev ws = Some ws' \<Longrightarrow> main_step special fs ws ws'"
| ms_timeout: "ws_timeout ws \<Longrightarrow> timer_handler now ws = Some ws' \<Longrightarrow> main_step special fs ws (ws'\<lparr>ws_timeout := False\<rparr>)"
| ms_process: "web_process fs ws = Some ws' \<Longrightarrow> main_step special fs ws ws'"

definition main_reach :: "int set \<Rightarrow> (string \<Rightarrow> (file_stat \<times> mapping) option) \<Rightarrow> web_server \<Rightarrow> web_server \<Rightarrow> bool" where
  "main_reach special fs ws0 ws \<longleftrightarrow> (main_step special fs)\<^sup>*\<^sup>* ws0 ws"

lemma main_reach_intros: "main_reach special fs ws ws"
  "main_reach special fs ws0 ws \<Longrightarrow> main_step special fs ws ws' \<Longrightarrow> main_reach special fs ws0 ws'"
  unfolding main_reach_def by (auto intro: rtranclp.rtrancl_into_rtrancl)

inductive_cases main_stepE: "main_step special fs ws ws'"

lemma main_start_ok: "ws_ok {listenfd, pipe0} (main_start listenfd pipe0 pipe1 users heap)"
proof -
  have w: "dom (re_watch (ws_reactor (main_start listenfd pipe0 pipe1 users heap))) = {listenfd, pipe0}"
    "re_user_count (ws_reactor (main_start listenfd pipe0 pipe1 users heap)) = 0"
    by (auto simp: main_start_def addfd_def setnoblocking_def Let_def)
  have "ws_inv {listenfd, pipe0} [] (main_start listenfd pipe0 pipe1 users heap)"
    unfolding ws_inv_def ws_open_def w by (simp add: main_start_def timers_ok_def sort_timer_lst_new_def Let_def)
  then show ?thesis unfolding ws_ok_def by (intro exI [of _ "[]"]) (simp add: ws_open_def w)
qed

lemma main_step_ok: "main_step special fs ws ws' \<Longrightarrow> ws_ok special ws \<Longrightarrow> ws_ok special ws'"
proof (erule main_stepE)
  fix ev now
  assume "ws_ok special ws" "event_ok special ev ws" "handle_event now ev ws = Some ws'"
  then show ?thesis using handle_event_ok [of special ws ev now] by simp
next
  fix now ws1
  assume "ws_ok special ws" "timer_handler now ws = Some ws1" "ws' = ws1\<lparr>ws_timeout := False\<rparr>"
  then show ?thesis using timeout_ok [of special ws now] by simp
qed (rule web_process_ok)

interpretation web_loop: step_invariant "main_step special fs" "ws_ok special"
  by unfold_locales (rule main_step_ok)

lemma main_reach_ok: "main_reach special fs ws0 ws \<Longrightarrow> ws_ok special ws0 \<Longrightarrow> ws_ok special ws"
  unfolding main_reach_def by (rule web_loop.reach_keeps)


text \<open>The server with one connection, accepted at time 100.\<close>

definition main_example :: web_server where
  "main_example = main_start 3 4 5 (\<lambda>_. conn_example) Map.empty"

lemma main_example_accept:
  "\<exists>ws. handle_event 100 (Accept 7 0) main_example = Some ws \<and> ws_ok {3, 4} ws \<and> ws_open {3, 4} ws = {7} \<and>
    ws_timer ws 7 = Some 0 \<and> event_ok {3, 4} (Accept 7 0) main_example \<and> re_user_count (ws_reactor main_example) < MAX_FD"
proof -
  have ok: "ws_ok {3, 4} main_example" unfolding main_example_def by (rule main_start_ok)
  then obtain ps where inv: "ws_inv {3, 4} ps main_example" and t: "\<forall>fd \<in> ws_open {3, 4} main_example. timed ps main_example fd"
    by (auto simp: ws_ok_def)
  have m: "dom (re_watch (ws_reactor main_example)) = {3, 4}" "re_user_count (ws_reactor main_example) = 0"
    "tl_heap (ws_timers main_example) 0 = None"
    by (auto simp: main_example_def main_start_def addfd_def setnoblocking_def Let_def sort_timer_lst_new_def)
  have o: "ws_open {3, 4} main_example = {}" by (simp add: ws_open_def m)
  have r: "re_user_count (ws_reactor main_example) < MAX_FD" using m(2) by (simp add: MAX_FD_def)
  obtain ws where "on_accept 100 7 0 main_example = Some ws" "ws_ok {3, 4} ws" "ws_open {3, 4} ws = {7}" "ws_timer ws 7 = Some 0"
    using on_accept_ok [OF inv t, of 7 0 100] r o m by (auto simp: MAX_FD_def)
  then show ?thesis using r m by (simp add: handle_event_def event_ok_def MAX_FD_def)
qed


lemma conn_events_timer:
  "ws_ok special ws \<Longrightarrow> \<forall>ev \<in> set evs. (\<exists>a. ev = Readable fd a) \<or> (\<exists>a. ev = Writable fd a) \<Longrightarrow> events_ok special now evs ws \<Longrightarrow>
   handle_events now evs ws = Some ws' \<Longrightarrow>
   fd \<in> ws_open special ws' \<longrightarrow> ws_timers ws' = ws_timers ws \<and> ws_timer ws' fd = ws_timer ws fd"
proof (induction evs arbitrary: ws)
  case (Cons ev evs)
  obtain ps where inv: "ws_inv special ps ws" and t: "\<forall>fd \<in> ws_open special ws. timed ps ws fd"
    using Cons.prems(1) by (auto simp: ws_ok_def)
  have fd: "fd \<in> ws_open special ws" using Cons.prems(2,3) by (auto simp: event_ok_def)
  obtain a b where "ev = Readable fd a \<or> ev = Writable fd b" using Cons.prems(2) by auto
  from conn_event_ok [OF inv t fd this, of now] obtain ws1 where ws1: "handle_event now ev ws = Some ws1" "ws_ok special ws1"
    "ws_open special ws1 = ws_open special ws \<and> ws_timers ws1 = ws_timers ws \<and> ws_timer ws1 = ws_timer ws \<or>
     ws_open special ws1 = ws_open special ws - {fd}" by blast
  have ih: "fd \<in> ws_open special ws' \<longrightarrow> ws_timers ws' = ws_timers ws1 \<and> ws_timer ws' fd = ws_timer ws1 fd"
    by (rule Cons.IH [OF ws1(2)]) (use Cons.prems(2-4) ws1(1) in auto)
  show ?case
  proof (cases evs)
    case Nil
    then show ?thesis using ws1 Cons.prems(4) fd by auto
  next
    case (Cons ev2 evs2)
    have "event_ok special ev2 ws1" using Cons Cons.prems(3) ws1(1) by simp
    then have "fd \<in> ws_open special ws1" using Cons Cons.prems(2) by (auto simp: event_ok_def)
    then show ?thesis using ih ws1(3) by auto
  qed
qed simp



end
