(* ===== verification/WebSignal.thy ===== *)
theory WebSignal
  imports WebMain
begin

text \<open>
  \<^verbatim>\<open>web-5.11-pressure/main.cpp\<close> and \<^verbatim>\<open>signals_set.h\<close>: the start of the single-reactor server and its signals. The
  alarm clock sends \<^verbatim>\<open>SIGALRM\<close>, whose handler writes a byte into a pipe the main loop watches; \<open>process\<close> adds to the
  server of \<open>WebMain\<close> the actions registered, the bytes in the pipe and whether the alarm clock is set. A signal may come
  between any two steps of the loop.
\<close>

unbundle bit_operations_syntax

subsection \<open>Signals\<close>

datatype sig_action = Sig_ignore | Sig_handler_pipe

definition SIGPIPE :: int where "SIGPIPE = 13"

definition SIGALRM :: int where "SIGALRM = 14"

definition SA_RESTART :: "32 word" where "SA_RESTART = 0x10000000"

record web_process_state =
  wm_server :: web_server
  wm_actions :: "int \<rightharpoonup> sig_action \<times> 32 word"
  wm_pipe :: "int list"
  wm_alarm :: bool

text \<open>\<open>ret\<close> is what \<^verbatim>\<open>sigaction\<close> returns; the call is the argument of an assertion.\<close>

definition addsig :: "int \<Rightarrow> sig_action \<Rightarrow> 32 word \<Rightarrow> int \<Rightarrow> web_process_state \<Rightarrow> web_process_state option" where
  "addsig sig handler flag ret m = do {
     let sa_flags = 0 OR flag;
     assertion (ret \<noteq> -1);
     Some (m\<lparr>wm_actions := (wm_actions m)(sig \<mapsto> (handler, sa_flags))\<rparr>) }"

text \<open>The writing end does not block: a byte for which there is no room is lost.\<close>

definition sig_handler_pipe :: "nat \<Rightarrow> int \<Rightarrow> web_process_state \<Rightarrow> web_process_state" where
  "sig_handler_pipe room sig m =
     (let msg = sig mod 256 in if length (wm_pipe m) < room then m\<lparr>wm_pipe := wm_pipe m @ [msg]\<rparr> else m)"

text \<open>A signal without an action ends the process.\<close>

definition deliver :: "nat \<Rightarrow> int \<Rightarrow> web_process_state \<Rightarrow> web_process_state option" where
  "deliver room sig m = (case wm_actions m sig of
     None \<Rightarrow> None
   | Some (Sig_ignore, flags) \<Rightarrow> Some m
   | Some (Sig_handler_pipe, flags) \<Rightarrow> Some (sig_handler_pipe room sig m))"

subsection \<open>The start\<close>

text \<open>What the system answers to the calls before the loop.\<close>

record main_answers =
  ma_created :: "(bool \<times> bool) list"
  ma_sigpipe :: int
  ma_socket :: int
  ma_bind :: int
  ma_listen :: int
  ma_socketpair :: int
  ma_pipefd :: "int \<times> int"
  ma_sigalrm :: int

datatype main_result = Main_exit int | Main_loop "16 word" web_pool web_process_state

text \<open>\<open>numbers\<close> are the values \<^verbatim>\<open>atoi\<close> gives of the arguments; \<open>users\<close> and \<open>heap\<close> what is in the memory the
  connections and timers will be made in.\<close>

definition web_main :: "int list \<Rightarrow> main_answers \<Rightarrow> (int \<Rightarrow> http_conn) \<Rightarrow> (nat \<rightharpoonup> util_timer) \<Rightarrow> main_result option" where
  "web_main numbers ans users heap = (case numbers of
     [] \<Rightarrow> Some (Main_exit 1)
   | port # _ \<Rightarrow> do {
       let ws = main_start (ma_socket ans) (fst (ma_pipefd ans)) (snd (ma_pipefd ans)) users heap;
       m \<leftarrow> addsig SIGPIPE Sig_ignore 0 (ma_sigpipe ans)
              \<lparr>wm_server = ws, wm_actions = Map.empty, wm_pipe = [], wm_alarm = False\<rparr>;
       (case threadpool_new 8 (int MAX_REQUESTS) (ma_created ans) of
          None \<Rightarrow> Some (Main_exit 1)
        | Some pool \<Rightarrow>
            if ma_bind ans = -1 then Some (Main_exit (-1))
            else if ma_listen ans = -1 then Some (Main_exit (-1))
            else do {
              assertion (ma_socketpair ans \<noteq> -1);
              m1 \<leftarrow> addsig SIGALRM Sig_handler_pipe SA_RESTART (ma_sigalrm ans) m;
              Some (Main_loop (word_of_int port) pool (m1\<lparr>wm_alarm := True\<rparr>)) }) })"

text \<open>The loop is left when \<^verbatim>\<open>epoll_wait\<close> fails but for an interruption (\<^verbatim>\<open>EINTR\<close>, 4).\<close>

definition main_leaves :: "int \<Rightarrow> int \<Rightarrow> bool" where
  "main_leaves number errno \<longleftrightarrow> number < 0 \<and> errno \<noteq> 4"

definition main_leave :: "int \<Rightarrow> int \<Rightarrow> web_pool \<Rightarrow> web_process_state \<Rightarrow> web_pool \<times> web_process_state" where
  "main_leave epollfd listenfd pool m =
     (let re = ws_reactor (wm_server m)
      in (threadpool_delete pool,
          m\<lparr>wm_server := (wm_server m)\<lparr>ws_reactor := re\<lparr>re_closed := re_closed re @ [epollfd, listenfd]\<rparr>\<rparr>\<rparr>))"

subsection \<open>The loop and its signals\<close>

text \<open>The event of the pipe: up to 1024 bytes are taken out of it.\<close>

definition pipe_event :: "web_process_state \<Rightarrow> web_process_state" where
  "pipe_event m =
     (let signals = take 1024 (wm_pipe m)
      in if signals = [] then m
         else m\<lparr>wm_server := on_signals signals (wm_server m), wm_pipe := drop 1024 (wm_pipe m)\<rparr>)"

text \<open>The end of a batch: when the flag is up, the timeouts, and the alarm clock is set again.\<close>

definition batch_end :: "int \<Rightarrow> web_process_state \<Rightarrow> web_process_state option" where
  "batch_end now m =
     (if ws_timeout (wm_server m)
      then do {
        ws \<leftarrow> timer_handler now (wm_server m);
        Some (m\<lparr>wm_server := ws\<lparr>ws_timeout := False\<rparr>, wm_alarm := True\<rparr>) }
      else Some m)"

inductive signal_step :: "int set \<Rightarrow> (string \<Rightarrow> (file_stat \<times> mapping) option) \<Rightarrow> nat \<Rightarrow> web_process_state
    \<Rightarrow> web_process_state \<Rightarrow> bool"
  for special fs room where
  ss_event: "(\<forall>s. ev \<noteq> Signals s) \<Longrightarrow> event_ok special ev (wm_server m) \<Longrightarrow> handle_event now ev (wm_server m) = Some ws \<Longrightarrow>
    signal_step special fs room m (m\<lparr>wm_server := ws\<rparr>)"
| ss_pipe: "signal_step special fs room m (pipe_event m)"
| ss_batch_end: "batch_end now m = Some m' \<Longrightarrow> signal_step special fs room m m'"
| ss_process: "web_process fs (wm_server m) = Some ws \<Longrightarrow> signal_step special fs room m (m\<lparr>wm_server := ws\<rparr>)"
| ss_alarm: "wm_alarm m \<Longrightarrow> deliver room SIGALRM (m\<lparr>wm_alarm := False\<rparr>) = Some m' \<Longrightarrow> signal_step special fs room m m'"
| ss_sigpipe: "deliver room SIGPIPE m = Some m' \<Longrightarrow> signal_step special fs room m m'"

inductive_cases signal_stepE: "signal_step special fs room m m'"

subsection \<open>The alarm is not lost\<close>

lemma user_step_timeout [simp]: "ws_timeout (pool_append_conn fd ws) = ws_timeout ws"
  by (simp add: pool_append_conn_def)

lemma drop_conn_timeout: "drop_conn fd ws = Some ws' \<Longrightarrow> ws_timeout ws' = ws_timeout ws"
  by (auto simp: drop_conn_def Option.bind_eq_Some_conv)

lemma handle_event_timeout:
  assumes "handle_event now ev ws = Some ws'" and "\<forall>s. ev \<noteq> Signals s"
  shows "ws_timeout ws' = ws_timeout ws"
proof (cases ev)
  case (Accept fd addr)
  then show ?thesis using assms(1) by (auto simp: handle_event_def on_accept_def Let_def Option.bind_eq_Some_conv split: if_splits)
next
  case (Hangup fd)
  then show ?thesis using assms(1) by (simp add: handle_event_def drop_conn_timeout)
next
  case (Signals s)
  then show ?thesis using assms(2) by simp
next
  case (Readable fd answers)
  obtain hc where hc: "user fd ws = Some hc" using assms(1) Readable by (cases "user fd ws") (simp_all add: handle_event_def on_readable_def)
  obtain ok hc1 where "http_read (hc\<lparr>hc_recv := answers\<rparr>) = (ok, hc1)" by fastforce
  then show ?thesis using assms(1) Readable hc
    by (cases ok) (auto simp: handle_event_def on_readable_def dest!: drop_conn_timeout)
next
  case (Writable fd answers)
  then show ?thesis using assms(1)
    by (auto simp: handle_event_def on_writable_def Let_def Option.bind_eq_Some_conv dest!: drop_conn_timeout split: if_splits prod.splits)
qed

lemma web_process_timeout: "web_process fs ws = Some ws' \<Longrightarrow> ws_timeout ws' = ws_timeout ws"
  by (auto simp: web_process_def Option.bind_eq_Some_conv split: list.splits)

text \<open>The alarm clock is set, or its byte is in the pipe, or the loop knows; only one of them.\<close>

definition alarms :: "web_process_state \<Rightarrow> nat" where
  "alarms m = of_bool (wm_alarm m) + length (wm_pipe m) + of_bool (ws_timeout (wm_server m))"

definition wm_inv :: "int set \<Rightarrow> web_process_state \<Rightarrow> bool" where
  "wm_inv special m \<longleftrightarrow> ws_ok special (wm_server m) \<and> set (wm_pipe m) \<subseteq> {SIGALRM} \<and> alarms m = 1 \<and>
     (\<exists>flags. wm_actions m SIGPIPE = Some (Sig_ignore, flags)) \<and>
     (\<exists>flags. wm_actions m SIGALRM = Some (Sig_handler_pipe, flags))"

lemma wm_inv_server:
  "wm_inv special m \<Longrightarrow> ws_ok special ws \<Longrightarrow> ws_timeout ws = ws_timeout (wm_server m) \<Longrightarrow> wm_inv special (m\<lparr>wm_server := ws\<rparr>)"
  by (simp add: wm_inv_def alarms_def)

lemma pipe_event_ok:
  assumes "wm_inv special m"
  shows "wm_inv special (pipe_event m)"
proof (cases "wm_pipe m")
  case Nil
  then show ?thesis using assms by (simp add: pipe_event_def)
next
  case (Cons s pipe)
  then have one: "pipe = []" "s = SIGALRM" "\<not> wm_alarm m" "\<not> ws_timeout (wm_server m)"
    using assms by (auto simp: wm_inv_def alarms_def split: if_splits)
  have ok: "ws_ok special ((wm_server m)\<lparr>ws_timeout := True\<rparr>)"
    by (rule ws_ok_same [of _ "wm_server m"]) (use assms in \<open>simp_all add: wm_inv_def\<close>)
  have "pipe_event m = m\<lparr>wm_server := (wm_server m)\<lparr>ws_timeout := True\<rparr>, wm_pipe := []\<rparr>"
    using Cons one by (simp add: pipe_event_def on_signals_def SIGALRM_def)
  then show ?thesis using assms ok one by (simp add: wm_inv_def alarms_def)
qed

lemma batch_end_ok:
  assumes "wm_inv special m"
  shows "\<exists>m'. batch_end now m = Some m' \<and> wm_inv special m' \<and> \<not> ws_timeout (wm_server m') \<and>
    (ws_timeout (wm_server m) \<longrightarrow> wm_alarm m')"
proof (cases "ws_timeout (wm_server m)")
  case True
  then have one: "wm_pipe m = []" "\<not> wm_alarm m" using assms by (auto simp: wm_inv_def alarms_def)
  obtain ws where "timer_handler now (wm_server m) = Some ws" "ws_ok special (ws\<lparr>ws_timeout := False\<rparr>)"
    using timeout_ok [of special "wm_server m" now] assms by (auto simp: wm_inv_def)
  then show ?thesis using True assms one by (simp add: batch_end_def wm_inv_def alarms_def)
qed (use assms in \<open>simp add: batch_end_def\<close>)

lemma deliver_ok:
  assumes "wm_inv special m" and "0 < room"
  shows "deliver room SIGPIPE m = Some m"
    and "wm_alarm m \<Longrightarrow> \<exists>m'. deliver room SIGALRM (m\<lparr>wm_alarm := False\<rparr>) = Some m' \<and> wm_inv special m' \<and> wm_pipe m' = [SIGALRM]"
proof -
  show "deliver room SIGPIPE m = Some m" using assms(1) by (auto simp: deliver_def wm_inv_def)
  assume a: "wm_alarm m"
  then have one: "wm_pipe m = []" "\<not> ws_timeout (wm_server m)" using assms(1) by (auto simp: wm_inv_def alarms_def)
  obtain flags where "wm_actions m SIGALRM = Some (Sig_handler_pipe, flags)" using assms(1) by (auto simp: wm_inv_def)
  then have "deliver room SIGALRM (m\<lparr>wm_alarm := False\<rparr>) = Some (m\<lparr>wm_alarm := False, wm_pipe := [SIGALRM]\<rparr>)"
    using one assms(2) by (simp add: deliver_def sig_handler_pipe_def SIGALRM_def)
  moreover have "wm_inv special (m\<lparr>wm_alarm := False, wm_pipe := [SIGALRM]\<rparr>)"
    using one assms(1) by (simp add: wm_inv_def alarms_def)
  ultimately show "\<exists>m'. deliver room SIGALRM (m\<lparr>wm_alarm := False\<rparr>) = Some m' \<and> wm_inv special m' \<and> wm_pipe m' = [SIGALRM]"
    by simp
qed

lemma signal_step_ok: "signal_step special fs room m m' \<Longrightarrow> 0 < room \<and> wm_inv special m \<Longrightarrow> 0 < room \<and> wm_inv special m'"
proof (erule signal_stepE)
  fix ev now ws
  assume a: "0 < room \<and> wm_inv special m" "\<forall>s. ev \<noteq> Signals s" "event_ok special ev (wm_server m)"
    "handle_event now ev (wm_server m) = Some ws" "m' = m\<lparr>wm_server := ws\<rparr>"
  then have "ws_ok special ws" using handle_event_ok [of special "wm_server m" ev now] by (simp add: wm_inv_def)
  then show ?thesis using wm_inv_server [of special m ws] handle_event_timeout [OF a(4,2)] a(1,5) by simp
next
  fix ws
  assume a: "0 < room \<and> wm_inv special m" "web_process fs (wm_server m) = Some ws" "m' = m\<lparr>wm_server := ws\<rparr>"
  then have "ws_ok special ws" using web_process_ok [of special "wm_server m" fs ws] by (simp add: wm_inv_def)
  then show ?thesis using wm_inv_server [of special m ws] web_process_timeout [OF a(2)] a(1,3) by simp
next
  fix now
  assume "0 < room \<and> wm_inv special m" "batch_end now m = Some m'"
  then show ?thesis using batch_end_ok [of special m now] by auto
next
  assume "0 < room \<and> wm_inv special m" "wm_alarm m" "deliver room SIGALRM (m\<lparr>wm_alarm := False\<rparr>) = Some m'"
  then show ?thesis using deliver_ok(2) [of special m room] by auto
next
  assume "0 < room \<and> wm_inv special m" "deliver room SIGPIPE m = Some m'"
  then show ?thesis using deliver_ok(1) [of special m room] by auto
qed (simp add: pipe_event_ok)

interpretation web_signals: step_invariant "signal_step special fs room" "\<lambda>m. 0 < room \<and> wm_inv special m"
  by unfold_locales (rule signal_step_ok)

lemma web_main_inv:
  assumes "web_main numbers ans users heap = Some (Main_loop port pool m)"
  shows "wm_inv {ma_socket ans, fst (ma_pipefd ans)} m"
proof -
  let ?ws = "main_start (ma_socket ans) (fst (ma_pipefd ans)) (snd (ma_pipefd ans)) users heap"
  have "m = \<lparr>wm_server = ?ws, wm_actions = [SIGPIPE \<mapsto> (Sig_ignore, 0), SIGALRM \<mapsto> (Sig_handler_pipe, SA_RESTART)],
      wm_pipe = [], wm_alarm = True\<rparr>"
    using assms by (auto simp: web_main_def addsig_def assertion_def Let_def split: list.splits option.splits if_splits)
  moreover have "\<not> ws_timeout ?ws" by (simp add: main_start_def Let_def)
  ultimately show ?thesis using main_start_ok by (simp add: wm_inv_def alarms_def SIGPIPE_def SIGALRM_def)
qed


definition answers_example :: main_answers where
  "answers_example = \<lparr>ma_created = replicate 8 (True, True), ma_sigpipe = 0, ma_socket = 3, ma_bind = 0, ma_listen = 0,
     ma_socketpair = 0, ma_pipefd = (5, 6), ma_sigalrm = 0\<rparr>"


end
