(* ===== verification/Utilities.thy ===== *)
theory Utilities
  imports Prelude "HOL-Library.Monad_Syntax" "HOL-Library.Multiset"
begin

text \<open>
  \<^verbatim>\<open>mutlithread/multiThread/base\<close>: \<open>any\<close>, \<open>ObjectPool_unique\<close>, \<open>Singleton\<close> and \<open>ThreadLocal\<close>.

  The variables of type \<open>any\<close> a program has are numbered. Their data holders are objects of a heap, each with
  the type and the value it was made with. \<open>None\<close> is a cast to another type than the holder's, or of an empty
  \<open>any\<close>: both are \<^verbatim>\<open>static_cast\<close>s that nothing checks.
\<close>

subsection \<open>any\<close>

record ('t, 'v) any_state =
  as_heap :: "nat \<Rightarrow> 't \<times> 'v"
  as_used :: nat
  as_data :: "nat \<Rightarrow> nat option"

definition any_new :: "nat \<Rightarrow> ('t, 'v) any_state \<Rightarrow> ('t, 'v) any_state" where
  "any_new x s = s\<lparr>as_data := (as_data s)(x := None)\<rparr>"

definition any_value :: "nat \<Rightarrow> 't \<Rightarrow> 'v \<Rightarrow> ('t, 'v) any_state \<Rightarrow> ('t, 'v) any_state" where
  "any_value x t v s = s\<lparr>as_heap := (as_heap s)(as_used s := (t, v)), as_used := as_used s + 1,
     as_data := (as_data s)(x := Some (as_used s))\<rparr>"

definition any_copy :: "nat \<Rightarrow> nat \<Rightarrow> ('t, 'v) any_state \<Rightarrow> ('t, 'v) any_state" where
  "any_copy x y s = s\<lparr>as_data := (as_data s)(x := as_data s y)\<rparr>"

definition any_move :: "nat \<Rightarrow> nat \<Rightarrow> ('t, 'v) any_state \<Rightarrow> ('t, 'v) any_state" where
  "any_move x y s = s\<lparr>as_data := (as_data s)(x := as_data s y, y := None)\<rparr>"

text \<open>Assignment copies into a temporary, which is swapped with the target by three moves and destroyed.\<close>

definition any_assign :: "nat \<Rightarrow> nat \<Rightarrow> ('t, 'v) any_state \<Rightarrow> ('t, 'v) any_state" where
  "any_assign x y s =
     (let tmp = as_data s y; tmp2 = as_data s x; d1 = (as_data s)(x := None);
          d2 = d1(x := tmp); tmp = tmp2
      in s\<lparr>as_data := d2\<rparr>)"

definition any_move_assign :: "nat \<Rightarrow> nat \<Rightarrow> ('t, 'v) any_state \<Rightarrow> ('t, 'v) any_state" where
  "any_move_assign x y s = (if x \<noteq> y then any_move x y s else s)"

text \<open>The type of what is held; \<open>None\<close> is \<^verbatim>\<open>typeid(void)\<close>.\<close>

definition any_type :: "nat \<Rightarrow> ('t, 'v) any_state \<Rightarrow> 't option" where
  "any_type x s = map_option (\<lambda>a. fst (as_heap s a)) (as_data s x)"

text \<open>A cast gives a reference to what the holder holds.\<close>

definition any_cast :: "'t \<Rightarrow> nat \<Rightarrow> ('t, 'v) any_state \<Rightarrow> nat option" where
  "any_cast t x s = do { a \<leftarrow> as_data s x; if fst (as_heap s a) = t then Some a else None }"

definition any_get :: "'t \<Rightarrow> nat \<Rightarrow> ('t, 'v) any_state \<Rightarrow> 'v option" where
  "any_get t x s = do { a \<leftarrow> any_cast t x s; Some (snd (as_heap s a)) }"

definition any_put :: "'t \<Rightarrow> nat \<Rightarrow> 'v \<Rightarrow> ('t, 'v) any_state \<Rightarrow> ('t, 'v) any_state option" where
  "any_put t x v s = do { a \<leftarrow> any_cast t x s; Some (s\<lparr>as_heap := (as_heap s)(a := (t, v))\<rparr>) }"

datatype ('t, 'v) any_op = Any_new nat | Any_value nat 't 'v | Any_copy nat nat | Any_move nat nat | Any_assign nat nat
  | Any_move_assign nat nat | Any_get 't nat | Any_put 't nat 'v

fun any_exec :: "('t, 'v) any_op \<Rightarrow> ('t, 'v) any_state \<Rightarrow> ('t, 'v) any_state option" where
  "any_exec (Any_new x) s = Some (any_new x s)"
| "any_exec (Any_value x t v) s = Some (any_value x t v s)"
| "any_exec (Any_copy x y) s = Some (any_copy x y s)"
| "any_exec (Any_move x y) s = Some (any_move x y s)"
| "any_exec (Any_assign x y) s = Some (any_assign x y s)"
| "any_exec (Any_move_assign x y) s = Some (any_move_assign x y s)"
| "any_exec (Any_get t x) s = do { v \<leftarrow> any_get t x s; Some s }"
| "any_exec (Any_put t x v) s = any_put t x v s"

fun any_run :: "('t, 'v) any_op list \<Rightarrow> ('t, 'v) any_state \<Rightarrow> ('t, 'v) any_state option" where
  "any_run [] s = Some s"
| "any_run (op # ops) s = do { s1 \<leftarrow> any_exec op s; any_run ops s1 }"

text \<open>The reference knows only which type each variable holds, and refuses a cast to another.\<close>

fun any_types :: "('t, 'v) any_op \<Rightarrow> (nat \<Rightarrow> 't option) \<Rightarrow> (nat \<Rightarrow> 't option) option" where
  "any_types (Any_new x) \<Gamma> = Some (\<Gamma>(x := None))"
| "any_types (Any_value x t v) \<Gamma> = Some (\<Gamma>(x := Some t))"
| "any_types (Any_copy x y) \<Gamma> = Some (\<Gamma>(x := \<Gamma> y))"
| "any_types (Any_move x y) \<Gamma> = Some (\<Gamma>(x := \<Gamma> y, y := None))"
| "any_types (Any_assign x y) \<Gamma> = Some (\<Gamma>(x := \<Gamma> y))"
| "any_types (Any_move_assign x y) \<Gamma> = Some (if x = y then \<Gamma> else \<Gamma>(x := \<Gamma> y, y := None))"
| "any_types (Any_get t x) \<Gamma> = (if \<Gamma> x = Some t then Some \<Gamma> else None)"
| "any_types (Any_put t x v) \<Gamma> = (if \<Gamma> x = Some t then Some \<Gamma> else None)"

fun any_typing :: "('t, 'v) any_op list \<Rightarrow> (nat \<Rightarrow> 't option) \<Rightarrow> (nat \<Rightarrow> 't option) option" where
  "any_typing [] \<Gamma> = Some \<Gamma>"
| "any_typing (op # ops) \<Gamma> = do { \<Gamma>1 \<leftarrow> any_types op \<Gamma>; any_typing ops \<Gamma>1 }"

definition any_state_ok :: "('t, 'v) any_state \<Rightarrow> bool" where
  "any_state_ok s \<longleftrightarrow> (\<forall>x a. as_data s x = Some a \<longrightarrow> a < as_used s)"

lemma any_exec_types:
  assumes "any_state_ok s"
  shows "case any_types op (\<lambda>x. any_type x s) of
      None \<Rightarrow> any_exec op s = None
    | Some \<Gamma> \<Rightarrow> \<exists>s'. any_exec op s = Some s' \<and> any_state_ok s' \<and> (\<lambda>x. any_type x s') = \<Gamma>"
proof -
  have used: "as_data s x = Some a \<Longrightarrow> a \<noteq> as_used s" for x a using assms by (auto simp: any_state_ok_def)
  show ?thesis
  proof (cases op)
    case (Any_get t x)
    then show ?thesis using assms by (cases "as_data s x") (auto simp: any_get_def any_cast_def any_type_def)
  next
    case (Any_put t x v)
    then show ?thesis using assms
      by (cases "as_data s x") (auto simp: any_put_def any_cast_def any_type_def any_state_ok_def fun_eq_iff map_option_case split: option.split)
  next
    case (Any_value x t v)
    then show ?thesis using assms used
      by (auto simp: any_value_def any_type_def any_state_ok_def fun_eq_iff less_Suc_eq map_option_case split: option.split)
  qed (use assms in \<open>auto simp: any_new_def any_copy_def any_move_def any_assign_def any_move_assign_def any_type_def any_state_ok_def
      fun_eq_iff Let_def\<close>)
qed

text \<open>C37: an \<open>any\<close> is as safe as the types it is used at. A sequence of constructions, copies, moves,
  assignments and casts runs without a wrong cast if and only if each cast is to the type of the value put in, wherever it
  has been copied or moved since; then the types afterwards are those the sequence says. Nothing in the class checks
  this: a cast at another type, or of an \<open>any\<close> moved from, reads what is not there.\<close>

theorem any_type_sound:
  assumes "any_state_ok s"
  shows "(any_run ops s = None \<longleftrightarrow> any_typing ops (\<lambda>x. any_type x s) = None) \<and>
    (\<forall>s'. any_run ops s = Some s' \<longrightarrow> any_typing ops (\<lambda>x. any_type x s) = Some (\<lambda>x. any_type x s'))"
  using assms
proof (induction ops arbitrary: s)
  case (Cons op ops)
  from any_exec_types [OF Cons.prems, of op] show ?case
  proof (cases "any_types op (\<lambda>x. any_type x s)")
    case (Some \<Gamma>)
    then obtain s1 where "any_exec op s = Some s1" "any_state_ok s1" "(\<lambda>x. any_type x s1) = \<Gamma>"
      using any_exec_types [OF Cons.prems, of op] by auto
    then show ?thesis using Cons.IH [of s1] Some by simp
  qed simp
qed simp

definition any_example :: "(nat, nat) any_state" where
  "any_example = \<lparr>as_heap = (\<lambda>_. (0, 0)), as_used = 0, as_data = (\<lambda>_. None)\<rparr>"

theorem any_type_sound_witness:
  "any_run [Any_value 1 7 42, Any_move 2 1, Any_get 7 1] any_example = None \<and>
   any_run [Any_value 1 7 42, Any_copy 2 1, Any_put 7 1 43, Any_get 7 2] any_example \<noteq> None"
proof -
  have ok: "any_state_ok any_example" by (simp add: any_state_ok_def any_example_def)
  from any_type_sound [OF ok, of "[Any_value 1 7 42, Any_move 2 1, Any_get 7 1]"]
    any_type_sound [OF ok, of "[Any_value 1 7 42, Any_copy 2 1, Any_put 7 1 43, Any_get 7 2]"]
  show ?thesis by simp
qed

text \<open>A copy is another name for the same value: what is written through the one is read through the other.\<close>

lemma any_copies_share:
  assumes "any_get t y s = Some v" and "x \<noteq> y"
  shows "\<exists>s'. any_put t y w (any_copy x y s) = Some s' \<and> any_get t x s' = Some w"
  using assms by (auto simp: any_get_def any_put_def any_cast_def any_copy_def Option.bind_eq_Some_conv split: if_splits)

subsection \<open>ObjectPool\<close>

text \<open>The free objects; \<open>None\<close> is the exception of an empty pool. An object comes back through its deleter.\<close>

definition pool_add :: "'a \<Rightarrow> 'a list \<Rightarrow> 'a list" where
  "pool_add obj pool = pool @ [obj]"

definition pool_get :: "'a list \<Rightarrow> ('a \<times> 'a list) option" where
  "pool_get pool = (if pool = [] then None else Some (last pool, butlast pool))"

definition pool_deleter :: "'a \<Rightarrow> 'a list \<Rightarrow> 'a list" where
  "pool_deleter t pool = pool @ [t]"

definition pool_size :: "'a list \<Rightarrow> nat" where
  "pool_size pool = length pool"

datatype 'a pool_call = Pool_add 'a | Pool_get | Pool_return nat

text \<open>The pool with the objects handed out, in the order they were.\<close>

fun pool_use :: "'a pool_call \<Rightarrow> 'a list \<times> 'a list \<Rightarrow> ('a list \<times> 'a list) option" where
  "pool_use (Pool_add obj) (pool, out) = Some (pool_add obj pool, out)"
| "pool_use Pool_get (pool, out) = do { (obj, pool1) \<leftarrow> pool_get pool; Some (pool1, out @ [obj]) }"
| "pool_use (Pool_return i) (pool, out) =
     (if i < length out then Some (pool_deleter (out ! i) pool, take i out @ drop (i + 1) out) else None)"

fun pool_added :: "'a pool_call list \<Rightarrow> 'a multiset" where
  "pool_added [] = {#}"
| "pool_added (Pool_add obj # us) = add_mset obj (pool_added us)"
| "pool_added (_ # us) = pool_added us"

fun pool_uses :: "'a pool_call list \<Rightarrow> 'a list \<times> 'a list \<Rightarrow> ('a list \<times> 'a list) option" where
  "pool_uses [] st = Some st"
| "pool_uses (u # us) st = do { st1 \<leftarrow> pool_use u st; pool_uses us st1 }"

lemma mset_remove_nth: "i < length xs \<Longrightarrow> add_mset (xs ! i) (mset (take i xs @ drop (i + 1) xs)) = mset xs"
  by (subst (3) id_take_nth_drop [of i xs]) simp_all

lemma pool_use_keeps:
  "pool_use u (pool, out) = Some (pool', out') \<Longrightarrow> mset pool' + mset out' = mset pool + mset out + pool_added [u]"
proof (cases u)
  case Pool_get
  assume "pool_use u (pool, out) = Some (pool', out')"
  then show ?thesis using Pool_get
    by (cases pool rule: rev_cases) (auto simp: pool_get_def Option.bind_eq_Some_conv split: if_splits)
next
  case (Pool_return i)
  assume "pool_use u (pool, out) = Some (pool', out')"
  then show ?thesis using Pool_return mset_remove_nth [of i out] by (auto simp: pool_deleter_def split: if_splits)
qed (auto simp: pool_add_def)

text \<open>No object is lost or handed out twice: those in the pool and those handed out are those added.\<close>

lemma pool_uses_keep:
  "pool_uses us (pool, out) = Some (pool', out') \<Longrightarrow> mset pool' + mset out' = mset pool + mset out + pool_added us"
proof (induction us arbitrary: pool out)
  case (Cons u us)
  then obtain p o' where "pool_use u (pool, out) = Some (p, o')" "pool_uses us (p, o') = Some (pool', out')"
    by (auto simp: Option.bind_eq_Some_conv)
  moreover have "pool_added (u # us) = pool_added [u] + pool_added us" by (cases u) simp_all
  ultimately show ?case using Cons.IH pool_use_keeps by fastforce
qed simp

subsection \<open>Singleton and ThreadLocal\<close>

record 'a singleton =
  sg_once :: bool
  sg_value :: "'a option"
  sg_atexit :: bool

definition singleton_init :: "bool \<Rightarrow> 'a \<Rightarrow> 'a singleton \<Rightarrow> 'a singleton" where
  "singleton_init no_destroy new sg = sg\<lparr>sg_value := Some new, sg_atexit := sg_atexit sg \<or> \<not> no_destroy\<rparr>"

definition singleton_instance :: "bool \<Rightarrow> 'a \<Rightarrow> 'a singleton \<Rightarrow> ('a \<times> 'a singleton) option" where
  "singleton_instance no_destroy new sg = do {
     let sg1 = (if sg_once sg then sg else singleton_init no_destroy new (sg\<lparr>sg_once := True\<rparr>));
     v \<leftarrow> sg_value sg1;
     Some (v, sg1) }"

definition singleton_destroy :: "'a singleton \<Rightarrow> 'a singleton" where
  "singleton_destroy sg = sg\<lparr>sg_value := None\<rparr>"

lemma singleton_instance_same:
  assumes "singleton_instance nd a sg = Some (v, sg1)"
  shows "singleton_instance nd b sg1 = Some (v, sg1)"
  using assms by (cases "sg_once sg") (auto simp: singleton_instance_def Let_def singleton_init_def Option.bind_eq_Some_conv)

text \<open>After the exit handler has run, asking for the instance fails its assertion: the once flag stays set.\<close>

lemma singleton_gone:
  assumes "singleton_instance nd a sg = Some (v, sg1)"
  shows "singleton_instance nd b (singleton_destroy sg1) = None"
  using assms by (cases "sg_once sg") (auto simp: singleton_instance_def Let_def singleton_init_def singleton_destroy_def Option.bind_eq_Some_conv)

definition thread_local_value :: "nat \<Rightarrow> 'a \<Rightarrow> (nat \<rightharpoonup> 'a) \<Rightarrow> 'a \<times> (nat \<rightharpoonup> 'a)" where
  "thread_local_value tid new m = (case m tid of Some v \<Rightarrow> (v, m) | None \<Rightarrow> (new, m(tid \<mapsto> new)))"

definition thread_local_exit :: "nat \<Rightarrow> (nat \<rightharpoonup> 'a) \<Rightarrow> (nat \<rightharpoonup> 'a)" where
  "thread_local_exit tid m = m(tid := None)"

lemma thread_local_own:
  "thread_local_value t a m = (v, m') \<Longrightarrow> m' t = Some v \<and> (\<forall>t'. t' \<noteq> t \<longrightarrow> m' t' = m t') \<and> thread_local_value t b m' = (v, m')"
  by (auto simp: thread_local_value_def split: option.splits)

end
