(* ===== verification/WebBench.thy ===== *)
theory WebBench
  imports HttpContext WebParse "HOL-Library.Monad_Syntax"
begin

text \<open>
  \<^verbatim>\<open>mutlithread/WebBench/webbench.c\<close> and \<^verbatim>\<open>socket.c\<close>: the load generator with which both servers
  are measured. Its global variables are the options \<open>bench_options\<close> and the counters of \<open>bench_run\<close>, which also
  holds what the kernel will answer to the calls of a process, whether the alarm goes off during a call, and the calls made so far.

  \<open>None\<close> is a write past a fixed array, the overflow of an \<^verbatim>\<open>int\<close>, or a call that never returns; \<open>Inl n\<close> is an
  exit with code \<open>n\<close>.
\<close>

subsection \<open>The options\<close>

datatype bench_method = METHOD_GET | METHOD_HEAD | METHOD_OPTIONS | METHOD_TRACE

record bench_options =
  bo_http10 :: int
  bo_method :: bench_method
  bo_clients :: int
  bo_force :: bool
  bo_force_reload :: bool
  bo_proxyport :: int
  bo_proxyhost :: "string option"
  bo_benchtime :: int
  bo_keep_alive :: bool

definition default_options :: bench_options where
  "default_options = \<lparr>bo_http10 = 1, bo_method = METHOD_GET, bo_clients = 1, bo_force = False, bo_force_reload = False,
     bo_proxyport = 80, bo_proxyhost = None, bo_benchtime = 30, bo_keep_alive = True\<rparr>"

text \<open>A long option either sets a variable, and \<^verbatim>\<open>getopt_long\<close> returns 0, or stands for a letter.\<close>

datatype long_entry = Sets_force | Sets_reload | Sets_method bench_method | Gives char

definition long_options :: "(string \<times> bool \<times> long_entry) list" where
  "long_options = [(''force'', False, Sets_force), (''reload'', False, Sets_reload), (''time'', True, Gives CHR ''t''),
     (''help'', False, Gives CHR ''?''), (''http09'', False, Gives CHR ''9''), (''http10'', False, Gives CHR ''1''),
     (''http11'', False, Gives CHR ''2''), (''get'', False, Sets_method METHOD_GET), (''head'', False, Sets_method METHOD_HEAD),
     (''options'', False, Sets_method METHOD_OPTIONS), (''trace'', False, Sets_method METHOD_TRACE),
     (''version'', False, Gives CHR ''V''), (''proxy'', True, Gives CHR ''p''), (''clients'', True, Gives CHR ''c'')]"

datatype bench_arg = Short char string | Long string string

definition atoi :: "string \<Rightarrow> int" where
  "atoi s = sint (word_of_int (max (- (2 ^ 63)) (min (2 ^ 63 - 1) (atol s))) :: 32 word)"

definition strrchr :: "char \<Rightarrow> string \<Rightarrow> nat option" where
  "strrchr c s = (if c \<in> set s then Some (length s - 1 - find_char c (rev s)) else None)"

definition proxy_option :: "string \<Rightarrow> bench_options \<Rightarrow> nat + bench_options" where
  "proxy_option optarg bo = (let bo1 = bo\<lparr>bo_proxyhost := Some optarg\<rparr> in
     case strrchr CHR '':'' optarg of
       None \<Rightarrow> Inr bo1
     | Some tmp \<Rightarrow> if tmp = 0 then Inl 2 else if tmp = length optarg - 1 then Inl 2
         else Inr (bo1\<lparr>bo_proxyhost := Some (take tmp optarg), bo_proxyport := atoi (drop (tmp + 1) optarg)\<rparr>))"

definition short_option :: "char \<Rightarrow> string \<Rightarrow> bench_options \<Rightarrow> nat + bench_options" where
  "short_option opt optarg bo =
     (if opt = CHR ''f'' then Inr (bo\<lparr>bo_force := True\<rparr>)
      else if opt = CHR ''r'' then Inr (bo\<lparr>bo_force_reload := True\<rparr>)
      else if opt = CHR ''9'' then Inr (bo\<lparr>bo_http10 := 0\<rparr>)
      else if opt = CHR ''1'' then Inr (bo\<lparr>bo_http10 := 1\<rparr>)
      else if opt = CHR ''2'' then Inr (bo\<lparr>bo_http10 := 2\<rparr>)
      else if opt = CHR ''V'' then Inl 0
      else if opt = CHR ''t'' then Inr (bo\<lparr>bo_benchtime := atoi optarg\<rparr>)
      else if opt = CHR ''k'' then Inr (bo\<lparr>bo_keep_alive := True\<rparr>)
      else if opt = CHR ''p'' then proxy_option optarg bo
      else if opt = CHR ''c'' then Inr (bo\<lparr>bo_clients := atoi optarg\<rparr>)
      else Inl 2)"

definition handle_option :: "bench_arg \<Rightarrow> bench_options \<Rightarrow> nat + bench_options" where
  "handle_option a bo = (case a of
     Short c optarg \<Rightarrow> short_option c optarg bo
   | Long name optarg \<Rightarrow> (case map_of long_options name of
       None \<Rightarrow> short_option CHR ''?'' optarg bo
     | Some (_, Sets_force) \<Rightarrow> Inr (bo\<lparr>bo_force := True\<rparr>)
     | Some (_, Sets_reload) \<Rightarrow> Inr (bo\<lparr>bo_force_reload := True\<rparr>)
     | Some (_, Sets_method m) \<Rightarrow> Inr (bo\<lparr>bo_method := m\<rparr>)
     | Some (_, Gives c) \<Rightarrow> short_option c optarg bo))"

fun handle_options :: "bench_arg list \<Rightarrow> bench_options \<Rightarrow> nat + bench_options" where
  "handle_options [] bo = Inr bo"
| "handle_options (a # as) bo = (case handle_option a bo of Inl n \<Rightarrow> Inl n | Inr bo1 \<Rightarrow> handle_options as bo1)"

text \<open>\<^verbatim>\<open>main\<close> up to the call of \<^verbatim>\<open>build_request\<close>.\<close>

definition bench_setup :: "bench_arg list \<Rightarrow> string list \<Rightarrow> nat + string \<times> bench_options" where
  "bench_setup opts args =
     (if opts = [] \<and> args = [] then Inl 2
      else case handle_options opts default_options of
        Inl n \<Rightarrow> Inl n
      | Inr bo \<Rightarrow> (case args of
          [] \<Rightarrow> Inl 2
        | url # _ \<Rightarrow>
            let bo1 = (if bo_clients bo = 0 then bo\<lparr>bo_clients := 1\<rparr> else bo);
                bo2 = (if bo_benchtime bo1 = 0 then bo1\<lparr>bo_benchtime := 30\<rparr> else bo1)
            in Inr (url, bo2)))"

subsection \<open>The request\<close>

definition MAXHOSTNAMELEN :: nat where
  "MAXHOSTNAMELEN = 64"

definition REQUEST_SIZE :: nat where
  "REQUEST_SIZE = 2048"

text \<open>\<^verbatim>\<open>strcat\<close> onto the request, with the room it needs for the terminating zero.\<close>

definition req_cat :: "string \<Rightarrow> string \<Rightarrow> string option" where
  "req_cat request s = (if length request + length s < REQUEST_SIZE then Some (request @ s) else None)"

text \<open>\<^verbatim>\<open>strncpy\<close> of \<open>n\<close> bytes into an array of zeros that is then read as a string: there must be room for a zero.\<close>

definition small_copy :: "nat \<Rightarrow> string \<Rightarrow> string option" where
  "small_copy room s = (if length s < room then Some s else None)"

definition method_text :: "bench_method \<Rightarrow> string" where
  "method_text m = (case m of METHOD_GET \<Rightarrow> ''GET'' | METHOD_HEAD \<Rightarrow> ''HEAD'' | METHOD_OPTIONS \<Rightarrow> ''OPTIONS'' | METHOD_TRACE \<Rightarrow> ''TRACE'')"

definition force_http :: "bench_options \<Rightarrow> bench_options" where
  "force_http bo =
     (let bo = (if bo_force_reload bo \<and> bo_proxyhost bo \<noteq> None \<and> bo_http10 bo < 1 then bo\<lparr>bo_http10 := 1\<rparr> else bo);
          bo = (if bo_method bo = METHOD_HEAD \<and> bo_http10 bo < 1 then bo\<lparr>bo_http10 := 1\<rparr> else bo);
          bo = (if bo_method bo = METHOD_OPTIONS \<and> bo_http10 bo < 2 then bo\<lparr>bo_http10 := 2\<rparr> else bo);
          bo = (if bo_method bo = METHOD_TRACE \<and> bo_http10 bo < 2 then bo\<lparr>bo_http10 := 2\<rparr> else bo)
      in bo)"

text \<open>\<^verbatim>\<open>tmp\<close> holds ten bytes. Ten are read as a number without a terminating zero, which is in order only if
  something among them ends the number.\<close>

definition atoi_rest :: "string \<Rightarrow> string" where
  "atoi_rest s = (let s1 = dropWhile (\<lambda>c. c \<in> {CHR '' '', CHR 0x09, CHR 0x0A, CHR 0x0B, CHR 0x0C, CHR 0x0D}) s;
       s2 = (if s1 \<noteq> [] \<and> hd s1 \<in> {CHR ''-'', CHR ''+''} then tl s1 else s1)
     in dropWhile is_digit s2)"

definition port_copy :: "string \<Rightarrow> string option" where
  "port_copy s = (if length s < 10 \<or> length s = 10 \<and> atoi_rest s \<noteq> [] then Some s else None)"

text \<open>The host and the port, from what follows \<^verbatim>\<open>://\<close> in the URL.\<close>

definition host_port :: "string \<Rightarrow> bench_options \<Rightarrow> (string \<times> bench_options) option" where
  "host_port rest bo =
     (if CHR '':'' \<in> set rest \<and> find_char CHR '':'' rest < find_char CHR ''/'' rest
      then do {
        host \<leftarrow> small_copy MAXHOSTNAMELEN (take (find_char CHR '':'' rest) rest);
        tmp \<leftarrow> port_copy (rng (find_char CHR '':'' rest + 1) (find_char CHR ''/'' rest) rest);
        let port = atoi tmp;
        Some (host, bo\<lparr>bo_proxyport := if port = 0 then 80 else port\<rparr>) }
      else do {
        host \<leftarrow> small_copy MAXHOSTNAMELEN (take (find_char CHR ''/'' rest) rest);
        Some (host, bo) })"

definition request_rest :: "string \<Rightarrow> string \<Rightarrow> bench_options \<Rightarrow> string option" where
  "request_rest host request bo = do {
     request \<leftarrow> (if bo_http10 bo = 1 then req_cat request '' HTTP/1.0''
                 else if bo_http10 bo = 2 then req_cat request '' HTTP/1.1'' else Some request);
     request \<leftarrow> req_cat request crlf;
     request \<leftarrow> (if bo_http10 bo > 0 then req_cat request (''User-Agent: WebBench 1.5'' @ crlf) else Some request);
     request \<leftarrow> (if bo_proxyhost bo = None \<and> bo_http10 bo > 0
                 then do { r1 \<leftarrow> req_cat request ''Host: ''; r2 \<leftarrow> req_cat r1 host; req_cat r2 crlf } else Some request);
     request \<leftarrow> (if bo_force_reload bo \<and> bo_proxyhost bo \<noteq> None then req_cat request (''Pragma: no-cache'' @ crlf) else Some request);
     request \<leftarrow> (if bo_http10 bo > 1
                 then (if \<not> bo_keep_alive bo then req_cat request (''Connection: close'' @ crlf)
                       else req_cat request (''Connection: Keep-Alive'' @ crlf))
                 else Some request);
     if bo_http10 bo > 0 then req_cat request crlf else Some request }"

definition build_request :: "string \<Rightarrow> bench_options \<Rightarrow> (nat + string \<times> string \<times> bench_options) option" where
  "build_request url bo0 =
     (let bo = force_http bo0; request = method_text (bo_method bo) @ '' '' in
      case search_seq ''://'' url of
        None \<Rightarrow> Some (Inl 2)
      | Some at \<Rightarrow>
          if length url > 1500 then Some (Inl 2)
          else if \<not> same_case_n ''http://'' url 7 then Some (Inl 2)
          else let rest = drop (at + 3) url in
            if CHR ''/'' \<notin> set rest then Some (Inl 2)
            else if bo_proxyhost bo = None
            then do {
              (host, bo1) \<leftarrow> host_port rest bo;
              request \<leftarrow> req_cat request (drop (find_char CHR ''/'' rest) rest);
              request \<leftarrow> request_rest host request bo1;
              Some (Inr (host, request, bo1)) }
            else do {
              request \<leftarrow> req_cat request url;
              request \<leftarrow> request_rest [] request bo;
              Some (Inr ([], request, bo)) })"

subsection \<open>What the request is\<close>

definition bench_headers :: "string \<Rightarrow> bench_options \<Rightarrow> (string \<times> string) list" where
  "bench_headers host bo =
     (if bo_http10 bo > 0 then [(''User-Agent'', ''WebBench 1.5'')] else []) @
     (if bo_proxyhost bo = None \<and> bo_http10 bo > 0 then [(''Host'', host)] else []) @
     (if bo_force_reload bo \<and> bo_proxyhost bo \<noteq> None then [(''Pragma'', ''no-cache'')] else []) @
     (if bo_http10 bo > 1 then [(''Connection'', if bo_keep_alive bo then ''Keep-Alive'' else ''close'')] else [])"

definition bench_version :: "bench_options \<Rightarrow> string" where
  "bench_version bo = (if bo_http10 bo = 1 then '' HTTP/1.0'' else if bo_http10 bo = 2 then '' HTTP/1.1'' else [])"

definition bench_text :: "string \<Rightarrow> string \<Rightarrow> bench_options \<Rightarrow> string" where
  "bench_text target host bo = method_text (bo_method bo) @ '' '' @ target @ bench_version bo @ crlf @
     concat (map render_header (bench_headers host bo)) @ (if bo_http10 bo > 0 then crlf else [])"

lemma crlf_kCRLF: "kCRLF = crlf"
  by (simp add: crlf_def kCRLF_def)

lemma req_cat_fits: "length request + length s < 2048 \<Longrightarrow> req_cat request s = Some (request @ s)"
  by (simp add: req_cat_def REQUEST_SIZE_def)

text \<open>The array is never left: whatever the options, the lines behind the target have at most 155 bytes with the host.\<close>

lemma request_rest_text:
  assumes "length request \<le> 1508" and "length host < 64"
  shows "request_rest host request bo = Some (request @ bench_version bo @ crlf @
     concat (map render_header (bench_headers host bo)) @ (if bo_http10 bo > 0 then crlf else []))"
  using assms
  by (simp add: request_rest_def req_cat_fits bench_version_def bench_headers_def render_header_def crlf_kCRLF crlf_def)

lemma length_method_text: "length (method_text m) \<le> 7"
  by (cases m) (simp_all add: method_text_def)

definition url_ok_for :: "string \<Rightarrow> bool" where
  "url_ok_for url \<longleftrightarrow> length url \<le> 1500 \<and> map lower (take 7 url) = ''http://'' \<and> CHR ''/'' \<in> set (drop 7 url)"

definition url_authority :: "string \<Rightarrow> string" where
  "url_authority url = takeWhile (\<lambda>c. c \<noteq> CHR ''/'') (drop 7 url)"

definition url_target :: "string \<Rightarrow> string" where
  "url_target url = dropWhile (\<lambda>c. c \<noteq> CHR ''/'') (drop 7 url)"

lemma take_find: "take (find_char c s) s = takeWhile (\<lambda>x. x \<noteq> c) s"
  by (induction s) auto

lemma drop_find: "drop (find_char c s) s = dropWhile (\<lambda>x. x \<noteq> c) s"
  by (induction s) auto

definition url_host :: "string \<Rightarrow> string" where
  "url_host url = takeWhile (\<lambda>c. c \<noteq> CHR '':'') (url_authority url)"

definition url_port :: "string \<Rightarrow> string" where
  "url_port url = drop (length (url_host url) + 1) (url_authority url)"

lemma lower_fixed: "lower c = d \<Longrightarrow> of_char d < (97 :: nat) \<Longrightarrow> c = d"
proof (cases "65 \<le> (of_char c :: nat) \<and> (of_char c :: nat) \<le> 90")
  case True
  moreover assume "lower c = d" "of_char d < (97 :: nat)"
  ultimately show ?thesis by (auto simp: lower_def)
qed (simp add: lower_def)

lemma http_prefix:
  assumes "same_case_n ''http://'' url 7"
  shows "map lower (take 7 url) = ''http://'' \<and> search_seq ''://'' url = Some 4"
proof -
  have e: "''http://'' = take 7 (map lower url @ [CHR 0x00])"
    using assms by (simp add: same_case_n_def lower_def)
  have len: "7 \<le> length url"
  proof (rule ccontr)
    assume "\<not> 7 \<le> length url"
    then have "CHR 0x00 \<in> set (take 7 (map lower url @ [CHR 0x00]))" by simp
    then have "CHR 0x00 \<in> set ''http://''" unfolding e [symmetric] .
    then show False by simp
  qed
  then have m: "map lower (take 7 url) = ''http://''" using e by (simp add: take_map)
  then obtain r c1 c2 c3 c4 where u: "url = [c1, c2, c3, c4, CHR '':'', CHR ''/'', CHR ''/''] @ r"
    and c: "lower c1 = CHR ''h''" "lower c2 = CHR ''t''" "lower c3 = CHR ''t''" "lower c4 = CHR ''p''"
  proof -
    from m obtain c1 c2 c3 c4 c5 c6 c7 where t: "take 7 url = [c1, c2, c3, c4, c5, c6, c7]"
      and l: "lower c1 = CHR ''h''" "lower c2 = CHR ''t''" "lower c3 = CHR ''t''" "lower c4 = CHR ''p''"
        "lower c5 = CHR '':''" "lower c6 = CHR ''/''" "lower c7 = CHR ''/''"
      by (auto simp: map_eq_Cons_conv)
    have "c5 = CHR '':''" "c6 = CHR ''/''" "c7 = CHR ''/''" using lower_fixed [OF l(5)] lower_fixed [OF l(6)] lower_fixed [OF l(7)] by simp_all
    then have "url = [c1, c2, c3, c4, CHR '':'', CHR ''/'', CHR ''/''] @ drop 7 url"
      using t append_take_drop_id [of 7 url] by metis
    then show thesis using l that by blast
  qed
  have "c1 \<noteq> CHR '':''" "c2 \<noteq> CHR '':''" "c3 \<noteq> CHR '':''" "c4 \<noteq> CHR '':''" using c by (auto simp: lower_def)
  then have "search_seq ''://'' url = Some 4" unfolding u by simp
  then show ?thesis using m by simp
qed

lemma http_prefix_iff: "same_case_n ''http://'' url 7 \<longleftrightarrow> map lower (take 7 url) = ''http://''"
proof
  assume m: "map lower (take 7 url) = ''http://''"
  then have "length (take 7 url) = length ''http://''" by (metis length_map)
  then show "same_case_n ''http://'' url 7" using m by (simp add: same_case_n_def take_map lower_def)
qed (use http_prefix in blast)

lemma find_char_before:
  "d \<in> set r \<Longrightarrow> c \<noteq> d \<Longrightarrow> c \<in> set r \<and> find_char c r < find_char d r \<longleftrightarrow> c \<in> set (takeWhile (\<lambda>x. x \<noteq> d) r)"
  by (induction r) auto

lemma takeWhile_both: "c \<in> set (takeWhile (\<lambda>x. x \<noteq> d) r) \<Longrightarrow>
  takeWhile (\<lambda>x. x \<noteq> c) (takeWhile (\<lambda>x. x \<noteq> d) r) = takeWhile (\<lambda>x. x \<noteq> c) r"
  by (induction r) (auto split: if_splits)

lemma find_char_length: "find_char c r = length (takeWhile (\<lambda>x. x \<noteq> c) r)"
  by (induction r) auto

lemma host_port_text:
  assumes "CHR ''/'' \<in> set (drop 7 url)"
  shows "host_port (drop 7 url) bo =
    (if length (url_host url) < 64 \<and> (CHR '':'' \<in> set (url_authority url) \<longrightarrow> port_copy (url_port url) \<noteq> None)
     then Some (url_host url, if CHR '':'' \<in> set (url_authority url)
       then bo\<lparr>bo_proxyport := if atoi (url_port url) = 0 then 80 else atoi (url_port url)\<rparr> else bo)
     else None)"
proof -
  let ?r = "drop 7 url" and ?a = "url_authority url"
  have a: "take (find_char CHR ''/'' ?r) ?r = ?a" by (simp add: take_find url_authority_def)
  show ?thesis
  proof (cases "CHR '':'' \<in> set ?a")
    case True
    have tw: "takeWhile (\<lambda>c. c \<noteq> CHR '':'') ?r = url_host url"
      using True takeWhile_both [of "CHR '':''" "CHR ''/''" ?r] by (simp add: url_host_def url_authority_def)
    have h: "take (find_char CHR '':'' ?r) ?r = url_host url" "find_char CHR '':'' ?r = length (url_host url)"
      using tw by (simp only: take_find, simp only: find_char_length)
    have "rng (length (url_host url) + 1) (find_char CHR ''/'' ?r) ?r = url_port url"
      using a by (simp add: rng_def url_port_def drop_take flip: a)
    then show ?thesis using True h find_char_before [OF assms, of "CHR '':''"]
      by (auto simp: host_port_def small_copy_def MAXHOSTNAMELEN_def port_copy_def Let_def simp flip: url_authority_def)
  next
    case False
    then have "url_host url = ?a" by (auto simp: url_host_def takeWhile_eq_all_conv)
    then show ?thesis using False a find_char_before [OF assms, of "CHR '':''"]
      by (auto simp: host_port_def small_copy_def MAXHOSTNAMELEN_def simp flip: url_authority_def)
  qed
qed

text \<open>What \<^verbatim>\<open>build_request\<close> makes of a URL. It refuses with exit code 2 every URL that is longer than 1500 bytes,
  does not begin with \<^verbatim>\<open>http://\<close> or has no slash behind the host; it leaves its array for the host if the host has 64 bytes or
  more, or that for the port if there are more than ten bytes (or ten that are all of the number) behind a colon, and
  otherwise the request is the line of the method, the target (the whole URL for a proxy) and the version, with exactly the
  headers the options ask for. The 2048 bytes of the request are enough for every option and every URL let through.\<close>

lemma build_request_text:
  "build_request url bo0 = (let bo = force_http bo0 in
     if \<not> url_ok_for url then Some (Inl 2)
     else if bo_proxyhost bo \<noteq> None then Some (Inr ([], bench_text url [] bo, bo))
     else if 64 \<le> length (url_host url) \<or> CHR '':'' \<in> set (url_authority url) \<and> port_copy (url_port url) = None then None
     else Some (Inr (url_host url, bench_text (url_target url) (url_host url) bo,
       if CHR '':'' \<in> set (url_authority url)
       then bo\<lparr>bo_proxyport := if atoi (url_port url) = 0 then 80 else atoi (url_port url)\<rparr> else bo)))"
proof (cases "url_ok_for url")
  case False
  then show ?thesis using http_prefix [of url] http_prefix_iff [of url]
    by (auto simp: build_request_def url_ok_for_def Let_def split: option.splits)
next
  case True
  then have ok: "length url \<le> 1500" "same_case_n ''http://'' url 7" "CHR ''/'' \<in> set (drop 7 url)"
    using http_prefix_iff [of url] by (simp_all add: url_ok_for_def)
  let ?bo = "force_http bo0" and ?m = "method_text (bo_method (force_http bo0)) @ '' ''"
  have m: "length ?m \<le> 8" using length_method_text [of "bo_method ?bo"] by simp
  have cat: "req_cat ?m s = Some (?m @ s)" if "length s \<le> 1500" for s
    using req_cat_fits [of ?m s] m that by simp
  have rest: "request_rest h (?m @ s) bo = Some (bench_text s h (bo\<lparr>bo_method := bo_method ?bo\<rparr>))"
    if "length s \<le> 1500" "length h < 64" for s h bo
    using request_rest_text [of "?m @ s" h bo] m that by (simp add: bench_text_def bench_version_def bench_headers_def)
  have t: "length (url_target url) \<le> 1500"
    using ok(1) by (simp add: url_target_def dropWhile_eq_drop)
  have dt: "drop (find_char CHR ''/'' (drop 7 url)) (drop 7 url) = url_target url"
    unfolding drop_find url_target_def ..
  show ?thesis
  proof (cases "bo_proxyhost ?bo")
    case None
    then show ?thesis using True ok http_prefix [OF ok(2)] cat [OF t] rest [OF t] host_port_text [OF ok(3), of ?bo] dt
      by (auto simp: build_request_def Let_def bench_text_def bench_version_def bench_headers_def)
  next
    case (Some h)
    then show ?thesis using True ok http_prefix [OF ok(2)] cat [OF ok(1)] rest [OF ok(1), of "[]" ?bo]
      by (simp add: build_request_def Let_def)
  qed
qed

subsection \<open>Both servers understand it\<close>

definition plain_url :: "string \<Rightarrow> bool" where
  "plain_url url \<longleftrightarrow> (\<forall>c \<in> set url. \<not> isspace c \<and> c \<noteq> CHR 0x00)"

lemma not_isspace: "\<not> isspace c \<Longrightarrow> \<not> eol c \<and> c \<notin> set blank \<and> c \<noteq> CHR 0x0D"
  by (auto simp: isspace_def eol_def blank_def)

lemma split_blank_at: "\<forall>c \<in> set m. c \<notin> set blank \<Longrightarrow> split_blank (m @ CHR '' '' # r) = Some (m, r)"
  by (simp add: split_blank_def takeWhile_append2 blank_def Let_def)

lemma text_request_plain:
  assumes "\<forall>c \<in> set tg. \<not> isspace c" and "tg = CHR ''/'' # tg'"
  shows "text_request (''GET '' @ tg @ '' HTTP/1.1'') = Some (Some (if tg = ''/'' then ''/index.html'' else tg))"
proof -
  have "split_blank (''GET '' @ tg @ '' HTTP/1.1'') = Some (''GET'', tg @ '' HTTP/1.1'')"
    using split_blank_at [of "''GET''" "tg @ '' HTTP/1.1''"] by (simp add: blank_def)
  moreover have "split_blank (tg @ '' HTTP/1.1'') = Some (tg, ''HTTP/1.1'')"
    using split_blank_at [of tg "''HTTP/1.1''"] assms(1) not_isspace by auto
  moreover have "\<not> same_case_n tg ''http://'' 7" using assms(2) by (simp add: same_case_n_def lower_def)
  ultimately show ?thesis using assms(2) by (simp add: text_request_def same_case_def request_url_def)
qed

lemma parse_text_headers:
  assumes "\<forall>l \<in> set ls. (\<forall>c \<in> set l. \<not> eol c) \<and> l \<noteq> []"
  shows "parse_text (Among u k) (concat (map (\<lambda>l. l @ crlf) ls) @ crlf) = Request u (k \<or> (\<exists>l \<in> set ls. keep_alive_line l))"
  using assms
proof (induction ls arbitrary: k)
  case Nil
  then show ?case using text_line_crlf [of "[]" "[]"] by (simp add: parse_text.simps [of _ crlf])
next
  case (Cons l ls)
  have "text_line (l @ crlf @ concat (map (\<lambda>l. l @ crlf) ls) @ crlf) = Full_line l (concat (map (\<lambda>l. l @ crlf) ls) @ crlf)"
    by (rule text_line_crlf) (use Cons.prems in simp)
  then show ?case using Cons
    by (simp add: parse_text.simps [of _ "l @ crlf @ concat (map (\<lambda>l. l @ crlf) ls) @ crlf"] disj_assoc)
qed

definition http11_headers :: "string \<Rightarrow> bool \<Rightarrow> (string \<times> string) list" where
  "http11_headers host keep = [(''User-Agent'', ''WebBench 1.5''), (''Host'', host),
     (''Connection'', if keep then ''Keep-Alive'' else ''close'')]"

definition header_text :: "string \<times> string \<Rightarrow> string" where
  "header_text h = fst h @ '': '' @ snd h"

lemma render_header_text: "concat (map render_header hs) = concat (map (\<lambda>l. l @ crlf) (map header_text hs))"
  by (induction hs) (simp_all add: render_header_def header_text_def crlf_kCRLF)

lemma lower_id: "\<not> (65 \<le> (of_char c :: nat) \<and> (of_char c :: nat) \<le> 90) \<Longrightarrow> lower c = c"
  by (auto simp: lower_def)

lemma http11_lines:
  assumes "\<forall>c \<in> set host. \<not> isspace c"
  shows "\<forall>l \<in> set (map header_text (http11_headers host keep)). (\<forall>c \<in> set l. \<not> eol c) \<and> l \<noteq> []"
    and "(\<exists>l \<in> set (map header_text (http11_headers host keep)). keep_alive_line l) \<longleftrightarrow> keep"
    and "\<forall>h \<in> set (http11_headers host keep). header_ok h"
proof -
  have "\<forall>c \<in> set host. \<not> eol c \<and> c \<noteq> CHR 0x0D" using assms not_isspace by blast
  moreover have "\<forall>c \<in> set ''Host: ''. \<not> eol c" "\<forall>c \<in> set ''User-Agent: WebBench 1.5''. \<not> eol c"
    "\<forall>c \<in> set ''Connection: Keep-Alive''. \<not> eol c" "\<forall>c \<in> set ''Connection: close''. \<not> eol c" by (simp_all add: eol_def)
  moreover have "map header_text (http11_headers host keep) = [''User-Agent: WebBench 1.5'', ''Host: '' @ host,
      if keep then ''Connection: Keep-Alive'' else ''Connection: close'']" by (simp add: http11_headers_def header_text_def)
  ultimately show "\<forall>l \<in> set (map header_text (http11_headers host keep)). (\<forall>c \<in> set l. \<not> eol c) \<and> l \<noteq> []"
    by (simp only: ball_simps set_append ball_Un simp_thms list.distinct append_is_Nil_conv split: if_split) simp
  have "lower CHR ''K'' = CHR ''k''" "lower CHR ''A'' = CHR ''a''" by code_simp+
  then show "(\<exists>l \<in> set (map header_text (http11_headers host keep)). keep_alive_line l) \<longleftrightarrow> keep"
    by (simp add: http11_headers_def header_text_def keep_alive_line_def same_case_n_def same_case_def lower_id blank_def)
  have "trimmed host" using assms by (cases "host = []") (auto simp: trimmed_def)
  moreover have "cr_free host" using assms not_isspace by (auto simp: cr_free_def)
  ultimately have "header_ok (''Host'', host)" by (simp add: header_ok_def cr_free_def)
  moreover have "header_ok (''User-Agent'', ''WebBench 1.5'')" "header_ok (''Connection'', ''Keep-Alive'')"
    "header_ok (''Connection'', ''close'')"
    by (simp_all add: header_ok_def cr_free_def trimmed_def isspace_def)
  ultimately show "\<forall>h \<in> set (http11_headers host keep). header_ok h" by (simp add: http11_headers_def)
qed

lemma bench_text_http11:
  assumes "bo_method bo = METHOD_GET" and "bo_http10 bo = 2" and "bo_proxyhost bo = None" and "tg = path @ query"
  shows "bench_text tg host bo = render_request kGet path query (http11_headers host (bo_keep_alive bo))"
    and "bench_text tg host bo = (''GET '' @ tg @ '' HTTP/1.1'') @ crlf @
      concat (map (\<lambda>l. l @ crlf) (map header_text (http11_headers host (bo_keep_alive bo)))) @ crlf"
  using assms
  by (simp_all add: bench_text_def bench_version_def bench_headers_def method_text_def render_request_def request_line_def
      http11_headers_def crlf_kCRLF render_header_text del: map_map) (simp_all add: header_text_def render_header_def crlf_kCRLF)

lemma target_split:
  assumes "\<forall>c \<in> set tg. \<not> isspace c"
  shows "target_ok (takeWhile (\<lambda>c. c \<noteq> CHR ''?'') tg) (dropWhile (\<lambda>c. c \<noteq> CHR ''?'') tg)"
proof -
  have n: "\<forall>c \<in> set tg. c \<noteq> CHR 0x0D \<and> c \<noteq> CHR '' ''" using assms by (auto simp: isspace_def)
  have q: "dropWhile (\<lambda>c. c \<noteq> CHR ''?'') tg = [] \<or> hd (dropWhile (\<lambda>c. c \<noteq> CHR ''?'') tg) = CHR ''?''"
    using hd_dropWhile [of "\<lambda>c. c \<noteq> CHR ''?''" tg] by blast
  show ?thesis using n q unfolding target_ok_def cr_free_def by (auto dest: set_takeWhileD set_dropWhileD)
qed

lemma bench_request_parts:
  assumes "build_request url bo0 = Some (Inr (host, req, bo))" and "plain_url url"
    and "bo_method bo0 = METHOD_GET" and "bo_http10 bo0 = 2" and "bo_proxyhost bo0 = None"
  defines "path \<equiv> takeWhile (\<lambda>c. c \<noteq> CHR ''?'') (url_target url)" and "query \<equiv> dropWhile (\<lambda>c. c \<noteq> CHR ''?'') (url_target url)"
  shows "req = render_request kGet path query (http11_headers host (bo_keep_alive bo0))" and "target_ok path query"
    and "\<forall>h \<in> set (http11_headers host (bo_keep_alive bo0)). header_ok h"
    and "parse_text Before req = Request (if url_target url = ''/'' then ''/index.html'' else url_target url) (bo_keep_alive bo0)"
    and "length req < READ_BUFFER_SIZE" and "CHR 0x00 \<notin> set req"
proof -
  let ?bo = "force_http bo0" and ?tg = "url_target url"
  have f: "?bo = bo0" using assms(3,4,5) by (simp add: force_http_def)
  have ok: "url_ok_for url" "host = url_host url" "req = bench_text ?tg host bo0" "length host < 64"
    using assms(1,5) unfolding build_request_text f by (auto simp: Let_def split: if_splits)
  have ns: "\<forall>c \<in> set url. \<not> isspace c" and nul: "CHR 0x00 \<notin> set url" using assms(2) by (auto simp: plain_url_def)
  have sub: "set ?tg \<subseteq> set url" "set host \<subseteq> set url"
    using set_drop_subset [of 7 url] unfolding ok(2) url_target_def url_host_def url_authority_def
    by (auto dest!: set_takeWhileD set_dropWhileD)
  have tg: "\<forall>c \<in> set ?tg. \<not> isspace c" and host: "\<forall>c \<in> set host. \<not> isspace c" using ns sub by auto
  obtain tg' where tg': "?tg = CHR ''/'' # tg'"
  proof -
    have "?tg \<noteq> []" using ok(1) by (auto simp: url_target_def url_ok_for_def dropWhile_eq_Nil_conv)
    then have "hd ?tg = CHR ''/''" unfolding url_target_def using hd_dropWhile [of "\<lambda>c. c \<noteq> CHR ''/''" "drop 7 url"] by auto
    then show thesis using \<open>?tg \<noteq> []\<close> that by (metis list.collapse)
  qed
  note hs = http11_lines [OF host, of "bo_keep_alive bo0"]
  let ?p = "takeWhile (\<lambda>c. c \<noteq> CHR ''?'') ?tg" and ?q = "dropWhile (\<lambda>c. c \<noteq> CHR ''?'') ?tg"
  let ?hs = "http11_headers host (bo_keep_alive bo0)"
  have r: "req = render_request kGet ?p ?q ?hs"
    "req = (''GET '' @ ?tg @ '' HTTP/1.1'') @ crlf @ concat (map (\<lambda>l. l @ crlf) (map header_text ?hs)) @ crlf"
    unfolding ok(3) using bench_text_http11 [OF assms(3,4,5), of ?tg ?p ?q host] by simp_all
  have line: "\<forall>c \<in> set (''GET '' @ ?tg @ '' HTTP/1.1''). \<not> eol c"
  proof -
    have "\<forall>c \<in> set (''GET '' @ '' HTTP/1.1''). \<not> eol c" by (simp add: eol_def)
    then show ?thesis using tg not_isspace by auto
  qed
  have parse: "parse_text Before req = Request (if ?tg = ''/'' then ''/index.html'' else ?tg) (bo_keep_alive bo0)"
    unfolding r(2) using text_line_crlf [OF line] text_request_plain [OF tg tg'] parse_text_headers [OF hs(1)] hs(2)
    by (simp add: parse_text.simps [of Before])
  have "length ?tg \<le> 1500" using ok(1) using length_dropWhile_le [of "\<lambda>c. c \<noteq> CHR ''/''" "drop 7 url"]
    unfolding url_ok_for_def url_target_def length_drop by linarith
  then have len: "length req < READ_BUFFER_SIZE" using ok(4)
    by (simp add: r(2) http11_headers_def header_text_def crlf_def READ_BUFFER_SIZE_def)
  have "CHR 0x00 \<notin> set ?tg" "CHR 0x00 \<notin> set host" using nul sub by auto
  then have nz: "CHR 0x00 \<notin> set req" by (simp add: r(2) http11_headers_def header_text_def crlf_def)
  show "req = render_request kGet path query ?hs" unfolding path_def query_def by (rule r(1))
  show "target_ok path query" unfolding path_def query_def by (rule target_split [OF tg])
  show "\<forall>h \<in> set ?hs. header_ok h" by (rule hs(3))
  show "parse_text Before req = Request (if ?tg = ''/'' then ''/index.html'' else ?tg) (bo_keep_alive bo0)" by (rule parse)
  show "length req < READ_BUFFER_SIZE" by (rule len)
  show "CHR 0x00 \<notin> set req" by (rule nz)
qed

lemma bench_parsed:
  assumes "req = render_request kGet path query (http11_headers host keep)" and "target_ok path query"
    and "\<forall>h \<in> set (http11_headers host keep). header_ok h" and "buf_inv b" and "toString b = req"
  shows "\<exists>c b'. parseRequest t HttpContext_new b = Some (Parse_return True c b') \<and> gotAll c \<and> toString b' = [] \<and>
    hr_method (hc_request c) = kGet \<and> hr_path (hc_request c) = path \<and> hr_query (hc_request c) = query \<and>
    getHeader ''Host'' (hc_request c) = host"
proof -
  have "is_parsing HttpContext_new" by (simp add: HttpContext_new_def)
  from parseRequest_facts [OF assms(4) this, of t] parse_str_render [OF _ assms(2,3), of kGet t "[]"] assms(1,5)
  obtain b' where "parseRequest t HttpContext_new b =
      Some (Parse_return True \<lparr>hc_state = kGotAll, hc_request = request_of t kGet path query (http11_headers host keep)\<rparr> b')"
    "toString b' = []" by auto
  moreover have "getHeader ''Host'' (request_of t kGet path query (http11_headers host keep)) = host"
    by (simp add: getHeader_request_of http11_headers_def)
  ultimately show ?thesis by (auto simp: gotAll_def) (auto simp: request_of_def)
qed

lemma text_served:
  assumes "parse_text Before req = res" and "length req < READ_BUFFER_SIZE" and "CHR 0x00 \<notin> set req"
    and "\<forall>s \<in> set cs. s \<noteq> []" and "concat cs = req"
  shows "agrees fs (length req) res (feed_pieces fs (http_init hc) cs)"
proof -
  have "\<forall>s \<in> set cs. s \<noteq> [] \<and> CHR 0x00 \<notin> set s" using assms(3,4,5) by auto
  moreover have "parse_text Before [] = Waits Before []" by (simp add: parse_text.simps text_line_def)
  ultimately show ?thesis
    using feed_text [of "http_init hc" cs fs] init_ok assms(2,5) unfolding assms(1) [symmetric] by simp
qed

text \<open>C38: what the load generator sends is what both servers expect. With \<^verbatim>\<open>-2\<close>, no proxy and a URL without white
  space, the request it builds is read by the multi-reactor server's parser as a complete GET request for the path and the
  query of the URL with the host's name, and nothing is left over; and the single-reactor server, however the request
  is cut into pieces, comes to the page of the URL, with the connection kept exactly if keep-alive is on. The request always
  fits into that server's read buffer.\<close>

theorem bench_request_served:
  assumes "build_request url bo0 = Some (Inr (host, req, bo))" and "plain_url url"
    and "bo_method bo0 = METHOD_GET" and "bo_http10 bo0 = 2" and "bo_proxyhost bo0 = None"
  shows "(buf_inv b \<and> toString b = req \<longrightarrow> (\<exists>c b'. parseRequest t HttpContext_new b = Some (Parse_return True c b') \<and> gotAll c \<and>
        toString b' = [] \<and> hr_method (hc_request c) = kGet \<and> hr_path (hc_request c) @ hr_query (hc_request c) = url_target url \<and>
        getHeader ''Host'' (hc_request c) = host)) \<and>
    ((\<forall>s \<in> set cs. s \<noteq> []) \<and> concat cs = req \<longrightarrow>
        agrees fs (length req) (Request (if url_target url = ''/'' then ''/index.html'' else url_target url) (bo_keep_alive bo0))
          (feed_pieces fs (http_init hc) cs))"
proof -
  note parts = bench_request_parts [OF assms]
  show ?thesis using bench_parsed [OF parts(1-3), of b t] text_served [OF parts(4-6), of cs fs hc]
    by (metis takeWhile_dropWhile_id)
qed

lemma bench_example:
  "build_request ''http://h:8/a?b'' (default_options\<lparr>bo_http10 := 2\<rparr>) = Some (Inr (''h'',
     bench_text ''/a?b'' ''h'' (default_options\<lparr>bo_http10 := 2\<rparr>), default_options\<lparr>bo_http10 := 2, bo_proxyport := 8\<rparr>))"
  by code_simp

theorem bench_request_served_witness:
  "\<exists>b c b'. toString b = bench_text ''/a?b'' ''h'' (default_options\<lparr>bo_http10 := 2\<rparr>) \<and>
    parseRequest 0 HttpContext_new b = Some (Parse_return True c b') \<and> gotAll c \<and> toString b' = [] \<and>
    hr_path (hc_request c) @ hr_query (hc_request c) = ''/a?b'' \<and> getHeader ''Host'' (hc_request c) = ''h''"
proof -
  let ?bo = "default_options\<lparr>bo_http10 := 2\<rparr>"
  obtain b where b: "buf_inv b" "toString b = bench_text ''/a?b'' ''h'' ?bo"
    using append_buf_ok [OF Buffer_new_inv] Buffer_new_view by (metis append_Nil)
  have "plain_url ''http://h:8/a?b''" by (simp add: plain_url_def isspace_def)
  moreover have "bo_method ?bo = METHOD_GET" "bo_http10 ?bo = 2" "bo_proxyhost ?bo = None" by (simp_all add: default_options_def)
  moreover have "url_target ''http://h:8/a?b'' = ''/a?b''" by code_simp
  ultimately show ?thesis using bench_request_served [OF bench_example, of b 0 "[]" "\<lambda>_. None" conn_example] b by auto
qed

lemma length_bench_text:
  assumes "length tg \<le> 1500" and "length host < 64"
  shows "length (bench_text tg host bo) < REQUEST_SIZE"
  using assms length_method_text [of "bo_method bo"]
  by (simp add: bench_text_def bench_version_def bench_headers_def render_header_def crlf_kCRLF crlf_def REQUEST_SIZE_def)


end
