(* ===== verification/BenchRun.thy ===== *)
theory BenchRun
  imports WebBench
begin

text \<open>
  \<^verbatim>\<open>mutlithread/WebBench\<close>: the processes of the load generator. A process is given the answers of the kernel to its
  calls in order, each with whether the alarm goes off while the call is made; \<open>br_calls\<close> is the trace of the calls
  with their answers. \<open>None\<close> is the overflow of an \<^verbatim>\<open>int\<close>, a call that does not return (no answer is left), or a loop that
  makes no more calls.

  A name that \<^verbatim>\<open>gethostbyname\<close> does not know and a stream that cannot be opened are negative answers. \<open>inet\<close> is
  \<^verbatim>\<open>inet_addr\<close>.
\<close>

subsection \<open>Calls and counters\<close>

datatype bench_call = Gethostbyname string | New_socket | Sys_connect int "32 word" "16 word" | Sys_write int string
  | Sys_shutdown int | Sys_read int | Sys_close int | Sys_sigaction | Sys_alarm int | Sys_pipe | Sys_fork | Sys_fdopen

record bench_run =
  br_answers :: "(bool \<times> int) list"
  br_expired :: bool
  br_calls :: "(bench_call \<times> int) list"
  br_speed :: int
  br_failed :: int
  br_bytes :: int

definition sys_call :: "bench_call \<Rightarrow> bench_run \<Rightarrow> (int \<times> bench_run) option" where
  "sys_call c br = (case br_answers br of
     [] \<Rightarrow> None
   | (alarm, a) # as \<Rightarrow> Some (a, br\<lparr>br_answers := as, br_expired := br_expired br \<or> alarm, br_calls := br_calls br @ [(c, a)]\<rparr>))"

definition add_int :: "int \<Rightarrow> int \<Rightarrow> int option" where
  "add_int a b = (if - (2 ^ 31) \<le> a + b \<and> a + b < 2 ^ 31 then Some (a + b) else None)"

definition inc_failed :: "bench_run \<Rightarrow> bench_run option" where
  "inc_failed br = do { n \<leftarrow> add_int (br_failed br) 1; Some (br\<lparr>br_failed := n\<rparr>) }"

definition inc_speed :: "bench_run \<Rightarrow> bench_run option" where
  "inc_speed br = do { n \<leftarrow> add_int (br_speed br) 1; Some (br\<lparr>br_speed := n\<rparr>) }"

definition add_bytes :: "int \<Rightarrow> bench_run \<Rightarrow> bench_run option" where
  "add_bytes i br = do { n \<leftarrow> add_int (br_bytes br) i; Some (br\<lparr>br_bytes := n\<rparr>) }"

definition INADDR_NONE :: "32 word" where
  "INADDR_NONE = - 1"

text \<open>\<^verbatim>\<open>socket.c\<close>. A connection refused leaves the socket open.\<close>

definition bench_Socket :: "(string \<Rightarrow> 32 word) \<Rightarrow> string \<Rightarrow> int \<Rightarrow> bench_run \<Rightarrow> (int \<times> bench_run) option" where
  "bench_Socket inet host clientPort br = do {
     (ad, br) \<leftarrow> (if inet host \<noteq> INADDR_NONE then Some (Some (inet host), br)
       else do { (h, br) \<leftarrow> sys_call (Gethostbyname host) br; Some (if h < 0 then None else Some (word_of_int h), br) });
     case ad of
       None \<Rightarrow> Some (- 1, br)
     | Some ad \<Rightarrow> do {
         (sock, br) \<leftarrow> sys_call New_socket br;
         if sock < 0 then Some (sock, br)
         else do {
           (r, br) \<leftarrow> sys_call (Sys_connect sock ad (word_of_int clientPort)) br;
           if r < 0 then Some (- 1, br) else Some (sock, br) } } }"

subsection \<open>\<^verbatim>\<open>benchcore\<close>\<close>

text \<open>The part that is the same in both modes: one failure too many is taken back when the alarm has gone off.\<close>

definition bench_finish :: "bench_run \<Rightarrow> bench_run" where
  "bench_finish br = (if br_failed br > 0 then br\<lparr>br_failed := br_failed br - 1\<rparr> else br)"

definition fail_and_close :: "int \<Rightarrow> bench_run \<Rightarrow> bench_run option" where
  "fail_and_close s br = do { br \<leftarrow> inc_failed br; (_, br) \<leftarrow> sys_call (Sys_close s) br; Some br }"

lemma sys_call_less: "sys_call c br = Some (a, br') \<Longrightarrow> length (br_answers br') < length (br_answers br)"
  by (auto simp: sys_call_def split: list.splits)

lemma counter_answers:
  "inc_failed br = Some br' \<Longrightarrow> br_answers br' = br_answers br"
  "inc_speed br = Some br' \<Longrightarrow> br_answers br' = br_answers br"
  "add_bytes i br = Some br' \<Longrightarrow> br_answers br' = br_answers br"
  by (auto simp: inc_failed_def inc_speed_def add_bytes_def Option.bind_eq_Some_conv)

text \<open>Reading to the end of the stream; \<open>False\<close> is the jump back to the next try.\<close>

function short_reads :: "int \<Rightarrow> bench_run \<Rightarrow> (bool \<times> bench_run) option" where
  "short_reads s br =
     (if br_expired br then Some (True, br)
      else do {
        (i, br1) \<leftarrow> sys_call (Sys_read s) br;
        if i < 0 then do { br2 \<leftarrow> fail_and_close s br1; Some (False, br2) }
        else if i = 0 then Some (True, br1)
        else do { br2 \<leftarrow> add_bytes i br1; short_reads s br2 } })"
  by auto
termination
  by (relation "measure (\<lambda>(s, br). length (br_answers br))") (auto dest!: sys_call_less counter_answers)

declare short_reads.simps [simp del]

text \<open>One exchange on an open connection, and one round of the loop.\<close>

definition short_exchange :: "bench_options \<Rightarrow> string \<Rightarrow> int \<Rightarrow> bench_run \<Rightarrow> bench_run option" where
  "short_exchange bo req s br = do {
     (w, br) \<leftarrow> sys_call (Sys_write s req) br;
     if int (length req) \<noteq> w then fail_and_close s br
     else do {
       (sd, br) \<leftarrow> (if bo_http10 bo = 0 then sys_call (Sys_shutdown s) br else Some (0, br));
       if sd \<noteq> 0 then fail_and_close s br
       else do {
         (ok, br) \<leftarrow> (if \<not> bo_force bo then short_reads s br else Some (True, br));
         if \<not> ok then Some br
         else do {
           (r, br) \<leftarrow> sys_call (Sys_close s) br;
           if r \<noteq> 0 then inc_failed br else inc_speed br } } } }"

definition short_try :: "(string \<Rightarrow> 32 word) \<Rightarrow> bench_options \<Rightarrow> string \<Rightarrow> int \<Rightarrow> string \<Rightarrow> bench_run \<Rightarrow> bench_run option" where
  "short_try inet bo host port req br = do {
     (s, br) \<leftarrow> bench_Socket inet host port br;
     if s < 0 then inc_failed br else short_exchange bo req s br }"

partial_function (option) short_loop ::
  "(string \<Rightarrow> 32 word) \<Rightarrow> bench_options \<Rightarrow> string \<Rightarrow> int \<Rightarrow> string \<Rightarrow> bench_run \<Rightarrow> bench_run option" where
  "short_loop inet bo host port req br =
     (if br_expired br then Some (bench_finish br)
      else do { br1 \<leftarrow> short_try inet bo host port req br; short_loop inet bo host port req br1 })"

text \<open>The loop that waits for the server does not look at the alarm.\<close>

partial_function (option) connect_loop :: "(string \<Rightarrow> 32 word) \<Rightarrow> string \<Rightarrow> int \<Rightarrow> bench_run \<Rightarrow> (int \<times> bench_run) option" where
  "connect_loop inet host port br = do {
     (s, br1) \<leftarrow> bench_Socket inet host port br;
     if s = - 1 then connect_loop inet host port br1 else Some (s, br1) }"

definition keep_read :: "int \<Rightarrow> bench_run \<Rightarrow> bench_run option" where
  "keep_read s br =
     (if br_expired br then inc_speed br
      else do {
        (i, br) \<leftarrow> sys_call (Sys_read s) br;
        if i < 0 then fail_and_close s br
        else if i = 0 then inc_speed br
        else do { br \<leftarrow> add_bytes i br; inc_speed br } })"

definition keep_try :: "(string \<Rightarrow> 32 word) \<Rightarrow> bench_options \<Rightarrow> string \<Rightarrow> int \<Rightarrow> string \<Rightarrow> int \<times> bench_run \<Rightarrow> (int \<times> bench_run) option" where
  "keep_try inet bo host port req = (\<lambda>(s, br).
     if s < 0 then do { br \<leftarrow> inc_failed br; Some (s, br) }
     else do {
       (w, br) \<leftarrow> sys_call (Sys_write s req) br;
       if int (length req) \<noteq> w then do { br \<leftarrow> fail_and_close s br; connect_loop inet host port br }
       else if \<not> bo_force bo then do { br \<leftarrow> keep_read s br; Some (s, br) }
       else do { br \<leftarrow> inc_speed br; Some (s, br) } })"

partial_function (option) keep_loop ::
  "(string \<Rightarrow> 32 word) \<Rightarrow> bench_options \<Rightarrow> string \<Rightarrow> int \<Rightarrow> string \<Rightarrow> int \<times> bench_run \<Rightarrow> bench_run option" where
  "keep_loop inet bo host port req st =
     (if br_expired (snd st) then Some (bench_finish (snd st))
      else do { st1 \<leftarrow> keep_try inet bo host port req st; keep_loop inet bo host port req st1 })"

definition benchcore :: "(string \<Rightarrow> 32 word) \<Rightarrow> bench_options \<Rightarrow> string \<Rightarrow> int \<Rightarrow> string \<Rightarrow> bench_run \<Rightarrow> (int + bench_run) option" where
  "benchcore inet bo host port req br = do {
     (r, br) \<leftarrow> sys_call Sys_sigaction br;
     if r \<noteq> 0 then Some (Inl 3)
     else do {
       (_, br) \<leftarrow> sys_call (Sys_alarm (bo_benchtime bo)) br;
       br \<leftarrow> (if bo_keep_alive bo
         then do { st \<leftarrow> connect_loop inet host port br; keep_loop inet bo host port req st }
         else short_loop inet bo host port req br);
       Some (Inr br) } }"

subsection \<open>\<^verbatim>\<open>bench\<close>\<close>

fun fork_loop :: "nat \<Rightarrow> int \<Rightarrow> int \<Rightarrow> bench_run \<Rightarrow> (int \<times> int \<times> bench_run) option" where
  "fork_loop 0 i pid br = Some (i, pid, br)"
| "fork_loop (Suc n) i pid br = do {
     (pid, br) \<leftarrow> sys_call Sys_fork br;
     if pid \<le> 0 then Some (i, pid, br) else fork_loop n (i + 1) pid br }"

definition child_line :: "int \<times> int \<times> int \<Rightarrow> string" where
  "child_line = (\<lambda>(speed, failed, bytes). dec_int speed @ '' '' @ dec_int failed @ '' '' @ dec_int bytes @ [CHR 0x0A])"

text \<open>
  \<^verbatim>\<open>%d\<close> on what can be read from the pipe: \<open>None\<close> if there is nothing more (the parent has the writing end open itself, so
  the end of the stream never comes), \<open>Inl\<close> if what comes is not a number.
\<close>

definition scan_int :: "string \<Rightarrow> (string + int \<times> string) option" where
  "scan_int t = (let t1 = dropWhile isspace t;
       sgn = (if t1 \<noteq> [] \<and> hd t1 \<in> {CHR ''-'', CHR ''+''} then [hd t1] else []);
       t2 = drop (length sgn) t1; ds = takeWhile is_digit t2; t3 = dropWhile is_digit t2
     in if t3 = [] then None else if ds = [] then Some (Inl t3) else Some (Inr (atoi (sgn @ ds), t3)))"

fun scan_ints :: "nat \<Rightarrow> string \<Rightarrow> (int list \<times> string) option" where
  "scan_ints 0 t = Some ([], t)"
| "scan_ints (Suc n) t = (case scan_int t of
     None \<Rightarrow> None
   | Some (Inl t1) \<Rightarrow> Some ([], t1)
   | Some (Inr (v, t1)) \<Rightarrow> do { (vs, t2) \<leftarrow> scan_ints n t1; Some (v # vs, t2) })"

text \<open>The parent's loop, with the variables \<^verbatim>\<open>i\<close> and \<^verbatim>\<open>k\<close>, which keep their values when less is read.\<close>

partial_function (option) collect :: "int \<Rightarrow> int \<times> int \<Rightarrow> int \<times> int \<times> int \<Rightarrow> string \<Rightarrow> ((int \<times> int \<times> int) \<times> int) option" where
  "collect clients ik totals text = do {
     (vs, rest) \<leftarrow> scan_ints 3 text;
     let i = (case vs of [] \<Rightarrow> fst ik | v # _ \<Rightarrow> v);
     if length vs < 2 then Some (totals, i)
     else do {
       let k = (if length vs = 3 then vs ! 2 else snd ik);
       speed \<leftarrow> add_int (fst totals) i;
       failed \<leftarrow> add_int (fst (snd totals)) (vs ! 1);
       bytes \<leftarrow> add_int (snd (snd totals)) k;
       if clients - 1 = 0 then Some ((speed, failed, bytes), i)
       else collect (clients - 1) (i, k) (speed, failed, bytes) rest } }"

datatype bench_end = Exits int | Child_wrote string | Parent_reports "int \<times> int \<times> int" int

definition bench :: "(string \<Rightarrow> 32 word) \<Rightarrow> bench_options \<Rightarrow> string \<Rightarrow> string \<Rightarrow> int \<Rightarrow> string \<Rightarrow> bench_run \<Rightarrow> (bench_end \<times> bench_run) option" where
  "bench inet bo host req k0 text br = do {
     let target = (case bo_proxyhost bo of None \<Rightarrow> host | Some h \<Rightarrow> h);
     (i, br) \<leftarrow> bench_Socket inet target (bo_proxyport bo) br;
     if i < 0 then Some (Exits 1, br)
     else do {
       (_, br) \<leftarrow> sys_call (Sys_close i) br;
       (p, br) \<leftarrow> sys_call Sys_pipe br;
       if p \<noteq> 0 then Some (Exits 3, br)
       else do {
         (i, pid, br) \<leftarrow> fork_loop (nat (bo_clients bo)) 0 0 br;
         if pid < 0 then Some (Exits 3, br)
         else if pid = 0
         then do {
           run \<leftarrow> benchcore inet bo target (bo_proxyport bo) req br;
           case run of
             Inl code \<Rightarrow> Some (Exits code, br)
           | Inr br \<Rightarrow> do {
               (f, br) \<leftarrow> sys_call Sys_fdopen br;
               if f < 0 then Some (Exits 3, br)
               else Some (Child_wrote (child_line (br_speed br, br_failed br, br_bytes br)), br) } }
         else do {
           (f, br) \<leftarrow> sys_call Sys_fdopen br;
           if f < 0 then Some (Exits 3, br)
           else do {
             (totals, i) \<leftarrow> collect (bo_clients bo) (i, k0) (0, 0, 0) text;
             Some (Parent_reports totals i, br) } } } } }"

definition bench_main :: "(string \<Rightarrow> 32 word) \<Rightarrow> bench_arg list \<Rightarrow> string list \<Rightarrow> int \<Rightarrow> string \<Rightarrow> bench_run \<Rightarrow> (bench_end \<times> bench_run) option" where
  "bench_main inet opts args k0 text br = (case bench_setup opts args of
     Inl code \<Rightarrow> Some (Exits (int code), br)
   | Inr (url, bo) \<Rightarrow> do {
       r \<leftarrow> build_request url bo;
       case r of
         Inl code \<Rightarrow> Some (Exits (int code), br)
       | Inr (host, req, bo) \<Rightarrow> bench inet bo host req k0 text br })"

subsection \<open>Without keep-alive every try ends and is counted\<close>

definition tries :: "bench_run \<Rightarrow> nat" where
  "tries br = length (filter (\<lambda>(c, a). c = New_socket) (br_calls br))"

definition opened :: "bench_run \<Rightarrow> nat" where
  "opened br = length (filter (\<lambda>(c, a). c = New_socket \<and> 0 \<le> a) (br_calls br))"

definition closed :: "bench_run \<Rightarrow> nat" where
  "closed br = length (filter (\<lambda>(c, a). case c of Sys_close s \<Rightarrow> True | _ \<Rightarrow> False) (br_calls br))"

definition refused :: "bench_run \<Rightarrow> nat" where
  "refused br = length (filter (\<lambda>(c, a). case c of Sys_connect s ad pt \<Rightarrow> a < 0 | _ \<Rightarrow> False) (br_calls br))"

text \<open>
  The alarm goes off at some time, and the kernel answers the calls that are made after it: at most \<open>n\<close>. The counters have room
  for what is still to come, and one more call than tries.
\<close>

definition answered :: "nat \<Rightarrow> bench_run \<Rightarrow> bool" where
  "answered n br \<longleftrightarrow> (if br_expired br then n \<le> length (br_answers br)
     else \<exists>pre v post. br_answers br = pre @ (True, v) # post \<and> 4 \<le> length post)"

definition roomy :: "int \<Rightarrow> bench_run \<Rightarrow> bool" where
  "roomy d br \<longleftrightarrow> 0 \<le> br_speed br \<and> 0 \<le> br_failed br \<and> 0 \<le> br_bytes br \<and>
     br_speed br + br_failed br + int (length (br_answers br)) + d < 2 ^ 31 \<and>
     br_bytes br + (\<Sum>(b, v) \<leftarrow> br_answers br. max 0 v) < 2 ^ 31"

lemma answered_call:
  assumes "answered (Suc n) br" and "n \<le> 4"
  shows "\<exists>a br'. sys_call c br = Some (a, br') \<and> answered n br'"
proof (cases "br_answers br")
  case Nil
  then show ?thesis using assms by (simp add: answered_def split: if_splits)
next
  case (Cons x as)
  obtain al v where x: "x = (al, v)" by (cases x)
  show ?thesis
  proof (cases "br_expired br")
    case True
    then show ?thesis using assms(1) Cons x by (simp add: answered_def sys_call_def)
  next
    case False
    then obtain pre u post where p: "br_answers br = pre @ (True, u) # post" "4 \<le> length post"
      using assms(1) by (auto simp: answered_def)
    have "answered n (br\<lparr>br_answers := as, br_expired := al, br_calls := br_calls br @ [(c, v)]\<rparr>)"
    proof (cases pre)
      case Nil
      then show ?thesis using p Cons x assms(2) by (simp add: answered_def)
    next
      case (Cons y ys)
      then have "as = ys @ (True, u) # post" using p \<open>br_answers br = x # as\<close> by simp
      then show ?thesis using p(2) assms(2) by (auto simp: answered_def)
    qed
    then show ?thesis using Cons x False by (simp add: sys_call_def)
  qed
qed

lemma answered_less: "answered n br \<Longrightarrow> m \<le> n \<Longrightarrow> answered m br"
  by (auto simp: answered_def split: if_splits)

lemma answered_any: "answered n br \<Longrightarrow> \<not> br_expired br \<Longrightarrow> answered m br"
  by (auto simp: answered_def)

lemma sys_call_effect:
  assumes "sys_call c br = Some (a, br')"
  shows "br_calls br' = br_calls br @ [(c, a)]" and "br_speed br' = br_speed br" and "br_failed br' = br_failed br"
    and "br_bytes br' = br_bytes br" and "roomy d br \<Longrightarrow> roomy (d + 1) br'"
    and "roomy d br \<Longrightarrow> br_bytes br' + max 0 a + (\<Sum>(b, v) \<leftarrow> br_answers br'. max 0 v) < 2 ^ 31"
  using assms by (auto simp: sys_call_def roomy_def split: list.splits)

text \<open>What a try does to the counters and the trace: how many failures and pages, and how many of each call.\<close>

definition moves :: "bench_run \<Rightarrow> bench_run \<Rightarrow> int \<Rightarrow> int \<Rightarrow> int \<Rightarrow> int \<Rightarrow> bool" where
  "moves br br' counted tried open ref \<longleftrightarrow>
     br_speed br' + br_failed br' = br_speed br + br_failed br + counted \<and>
     int (tries br') = int (tries br) + tried \<and>
     int (opened br') - int (closed br') = int (opened br) - int (closed br) + open \<and>
     int (refused br') = int (refused br) + ref \<and>
     int (length (br_answers br')) + tried \<le> int (length (br_answers br))"

lemma moves_refl: "moves br br 0 0 0 0"
  by (simp add: moves_def)

lemma moves_trans: "moves a b i j k l \<Longrightarrow> moves b c i' j' k' l' \<Longrightarrow> moves a c (i + i') (j + j') (k + k') (l + l')"
  by (simp add: moves_def)

lemma moves_call:
  assumes "sys_call c br = Some (a, br')"
  shows "moves br br' 0 (if c = New_socket then 1 else 0)
    (if c = New_socket \<and> 0 \<le> a then 1 else if (case c of Sys_close s \<Rightarrow> True | _ \<Rightarrow> False) then - 1 else 0)
    (if (case c of Sys_connect s ad pt \<Rightarrow> a < 0 | _ \<Rightarrow> False) then 1 else 0)"
  using sys_call_effect(1-3) [OF assms] sys_call_less [OF assms]
  by (cases c) (auto simp: moves_def tries_def opened_def closed_def refused_def)

lemma count_one:
  assumes "roomy 1 br"
  shows "\<exists>br'. inc_failed br = Some br' \<and> roomy 0 br' \<and> moves br br' 1 0 0 0 \<and> br_answers br' = br_answers br \<and> br_expired br' = br_expired br"
    and "\<exists>br'. inc_speed br = Some br' \<and> roomy 0 br' \<and> moves br br' 1 0 0 0 \<and> br_answers br' = br_answers br \<and> br_expired br' = br_expired br"
  using assms by (auto simp: inc_failed_def inc_speed_def add_int_def roomy_def moves_def tries_def opened_def closed_def refused_def)

lemma answered_cong: "br_answers br' = br_answers br \<Longrightarrow> br_expired br' = br_expired br \<Longrightarrow> answered n br' = answered n br"
  by (simp add: answered_def)

lemma roomy_less: "roomy d br \<Longrightarrow> e \<le> d \<Longrightarrow> roomy e br"
  by (auto simp: roomy_def)

lemma fail_and_close_ok:
  assumes "answered 1 br" and "roomy 1 br"
  shows "\<exists>br'. fail_and_close s br = Some br' \<and> answered 0 br' \<and> roomy 0 br' \<and> moves br br' 1 0 (- 1) 0"
proof -
  obtain b1 where b1: "inc_failed br = Some b1" "roomy 0 b1" "moves br b1 1 0 0 0" "br_answers b1 = br_answers br" "br_expired b1 = br_expired br"
    using count_one(1) [OF assms(2)] by blast
  have "answered (Suc 0) b1" using assms(1) answered_cong [OF b1(4,5)] by simp
  then obtain a b2 where b2: "sys_call (Sys_close s) b1 = Some (a, b2)" "answered 0 b2" using answered_call [of 0 b1 "Sys_close s"] by auto
  have "moves br b2 1 0 (- 1) 0" using moves_trans [OF b1(3) moves_call [OF b2(1)]] by simp
  moreover have "roomy 0 b2" using roomy_less [OF sys_call_effect(5) [OF b2(1) b1(2)]] by simp
  moreover have "fail_and_close s br = Some b2" using b1(1) b2(1) by (simp add: fail_and_close_def)
  ultimately show ?thesis using b2(2) by blast
qed

lemma short_reads_ok:
  assumes "answered 1 br" and "roomy 1 br"
  shows "\<exists>ok br'. short_reads s br = Some (ok, br') \<and>
    (if ok then answered 1 br' \<and> roomy 1 br' \<and> moves br br' 0 0 0 0 else answered 0 br' \<and> roomy 0 br' \<and> moves br br' 1 0 (- 1) 0)"
  using assms
proof (induction s br rule: short_reads.induct)
  case (1 s br)
  show ?case
  proof (cases "br_expired br")
    case True
    then have "short_reads s br = Some (True, br)" by (simp add: short_reads.simps [of s br])
    then show ?thesis using 1(2,3) moves_refl by (intro exI [of _ True] exI [of _ br]) simp
  next
    case False
    obtain i b1 where b1: "sys_call (Sys_read s) br = Some (i, b1)" "answered 1 b1"
      using answered_call [OF answered_any [OF 1(2) False], of 1 "Sys_read s"] by auto
    note eff = sys_call_effect [OF b1(1)]
    have r1: "roomy 1 b1" using roomy_less [OF eff(5) [OF 1(3)]] by simp
    have m1: "moves br b1 0 0 0 0" using moves_call [OF b1(1)] by simp
    consider "i < 0" | "i = 0" | "0 < i" by linarith
    then show ?thesis
    proof cases
      case 1
      obtain b2 where "fail_and_close s b1 = Some b2" "answered 0 b2" "roomy 0 b2" "moves b1 b2 1 0 (- 1) 0"
        using fail_and_close_ok [OF b1(2) r1] by blast
      then show ?thesis using 1 False b1 moves_trans [OF m1, of b2 1 0 "- 1" 0]
        by (intro exI [of _ False] exI [of _ b2]) (simp add: short_reads.simps [of s br])
    next
      case 2
      then show ?thesis using False b1 r1 m1
        by (intro exI [of _ True] exI [of _ b1]) (simp add: short_reads.simps [of s br])
    next
      case 3
      let ?b2 = "b1\<lparr>br_bytes := br_bytes b1 + i\<rparr>"
      have nn: "0 \<le> (\<Sum>(b, v) \<leftarrow> br_answers b1. max 0 v)" by (rule sum_list_nonneg) auto
      have sum: "br_bytes b1 + i + (\<Sum>(b, v) \<leftarrow> br_answers b1. max 0 v) < 2 ^ 31" using eff(6) [OF 1(3)] 3 by simp
      have pos: "0 \<le> br_bytes b1" using r1 by (simp add: roomy_def)
      have add: "add_bytes i b1 = Some ?b2" using sum nn pos 3 by (simp add: add_bytes_def add_int_def)
      have "roomy 1 ?b2" using r1 sum 3 by (simp add: roomy_def)
      moreover have "answered 1 ?b2" using b1(2) by (simp add: answered_def)
      ultimately obtain ok b3 where b3: "short_reads s ?b2 = Some (ok, b3)"
        "if ok then answered 1 b3 \<and> roomy 1 b3 \<and> moves ?b2 b3 0 0 0 0 else answered 0 b3 \<and> roomy 0 b3 \<and> moves ?b2 b3 1 0 (- 1) 0"
        using 1(1) [OF False b1(1) refl _ _ add] 3 by auto
      have "moves br ?b2 0 0 0 0" using m1 by (simp add: moves_def tries_def opened_def closed_def refused_def)
      then show ?thesis using b3 b1(1) False 3 add moves_trans [of br ?b2 0 0 0 0 b3]
        by (intro exI [of _ ok] exI [of _ b3]) (cases ok; force simp: short_reads.simps [of s br])
    qed
  qed
qed

text \<open>Closing the connection ends a try that has gone well so far.\<close>

lemma short_close_ok:
  assumes "answered 1 br" and "roomy 1 br"
  shows "\<exists>br'. (do { (r, br1) \<leftarrow> sys_call (Sys_close s) br; if r \<noteq> 0 then inc_failed br1 else inc_speed br1 }) = Some br' \<and>
    answered 0 br' \<and> roomy 0 br' \<and> moves br br' 1 0 (- 1) 0"
proof -
  obtain r b1 where b1: "sys_call (Sys_close s) br = Some (r, b1)" "answered 0 b1"
    using answered_call [of 0 br "Sys_close s"] assms(1) by auto
  have "roomy 1 b1" using roomy_less [OF sys_call_effect(5) [OF b1(1) assms(2)]] by simp
  note inc = count_one [OF this]
  have m: "moves br b1 0 0 (- 1) 0" using moves_call [OF b1(1)] by simp
  obtain b2 where b2: "(if r \<noteq> 0 then inc_failed b1 else inc_speed b1) = Some b2" "roomy 0 b2" "moves b1 b2 1 0 0 0"
    "br_answers b2 = br_answers b1" "br_expired b2 = br_expired b1"
    using inc by (cases "r = 0") auto
  have "answered 0 b2" using b1(2) answered_cong [OF b2(4,5)] by simp
  moreover have "moves br b2 1 0 (- 1) 0" using moves_trans [OF m b2(3)] by simp
  ultimately show ?thesis using b1(1) b2(1,2) by simp
qed

lemma short_exchange_ok:
  assumes "answered 3 br" and "roomy 1 br"
  shows "\<exists>br'. short_exchange bo req s br = Some br' \<and> answered 0 br' \<and> roomy 0 br' \<and> moves br br' 1 0 (- 1) 0"
proof -
  obtain w b1 where b1: "sys_call (Sys_write s req) br = Some (w, b1)" "answered 2 b1"
    using answered_call [of 2 br "Sys_write s req"] assms(1) by (auto simp: numeral_3_eq_3 numeral_2_eq_2)
  have r1: "roomy 1 b1" using roomy_less [OF sys_call_effect(5) [OF b1(1) assms(2)]] by simp
  have m1: "moves br b1 0 0 0 0" using moves_call [OF b1(1)] by simp
  show ?thesis
  proof (cases "int (length req) = w")
    case False
    obtain b2 where "fail_and_close s b1 = Some b2" "answered 0 b2" "roomy 0 b2" "moves b1 b2 1 0 (- 1) 0"
      using fail_and_close_ok [OF answered_less [OF b1(2)] r1] by auto
    then show ?thesis using False b1 moves_trans [OF m1, of b2 1 0 "- 1" 0] by (simp add: short_exchange_def)
  next
    case True
    obtain sd b2 where b2: "(if bo_http10 bo = 0 then sys_call (Sys_shutdown s) b1 else Some (0, b1)) = Some (sd, b2)"
      "answered 1 b2" "roomy 1 b2" "moves br b2 0 0 0 0"
    proof (cases "bo_http10 bo = 0")
      case True
      obtain a b2 where c: "sys_call (Sys_shutdown s) b1 = Some (a, b2)" "answered 1 b2"
        using answered_call [of 1 b1 "Sys_shutdown s"] b1(2) by (auto simp: numeral_2_eq_2)
      moreover have "roomy 1 b2" using roomy_less [OF sys_call_effect(5) [OF c(1) r1]] by simp
      moreover have "moves br b2 0 0 0 0" using moves_trans [OF m1 moves_call [OF c(1)]] by simp
      ultimately show thesis using that True by simp
    next
      case False
      then show thesis using that [of 0 b1] answered_less [OF b1(2), of 1] r1 m1 by simp
    qed
    show ?thesis
    proof (cases "sd = 0")
      case False
      obtain b3 where "fail_and_close s b2 = Some b3" "answered 0 b3" "roomy 0 b3" "moves b2 b3 1 0 (- 1) 0"
        using fail_and_close_ok [OF b2(2,3)] by blast
      then show ?thesis using True False b1(1) b2(1) moves_trans [OF b2(4), of b3 1 0 "- 1" 0]
        by (simp add: short_exchange_def)
    next
      case sd: True
      obtain ok b3 where b3: "(if \<not> bo_force bo then short_reads s b2 else Some (True, b2)) = Some (ok, b3)"
        "if ok then answered 1 b3 \<and> roomy 1 b3 \<and> moves b2 b3 0 0 0 0 else answered 0 b3 \<and> roomy 0 b3 \<and> moves b2 b3 1 0 (- 1) 0"
        using short_reads_ok [OF b2(2,3), of s] b2(2,3) moves_refl [of b2] by (cases "bo_force bo") fastforce+
      note run = True sd b1(1) b2(1) b3(1)
      show ?thesis
      proof (cases ok)
        case False
        then show ?thesis using run b3(2) moves_trans [OF b2(4), of b3 1 0 "- 1" 0] by (simp add: short_exchange_def)
      next
        case True
        then obtain b4 where "(do { (r, br1) \<leftarrow> sys_call (Sys_close s) b3; if r \<noteq> 0 then inc_failed br1 else inc_speed br1 }) = Some b4"
          "answered 0 b4" "roomy 0 b4" "moves b3 b4 1 0 (- 1) 0"
          using short_close_ok [of b3 s] b3(2) by auto
        then show ?thesis using run True b3(2) moves_trans [OF b2(4), of b3 0 0 0 0] moves_trans [of br b3 0 0 0 0 b4 1 0 "- 1" 0]
          by (simp add: short_exchange_def)
      qed
    qed
  qed
qed

lemma short_try_ok:
  assumes "inet host \<noteq> INADDR_NONE" and "answered n br" and "\<not> br_expired br" and "roomy 0 br"
  shows "\<exists>br' ref. short_try inet bo host port req br = Some br' \<and> answered 0 br' \<and> roomy 0 br' \<and> moves br br' 1 1 ref ref"
proof -
  obtain s b1 where b1: "sys_call New_socket br = Some (s, b1)" "answered 4 b1"
    using answered_call [OF answered_any [OF assms(2,3)], of 4 New_socket] by auto
  have r1: "roomy 1 b1" using roomy_less [OF sys_call_effect(5) [OF b1(1) assms(4)]] by simp
  show ?thesis
  proof (cases "s < 0")
    case True
    obtain b2 where b2: "inc_failed b1 = Some b2" "roomy 0 b2" "moves b1 b2 1 0 0 0" "br_answers b2 = br_answers b1" "br_expired b2 = br_expired b1"
      using count_one(1) [OF r1] by blast
    have "moves br b2 1 1 0 0" using moves_trans [OF moves_call [OF b1(1)] b2(3)] True by simp
    moreover have "answered 0 b2" using answered_less [OF b1(2)] answered_cong [OF b2(4,5)] by simp
    ultimately show ?thesis using True assms(1) b1(1) b2(1,2) by (auto simp: short_try_def bench_Socket_def)
  next
    case False
    obtain r b2 where b2: "sys_call (Sys_connect s (inet host) (word_of_int port)) b1 = Some (r, b2)" "answered 3 b2"
      using answered_call [of 3 b1 "Sys_connect s (inet host) (word_of_int port)"] b1(2) by (auto simp: eval_nat_numeral)
    have r2: "roomy 1 b2" using roomy_less [OF sys_call_effect(5) [OF b2(1) r1]] by simp
    have m2: "moves br b2 0 1 1 (if r < 0 then 1 else 0)" using moves_trans [OF moves_call [OF b1(1)] moves_call [OF b2(1)]] False by simp
    show ?thesis
    proof (cases "r < 0")
      case True
      obtain b3 where b3: "inc_failed b2 = Some b3" "roomy 0 b3" "moves b2 b3 1 0 0 0" "br_answers b3 = br_answers b2" "br_expired b3 = br_expired b2"
        using count_one(1) [OF r2] by blast
      have "moves br b3 1 1 1 1" using moves_trans [OF m2 b3(3)] True by simp
      moreover have "answered 0 b3" using answered_less [OF b2(2)] answered_cong [OF b3(4,5)] by simp
      ultimately show ?thesis using True False assms(1) b1(1) b2(1) b3(1,2) by (auto simp: short_try_def bench_Socket_def)
    next
      case ok: False
      obtain b3 where b3: "short_exchange bo req s b2 = Some b3" "answered 0 b3" "roomy 0 b3" "moves b2 b3 1 0 (- 1) 0"
        using short_exchange_ok [OF b2(2) r2] by blast
      have "moves br b3 1 1 0 0" using moves_trans [OF m2 b3(4)] ok by simp
      then show ?thesis using ok False assms(1) b1(1) b2(1) b3(1-3) by (auto simp: short_try_def bench_Socket_def)
    qed
  qed
qed


definition run_example :: bench_run where
  "run_example = \<lparr>br_answers = [(False, 3), (False, 0), (False, 1), (False, 10), (False, 0), (False, 0),
     (False, 3), (True, - 1), (False, 0), (False, 0), (False, 0), (False, 0)],
     br_expired = False, br_calls = [], br_speed = 0, br_failed = 0, br_bytes = 0\<rparr>"


subsection \<open>With keep-alive\<close>

text \<open>The answers of a server that accepts nothing.\<close>

fun refusing :: "(bool \<times> int) list \<Rightarrow> bool" where
  "refusing [] = True"
| "refusing [(a, s)] = (- 1 \<le> s)"
| "refusing ((a, s) # (b, r) # as) = (if s < 0 then s = - 1 \<and> refusing ((b, r) # as) else r < 0 \<and> refusing as)"

lemma connect_loop_refused:
  assumes "inet host \<noteq> INADDR_NONE" and "refusing (br_answers br)"
  shows "connect_loop inet host port br = None"
  using assms(2)
proof (induction "br_answers br" arbitrary: br rule: refusing.induct)
  case 1
  then show ?case using assms(1) by (subst connect_loop.simps) (simp add: bench_Socket_def sys_call_def)
next
  case (2 a s)
  from 2(1) [symmetric] have "connect_loop inet host port (br\<lparr>br_answers := [], br_expired := e, br_calls := cs\<rparr>) = None" for e cs
    using assms(1) by (subst connect_loop.simps) (simp add: bench_Socket_def sys_call_def)
  then show ?case using assms(1) 2(1) [symmetric] 2(2) by (subst connect_loop.simps) (simp add: bench_Socket_def sys_call_def)
next
  case (3 a s b r as)
  note ans = 3(3) [symmetric]
  show ?case
  proof (cases "s < 0")
    case True
    then have "connect_loop inet host port (br\<lparr>br_answers := (b, r) # as, br_expired := e, br_calls := cs\<rparr>) = None" for e cs
      using 3(1) [OF True, of "br\<lparr>br_answers := (b, r) # as, br_expired := e, br_calls := cs\<rparr>"] 3(4) ans by simp
    then show ?thesis using assms(1) ans 3(4) True by (subst connect_loop.simps) (simp add: bench_Socket_def sys_call_def)
  next
    case False
    then have "connect_loop inet host port (br\<lparr>br_answers := as, br_expired := e, br_calls := cs\<rparr>) = None" for e cs
      using 3(2) [OF False, of "br\<lparr>br_answers := as, br_expired := e, br_calls := cs\<rparr>"] 3(4) ans by simp
    then show ?thesis using assms(1) ans 3(4) False by (subst connect_loop.simps) (simp add: bench_Socket_def sys_call_def)
  qed
qed

text \<open>With keep-alive the alarm does not end the load generator when the server is gone. Once the server accepts no
  more connections, a child that starts, and one whose write has just failed, never return, whether or not the alarm goes off: both wait
  in a loop that does not look at it. (Without keep-alive the same answers end the run.)\<close>

theorem bench_keep_alive_hangs:
  assumes "inet host \<noteq> INADDR_NONE" and "bo_keep_alive bo" and "br_answers br = (a1, v1) # (a2, v2) # rest" and "refusing rest"
  shows "(v1 = 0 \<longrightarrow> benchcore inet bo host port req br = None) \<and>
    (\<not> br_expired br \<and> 0 \<le> s \<and> v1 \<noteq> int (length req) \<longrightarrow> keep_loop inet bo host port req (s, br) = None)"
proof (intro conjI impI)
  assume "v1 = 0"
  have "connect_loop inet host port (br\<lparr>br_answers := rest, br_expired := e, br_calls := cs\<rparr>) = None" for e cs
    by (rule connect_loop_refused) (use assms in simp_all)
  then show "benchcore inet bo host port req br = None" using assms(2,3) \<open>v1 = 0\<close> by (simp add: benchcore_def sys_call_def)
next
  assume a: "\<not> br_expired br \<and> 0 \<le> s \<and> v1 \<noteq> int (length req)"
  have "connect_loop inet host port (br\<lparr>br_failed := f, br_answers := rest, br_expired := e, br_calls := cs\<rparr>) = None" for e cs f
    by (rule connect_loop_refused) (use assms in simp_all)
  then have "keep_try inet bo host port req (s, br) = None" using a assms(3)
    by (auto simp: keep_try_def sys_call_def fail_and_close_def inc_failed_def add_int_def)
  then show "keep_loop inet bo host port req (s, br) = None" using a by (subst keep_loop.simps) simp
qed

theorem bench_keep_alive_hangs_witness:
  "benchcore (\<lambda>_. 1) default_options ''h'' 80 ''x''
     \<lparr>br_answers = [(False, 0), (False, 0), (False, 3), (True, - 1), (False, 3), (False, - 1)],
      br_expired = False, br_calls = [], br_speed = 0, br_failed = 0, br_bytes = 0\<rparr> = None"
proof -
  let ?br = "\<lparr>br_answers = [(False, 0), (False, 0), (False, 3), (True, - 1), (False, 3), (False, - 1)],
      br_expired = False, br_calls = [], br_speed = 0, br_failed = 0, br_bytes = 0\<rparr>"
  have "refusing [(False, 3), (True, - 1), (False, 3), (False, - 1)]" by simp
  moreover have "(\<lambda>_ :: string. 1 :: 32 word) ''h'' \<noteq> INADDR_NONE" "bo_keep_alive default_options"
    by (simp_all add: INADDR_NONE_def default_options_def)
  ultimately show ?thesis
    using bench_keep_alive_hangs [of "\<lambda>_. 1" "''h''" default_options ?br False 0 False 0
        "[(False, 3), (True, - 1), (False, 3), (False, - 1)]" 80 "''x''"] by simp
qed

text \<open>A failed read closes the connection, whose number is then written to, found bad and closed again: one error is two failures.\<close>

lemma keep_read_error_twice:
  assumes "0 \<le> s" and "\<not> bo_force bo" and "\<not> br_expired br" and "0 \<le> br_failed br" and "br_failed br < 2 ^ 31 - 2"
    and "br_answers br = (False, int (length req)) # (False, - 1) # (False, c1) # (a4, - 1) # (a5, - 1) # rest"
  shows "\<exists>b1. keep_try inet bo host port req (s, br) = Some (s, b1) \<and> br_failed b1 = br_failed br + 1 \<and>
    keep_try inet bo host port req (s, b1) = connect_loop inet host port
      (br\<lparr>br_failed := 2 + br_failed br, br_answers := rest, br_expired := a4 \<or> a5,
        br_calls := br_calls br @ [(Sys_write s req, int (length req)), (Sys_read s, - 1), (Sys_close s, c1),
          (Sys_write s req, - 1), (Sys_close s, - 1)]\<rparr>)"
  using assms by (simp add: keep_try_def sys_call_def keep_read_def fail_and_close_def inc_failed_def add_int_def)

text \<open>The end of the stream is taken for a page, and the connection that the server has closed is kept.\<close>

lemma keep_read_end:
  assumes "0 \<le> s" and "\<not> bo_force bo" and "\<not> br_expired br" and "0 \<le> br_speed br" and "br_speed br < 2 ^ 31 - 1"
    and "br_answers br = (False, int (length req)) # (False, 0) # rest"
  shows "\<exists>b1. keep_try inet bo host port req (s, br) = Some (s, b1) \<and> br_speed b1 = br_speed br + 1 \<and> br_answers b1 = rest"
  using assms by (simp add: keep_try_def sys_call_def keep_read_def inc_speed_def add_int_def)

text \<open>A refused connection leaves its socket open.\<close>

lemma refused_leaks:
  assumes "inet host \<noteq> INADDR_NONE" and "br_answers br = (a1, s) # (a2, r) # rest" and "0 \<le> s" and "r < 0"
  shows "\<exists>b1. bench_Socket inet host port br = Some (- 1, b1) \<and> opened b1 = opened br + 1 \<and> closed b1 = closed br"
  using assms by (simp add: bench_Socket_def sys_call_def opened_def closed_def)

subsection \<open>The totals\<close>

definition counters_ok :: "int \<times> int \<times> int \<Rightarrow> bool" where
  "counters_ok = (\<lambda>(a, b, c). 0 \<le> a \<and> 0 \<le> b \<and> 0 \<le> c)"

lemma digit_not_space: "is_digit c \<Longrightarrow> \<not> isspace c \<and> c \<noteq> CHR ''-'' \<and> c \<noteq> CHR ''+'' \<and>
    c \<notin> {CHR '' '', CHR 0x09, CHR 0x0A, CHR 0x0B, CHR 0x0C, CHR 0x0D}"
  by (auto simp: is_digit_def isspace_def)

lemma dec_head: "\<exists>d ds. dec n = d # ds \<and> is_digit d"
  using dec_chars [of n] dec_nonempty [of n] by (cases "dec n") auto

lemma atoi_dec:
  assumes "int n < 2 ^ 31"
  shows "atoi (dec n) = int n"
proof -
  obtain d ds where d: "dec n = d # ds" "is_digit d" using dec_head by blast
  have tw: "takeWhile is_digit (dec n) = dec n" using dec_chars [of n] by (simp add: takeWhile_eq_all_conv)
  have "atol (dec n) = int n"
    using tw digit_not_space [OF d(2)] dec_value_dec [of n] unfolding atol_def d(1) by (simp add: Let_def)
  moreover have "sint (word_of_int k :: 32 word) = k" if "0 \<le> k" "k < 2 ^ 31" for k
    using that by (simp add: signed_of_int signed_take_bit_int_eq_self)
  moreover have "max (- (2 ^ 63)) (min (2 ^ 63 - 1) (int n)) = int n" using assms by simp
  ultimately show ?thesis unfolding atoi_def using assms by (metis of_nat_0_le_iff)
qed

lemma scan_int_dec:
  assumes "int n < 2 ^ 31" and "\<forall>c \<in> set ws. isspace c" and "\<not> is_digit c"
  shows "scan_int (ws @ dec n @ c # t) = Some (Inr (int n, c # t))"
proof -
  obtain d ds where d: "dec n = d # ds" "is_digit d" using dec_head by blast
  have skip: "dropWhile isspace (ws @ dec n @ c # t) = dec n @ c # t"
    using assms(2) d digit_not_space [OF d(2)] by (simp add: dropWhile_append2)
  have tw: "takeWhile is_digit (dec n @ c # t) = dec n" "dropWhile is_digit (dec n @ c # t) = c # t"
    using dec_chars [of n] assms(3) by (simp_all add: takeWhile_append2 dropWhile_append2)
  show ?thesis unfolding scan_int_def skip
    using tw d digit_not_space [OF d(2)] atoi_dec [OF assms(1)] assms(3) by (simp add: Let_def)
qed

lemma scan_int_end: "\<forall>c \<in> set ws. isspace c \<Longrightarrow> scan_int ws = None"
proof -
  assume "\<forall>c \<in> set ws. isspace c"
  then have e: "dropWhile isspace ws = []" by simp
  show ?thesis unfolding scan_int_def e by simp
qed

lemma scan_line:
  assumes "counters_ok r" and "fst r < 2 ^ 31" and "fst (snd r) < 2 ^ 31" and "snd (snd r) < 2 ^ 31" and "\<forall>c \<in> set ws. isspace c"
  shows "scan_ints 3 (ws @ child_line r @ t) = Some ([fst r, fst (snd r), snd (snd r)], CHR 0x0A # t)"
proof -
  obtain a b c where r: "r = (int a, int b, int c)"
    using assms(1) by (auto simp: counters_ok_def) (metis zero_le_imp_eq_int)
  have d: "dec_int (int n) = dec n" for n by (simp add: dec_int_def)
  have sp: "\<not> is_digit CHR '' ''" "\<not> is_digit CHR 0x0A" "\<forall>c \<in> set '' ''. isspace c" by (simp_all add: is_digit_def isspace_def)
  have "scan_int (ws @ dec a @ CHR '' '' # dec b @ '' '' @ dec c @ CHR 0x0A # t) = Some (Inr (int a, '' '' @ dec b @ '' '' @ dec c @ CHR 0x0A # t))"
    using scan_int_dec [of a ws] assms(2,5) sp r by simp
  moreover have "scan_int ('' '' @ dec b @ CHR '' '' # dec c @ CHR 0x0A # t) = Some (Inr (int b, '' '' @ dec c @ CHR 0x0A # t))"
    using scan_int_dec [of b "'' ''"] assms(3) sp r by simp
  moreover have "scan_int ('' '' @ dec c @ CHR 0x0A # t) = Some (Inr (int c, CHR 0x0A # t))"
    using scan_int_dec [of c "'' ''"] assms(4) sp r by simp
  ultimately show ?thesis by (simp add: r child_line_def d numeral_3_eq_3)
qed

definition sums :: "(int \<times> int \<times> int) list \<Rightarrow> int \<times> int \<times> int" where
  "sums rs = (\<Sum>r \<leftarrow> rs. fst r, \<Sum>r \<leftarrow> rs. fst (snd r), \<Sum>r \<leftarrow> rs. snd (snd r))"

lemma sums_nonneg: "\<forall>r \<in> set rs. counters_ok r \<Longrightarrow> counters_ok (sums rs)"
  by (induction rs) (auto simp: counters_ok_def sums_def)

definition add3 :: "int \<times> int \<times> int \<Rightarrow> int \<times> int \<times> int \<Rightarrow> int \<times> int \<times> int" where
  "add3 p q = (fst p + fst q, fst (snd p) + fst (snd q), snd (snd p) + snd (snd q))"

definition in_range :: "int \<times> int \<times> int \<Rightarrow> bool" where
  "in_range = (\<lambda>(a, b, c). a < 2 ^ 31 \<and> b < 2 ^ 31 \<and> c < 2 ^ 31)"

lemma collect_lines:
  assumes "\<forall>r \<in> set rs. counters_ok r" and "counters_ok tot" and "in_range (add3 tot (sums rs))" and "\<forall>c \<in> set ws. isspace c" and "0 < n"
  shows "collect (int n) ik tot (ws @ concat (map child_line rs)) =
    (if length rs < n then None else Some (add3 tot (sums (take n rs)), fst (rs ! (n - 1))))"
  using assms
proof (induction rs arbitrary: tot ws n ik)
  case Nil
  then show ?case by (subst collect.simps) (simp add: scan_int_end numeral_3_eq_3)
next
  case (Cons r rs)
  obtain a b c where r: "r = (a, b, c)" by (cases r) auto
  obtain x y z where tot: "tot = (x, y, z)" by (cases tot) auto
  obtain u v w where su: "sums rs = (u, v, w)" by (cases "sums rs") auto
  have ok: "0 \<le> a" "0 \<le> b" "0 \<le> c" "0 \<le> x" "0 \<le> y" "0 \<le> z" "0 \<le> u" "0 \<le> v" "0 \<le> w"
    using Cons.prems(1,2) sums_nonneg [of rs] by (auto simp: r tot su counters_ok_def)
  have sr: "sums (r # rs) = (a + u, b + v, c + w)" using su by (simp add: sums_def r)
  have lt: "x + (a + u) < 2 ^ 31" "y + (b + v) < 2 ^ 31" "z + (c + w) < 2 ^ 31"
    using Cons.prems(3) by (simp_all add: sr tot in_range_def add3_def)
  have sc: "scan_ints 3 (ws @ child_line r @ concat (map child_line rs)) = Some ([a, b, c], CHR 0x0A # concat (map child_line rs))"
    using scan_line [of r ws] ok lt Cons.prems(1,4) by (simp add: r)
  have add: "add_int x a = Some (x + a)" "add_int y b = Some (y + b)" "add_int z c = Some (z + c)"
    using ok lt by (simp_all add: add_int_def)
  have nl: "\<forall>c \<in> set [CHR 0x0A]. isspace c" by (simp add: isspace_def)
  have step: "collect (int n) ik tot (ws @ concat (map child_line (r # rs))) =
      (if int n - 1 = 0 then Some ((x + a, y + b, z + c), a)
       else collect (int n - 1) (a, c) (x + a, y + b, z + c) ([CHR 0x0A] @ concat (map child_line rs)))"
    using sc add by (subst collect.simps) (simp add: tot)
  show ?case
  proof (cases "n = 1")
    case True
    then show ?thesis unfolding step using tot r by (simp add: sums_def add3_def)
  next
    case False
    then have n: "int n - 1 = int (n - 1)" "0 < n - 1" using Cons.prems(5) by auto
    have "in_range (add3 (x + a, y + b, z + c) (sums rs))" "counters_ok (x + a, y + b, z + c)" "\<forall>r \<in> set rs. counters_ok r"
      using lt ok Cons.prems(1) by (auto simp: su in_range_def counters_ok_def add3_def algebra_simps)
    from Cons.IH [OF this(3,2,1) nl n(2), of "(a, c)"] show ?thesis
      unfolding step n(1) using False n Cons.prems(5) by (cases n) (auto simp: tot r sums_def add3_def nth_Cons' take_Cons' algebra_simps)
  qed
qed

text \<open>The totals are right and the exit code is not. When all children have written their lines, in whatever order, the
  parent reads back exactly the numbers printed and reports their sums; it then exits with the number of pages of the
  child whose line it read last, where the program's own list of return codes promises 0. When a child has died, so that there are fewer
  lines than children, the parent never returns: it holds the writing end of the pipe itself.\<close>

theorem bench_totals:
  assumes "0 < n" and "\<forall>r \<in> set rs. 0 \<le> fst r \<and> 0 \<le> fst (snd r) \<and> 0 \<le> snd (snd r)"
    and "(\<Sum>r \<leftarrow> rs. fst r) < 2 ^ 31" and "(\<Sum>r \<leftarrow> rs. fst (snd r)) < 2 ^ 31" and "(\<Sum>r \<leftarrow> rs. snd (snd r)) < 2 ^ 31"
  shows "collect (int n) ik (0, 0, 0) (concat (map child_line rs)) =
    (if length rs < n then None
     else Some ((\<Sum>r \<leftarrow> take n rs. fst r, \<Sum>r \<leftarrow> take n rs. fst (snd r), \<Sum>r \<leftarrow> take n rs. snd (snd r)), fst (rs ! (n - 1))))"
proof -
  have "\<forall>r \<in> set rs. counters_ok r" "counters_ok (0, 0, 0)" "in_range (add3 (0, 0, 0) (sums rs))"
    using assms(2-5) by (auto simp: counters_ok_def in_range_def sums_def add3_def)
  from collect_lines [OF this _ assms(1), of "[]" ik] show ?thesis by (simp add: sums_def add3_def)
qed

theorem bench_totals_witness:
  "collect 2 (2, 0) (0, 0, 0) (concat (map child_line [(3, 0, 30), (4, 1, 40)])) = Some ((7, 1, 70), 4)"
  using bench_totals [of 2 "[(3, 0, 30), (4, 1, 40)]" "(2, 0)"] by simp

text \<open>A negative number of clients makes the program itself the only child: it reports nothing.\<close>

lemma no_clients_no_fork: "n \<le> 0 \<Longrightarrow> fork_loop (nat n) 0 0 br = Some (0, 0, br)"
  by simp

end
