(* ===== verification/HttpServer.thy ===== *)
theory HttpServer
  imports TcpConnection
begin

text \<open>
  \<^verbatim>\<open>mutlithread/multiThread/http/HttpServer.{h,cpp}\<close> and the handler of \<^verbatim>\<open>main.cpp\<close>: the
  callbacks an HTTP server installs on its connections. The user's \<^verbatim>\<open>HttpCallback\<close> is a function
  that fills in the response; \<open>None\<close> where none is set. All of it runs in the connection's loop.
\<close>

type_synonym http_callback = "http_request \<Rightarrow> http_response \<Rightarrow> http_response"

definition onConnection :: "http_context connection \<Rightarrow> http_context connection option" where
  "onConnection c = Some (if connected c then setContext HttpContext_new c else c)"

definition respond :: "http_callback option \<Rightarrow> http_request \<Rightarrow> http_response" where
  "respond httpCallback httpRequest =
     (let isClose = (getHeader ''Connection'' httpRequest = ''close'');
          response = HttpResponse_new isClose
      in case httpCallback of Some cb \<Rightarrow> cb httpRequest response | None \<Rightarrow> response)"

definition onRequest :: "http_context conn_callbacks \<Rightarrow> http_callback option \<Rightarrow> http_request
    \<Rightarrow> http_context connection \<Rightarrow> http_context connection option" where
  "onRequest cbs httpCallback httpRequest c = do {
     let response = respond httpCallback httpRequest;
     buffer \<leftarrow> appendToBuffer response Buffer_new;
     c1 \<leftarrow> conn_send cbs True (toString buffer) c;
     if closeConnection response then conn_shutdown True c1 else Some c1 }"

definition bad_request :: string where
  "bad_request = ''HTTP/1.1 400 Bad Request'' @ kCRLF @ kCRLF"

text \<open>The context is reached through \<^verbatim>\<open>any_cast\<close>; a connection without one is a null
  dereference. A parse that does not return, or aborts, ends the computation.\<close>

definition onMessage :: "http_context conn_callbacks \<Rightarrow> http_callback option \<Rightarrow> int
    \<Rightarrow> http_context connection \<Rightarrow> http_context connection option" where
  "onMessage cbs httpCallback receiveTime c = do {
     context \<leftarrow> cn_context c;
     r \<leftarrow> parseRequest receiveTime context (cn_inputBuffer c);
     case r of
       Parse_abort \<Rightarrow> None
     | Parse_return ok context' b \<Rightarrow> do {
         let c1 = c\<lparr>cn_inputBuffer := b, cn_context := Some context'\<rparr>;
         c2 \<leftarrow> (if \<not> ok
               then do { c' \<leftarrow> conn_send cbs True bad_request c1; conn_shutdown True c' }
               else Some c1);
         if gotAll context'
         then do {
           c3 \<leftarrow> onRequest cbs httpCallback (hc_request context') c2;
           Some (c3\<lparr>cn_context := Some (HttpContext_reset context')\<rparr>) }
         else Some c2 } }"

definition HttpServer_callbacks :: "http_callback option \<Rightarrow> http_context conn_callbacks" where
  "HttpServer_callbacks httpCallback =
     \<lparr>cb_connection = Some onConnection, cb_message = Some (onMessage (quiet_cbs False) httpCallback),
      cb_close = Some Some, cb_writeComplete = False\<rparr>"

subsection \<open>The handler of main\<close>

definition httpCallback :: http_callback where
  "httpCallback request response =
     response_addHeader ''User-Agent'' (getHeader ''User-Agent'' request)
       (response_addHeader ''server'' ''tinyWS''
         (setStatusMessage ''OK'' (setStatusCode k200OK (setBody ''Hello World!'' response))))"

definition set404NotFound :: "http_response \<Rightarrow> http_response" where
  "set404NotFound response =
     setCloseConnection True (setBody ''Not Found'' (setStatusMessage ''Not Found'' (setStatusCode k404NotFound response)))"

subsection \<open>Serving a request\<close>

lemma respond_text:
  "\<exists>b. appendToBuffer r Buffer_new = Some b \<and> buf_inv b \<and> toString b = concat (response_pieces r)"
  using bq.push_list_law [OF Buffer_new_inv, of "response_pieces r"]
  by (simp add: appendToBuffer_def Buffer_new_view)

lemma onRequest_effect:
  assumes inv: "conn_inv c" and con: "connected c" and un: "unsent c = []" and ans: "so_answers (cn_socket c) = []"
  shows "\<exists>c'. onRequest cbs cb r c = Some c' \<and> conn_inv c' \<and> unsent c' = [] \<and>
    so_out (cn_socket c') = so_out (cn_socket c) @ concat (response_pieces (respond cb r)) \<and>
    cn_inputBuffer c' = cn_inputBuffer c \<and> cn_context c' = cn_context c \<and>
    cn_state c' = (if rs_closeConnection (respond cb r) then kDisconnecting else kConnected)"
proof -
  obtain b where b: "appendToBuffer (respond cb r) Buffer_new = Some b"
    "toString b = concat (response_pieces (respond cb r))" using respond_text by blast
  obtain c1 where c1: "conn_send cbs True (toString b) c = Some c1" "conn_inv c1" "cn_state c1 = cn_state c"
    "outstream c1 = outstream c @ toString b" "cn_inputBuffer c1 = cn_inputBuffer c"
    "cn_context c1 = cn_context c" "unsent c1 = []"
    using conn_send_effect [OF inv, of cbs "toString b"] con un ans by auto
  have out: "so_out (cn_socket c1) = so_out (cn_socket c) @ toString b"
    using c1(4,7) un by (simp add: outstream_def)
  obtain c2 where c2: "conn_shutdown True c1 = Some c2" "conn_inv c2" "outstream c2 = outstream c1"
    "cn_inputBuffer c2 = cn_inputBuffer c1" "cn_context c2 = cn_context c1" "unsent c2 = unsent c1"
    "cn_state c2 = (if connected c1 then kDisconnecting else cn_state c1)"
    using conn_shutdown_effect [OF c1(2)] by blast
  show ?thesis
  proof (cases "rs_closeConnection (respond cb r)")
    case True
    then have "onRequest cbs cb r c = Some c2"
      using b(1) c1(1) c2(1) by (simp add: onRequest_def closeConnection_def Let_def)
    then show ?thesis using True c1 c2 out b(2) con by (simp add: outstream_def connected_def)
  next
    case False
    then have "onRequest cbs cb r c = Some c1"
      using b(1) c1(1) by (simp add: onRequest_def closeConnection_def Let_def)
    then show ?thesis using False c1 out b(2) con by (simp add: connected_def)
  qed
qed

lemma handleRead_message:
  assumes inv: "conn_inv c" and inp: "so_in (cn_socket c) \<noteq> []"
  shows "\<exists>b. buf_inv b \<and> toString b = toString (cn_inputBuffer c) @ so_in (cn_socket c) \<and>
    conn_handleRead (HttpServer_callbacks cb) t c =
      onMessage (quiet_cbs False) cb t (c\<lparr>cn_inputBuffer := b, cn_socket := (cn_socket c)\<lparr>so_in := []\<rparr>\<rparr>) \<and>
    conn_inv (c\<lparr>cn_inputBuffer := b, cn_socket := (cn_socket c)\<lparr>so_in := []\<rparr>\<rparr>)"
proof -
  have "buf_inv (cn_inputBuffer c)" using inv by (simp add: conn_inv_def conn_ok_def)
  from sys_readFd_drains [OF this, of "cn_socket c" 0] obtain n err b where
    b: "readFd sys_readv (cn_socket c) 0 (cn_inputBuffer c) = Some (n, err, b, (cn_socket c)\<lparr>so_in := []\<rparr>)"
      "buf_inv b" "toString b = toString (cn_inputBuffer c) @ so_in (cn_socket c)" "0 < n"
    using inp by blast
  moreover have "conn_inv (c\<lparr>cn_inputBuffer := b, cn_socket := (cn_socket c)\<lparr>so_in := []\<rparr>\<rparr>)"
    using inv b(2) by (simp add: conn_inv_def conn_ok_def open_state_def unsent_def)
  ultimately show ?thesis by (auto simp: conn_handleRead_def HttpServer_callbacks_def)
qed

lemma unsent_input [simp]: "unsent (c\<lparr>cn_inputBuffer := b\<rparr>) = unsent c" "unsent (c\<lparr>cn_socket := s\<rparr>) = unsent c"
  "unsent (c\<lparr>cn_context := x\<rparr>) = unsent c"
  by (simp_all add: unsent_def)

text \<open>A connection on which the server's callback has just run.\<close>

definition http_conn0 :: "http_context connection" where
  "http_conn0 = TcpConnection_new ''c'' 5 9 zero_address zero_address (Epoll_new 1)"

lemma http_conn_established:
  "\<exists>c. connectionEstablished (HttpServer_callbacks cb) 7 http_conn0 = Some c \<and> conn_inv c \<and> connected c \<and>
    unsent c = [] \<and> cn_socket c = endpoint_new \<and> toString (cn_inputBuffer c) = [] \<and>
    cn_context c = Some HttpContext_new"
proof -
  have inv: "conn_inv http_conn0"
    unfolding http_conn0_def by (rule TcpConnection_new_inv [OF Epoll_new_inv]) (simp_all add: Epoll_new_def)
  have new: "cn_state http_conn0 = kConnecting" "cn_socket http_conn0 = endpoint_new"
    "toString (cn_inputBuffer http_conn0) = []"
    by (simp_all add: http_conn0_def TcpConnection_new_def Buffer_new_view)
  obtain c where c: "connectionEstablished (HttpServer_callbacks cb) 7 http_conn0 =
      run_connection_cb (HttpServer_callbacks cb) c" "conn_inv c" "connected c" "cn_socket c = cn_socket http_conn0"
      "unsent c = []" "cn_inputBuffer c = cn_inputBuffer http_conn0"
    using connectionEstablished_core [OF inv new(1)] by blast
  let ?c = "c\<lparr>cn_context := Some HttpContext_new\<rparr>"
  have "connectionEstablished (HttpServer_callbacks cb) 7 http_conn0 = Some ?c"
    using c(1,3) by (simp add: run_connection_cb_def HttpServer_callbacks_def onConnection_def setContext_def)
  moreover have "conn_inv ?c" "connected ?c" using c(2,3) by (simp_all add: conn_inv_def open_state_def connected_def)
  ultimately show ?thesis using c new by auto
qed

lemma arrive_keeps:
  assumes "conn_inv c"
  shows "conn_inv (c\<lparr>cn_socket := (cn_socket c)\<lparr>so_in := s\<rparr>\<rparr>)"
  using assms by (simp add: conn_inv_def open_state_def)

text \<open>C6: the server answers. When the bytes of a well-formed request have arrived on an idle connection
  (all at once or on top of bytes already buffered), one read event parses it, calls the handler
  on exactly that request, and the kernel is handed the serialised response and nothing else. The
  context is fresh again and bytes after the request stay in the input buffer; the connection stays
  open unless the response closes it. A second request in the same bytes is not answered by this event.\<close>

theorem server_answers:
  assumes "conn_inv c" and "connected c" and "unsent c = []" and "so_answers (cn_socket c) = []"
    and "cn_context c = Some HttpContext_new"
    and "m \<noteq> kInvalid" and "target_ok path query" and "\<forall>h \<in> set hs. header_ok h"
    and "toString (cn_inputBuffer c) @ so_in (cn_socket c) = render_request m path query hs @ rest"
    and "so_in (cn_socket c) \<noteq> []"
  shows "\<exists>c'. conn_handleRead (HttpServer_callbacks cb) t c = Some c' \<and> conn_inv c' \<and> unsent c' = [] \<and>
    so_out (cn_socket c') = so_out (cn_socket c) @
      concat (response_pieces (respond cb (request_of t m path query hs))) \<and>
    toString (cn_inputBuffer c') = rest \<and> cn_context c' = Some HttpContext_new \<and>
    cn_state c' = (if rs_closeConnection (respond cb (request_of t m path query hs)) then kDisconnecting else kConnected)"
proof -
  let ?r = "respond cb (request_of t m path query hs)"
  obtain b where b: "buf_inv b" "toString b = render_request m path query hs @ rest"
    "conn_handleRead (HttpServer_callbacks cb) t c =
      onMessage (quiet_cbs False) cb t (c\<lparr>cn_inputBuffer := b, cn_socket := (cn_socket c)\<lparr>so_in := []\<rparr>\<rparr>)"
    "conn_inv (c\<lparr>cn_inputBuffer := b, cn_socket := (cn_socket c)\<lparr>so_in := []\<rparr>\<rparr>)"
    using handleRead_message [OF assms(1,10), of cb t] assms(9) by auto
  let ?ctx = "\<lparr>hc_state = kGotAll, hc_request = request_of t m path query hs\<rparr>"
  have p: "is_parsing HttpContext_new" by (simp add: HttpContext_new_def)
  obtain b' where b': "parseRequest t HttpContext_new b = Some (Parse_return True ?ctx b')" "buf_inv b'" "toString b' = rest"
    using parseRequest_facts [OF b(1) p, of t] parse_str_render [OF assms(6,7,8), of t rest] b(2) by auto
  let ?c = "c\<lparr>cn_socket := (cn_socket c)\<lparr>so_in := []\<rparr>, cn_inputBuffer := b', cn_context := Some ?ctx\<rparr>"
  have "conn_inv ?c" using b(4) b'(2) by (simp add: conn_inv_def conn_ok_def open_state_def)
  moreover have "connected ?c" using assms(2) by (simp add: connected_def)
  ultimately obtain c' where c': "onRequest (quiet_cbs False) cb (request_of t m path query hs) ?c = Some c'"
    "conn_inv c'" "unsent c' = []" "so_out (cn_socket c') = so_out (cn_socket c) @ concat (response_pieces ?r)"
    "cn_inputBuffer c' = b'" "cn_state c' = (if rs_closeConnection ?r then kDisconnecting else kConnected)"
    using onRequest_effect [of ?c "quiet_cbs False" cb "request_of t m path query hs"] assms(3,4)
    by auto
  have reset: "HttpContext_reset ?ctx = HttpContext_new"
    by (simp add: HttpContext_reset_def swap_requests_swaps HttpContext_new_def)
  have "conn_handleRead (HttpServer_callbacks cb) t c = Some (c'\<lparr>cn_context := Some HttpContext_new\<rparr>)"
    unfolding b(3) using b'(1) c'(1) assms(5) reset by (simp add: onMessage_def gotAll_def)
  moreover have "conn_inv (c'\<lparr>cn_context := Some HttpContext_new\<rparr>)"
    using c'(2) by (simp add: conn_inv_def open_state_def)
  ultimately show ?thesis using c' b'(3) by simp
qed

theorem server_answers_witness:
  "\<exists>c c'. conn_handleRead (HttpServer_callbacks (Some httpCallback)) 3 c = Some c' \<and> so_in (cn_socket c) \<noteq> [] \<and>
    so_out (cn_socket c') = concat (response_pieces (respond (Some httpCallback)
      (request_of 3 kGet ''/'' [] [(''Connection'', ''close'')]))) \<and>
    cn_state c' = kDisconnecting"
proof -
  let ?cb = "Some httpCallback" and ?hs = "[(''Connection'', ''close'')]"
  let ?in = "render_request kGet ''/'' [] ?hs"
  obtain c0 where c0: "conn_inv c0" "connected c0" "unsent c0 = []" "cn_socket c0 = endpoint_new"
    "toString (cn_inputBuffer c0) = []" "cn_context c0 = Some HttpContext_new"
    using http_conn_established [of ?cb] by blast
  let ?c = "c0\<lparr>cn_socket := (cn_socket c0)\<lparr>so_in := ?in\<rparr>\<rparr>"
  have c: "connected ?c" "unsent ?c = []" "so_answers (cn_socket ?c) = []" "so_out (cn_socket ?c) = []"
    "toString (cn_inputBuffer ?c) @ so_in (cn_socket ?c) = ?in @ []" "so_in (cn_socket ?c) \<noteq> []"
    "cn_context ?c = Some HttpContext_new"
    using c0 by (simp_all add: connected_def endpoint_new_def render_request_def kCRLF_def)
  have ok: "kGet \<noteq> kInvalid" "target_ok ''/'' []" "\<forall>h \<in> set ?hs. header_ok h"
    by (auto simp: target_ok_def header_ok_def cr_free_def trimmed_def isspace_def)
  have close: "rs_closeConnection (respond ?cb (request_of 3 kGet ''/'' [] ?hs))"
    by (simp add: respond_def httpCallback_def request_of_def addHeader_def response_addHeader_def
        setStatusMessage_def setStatusCode_def setBody_def HttpResponse_new_def getHeader_def)
  from server_answers [OF arrive_keeps [OF c0(1)] c(1-3,7) ok c(5,6), of ?cb 3] close c(4)
  show ?thesis by - (rule exI [of _ ?c], use c(6) in auto)
qed



end
