(* ===== verification/Conn_Frame.thy ===== *)
theory Conn_Frame
  imports TcpConnection
begin

text \<open>
  What an operation of one connection leaves alone: the name and the channel of the connection, every
  other channel of the loop's poller, and of its own channel the descriptor and the event guard. These are
  the lemmas with which a server puts several connections on one poller.
\<close>

definition ep_frame :: "nat \<Rightarrow> epoll \<Rightarrow> epoll \<Rightarrow> bool" where
  "ep_frame p ep ep' \<longleftrightarrow> ep_owner ep' = ep_owner ep \<and> (\<forall>q. q \<noteq> p \<longrightarrow> ep_heap ep' q = ep_heap ep q) \<and>
     (\<forall>ch. ep_heap ep p = Some ch \<longrightarrow> (\<exists>ch'. ep_heap ep' p = Some ch' \<and>
        ch_eventHandling ch' = ch_eventHandling ch \<and> ch_fd ch' = ch_fd ch))"

lemma ep_frame_refl [simp]: "ep_frame p ep ep"
  by (simp add: ep_frame_def)

lemma ep_frame_trans: "ep_frame p a b \<Longrightarrow> ep_frame p b c \<Longrightarrow> ep_frame p a c"
  unfolding ep_frame_def by (metis (no_types))

lemma ep_frame_put:
  "ep_heap ep p = Some ch \<Longrightarrow> ch_eventHandling ch' = ch_eventHandling ch \<Longrightarrow> ch_fd ch' = ch_fd ch \<Longrightarrow>
    ep_frame p ep (put_channel p ch' ep)"
  by (simp add: ep_frame_def put_channel_def)

lemma ep_frame_after_put:
  assumes "ep_frame p (put_channel p ch' ep) ep'" and "ep_heap ep p = Some ch"
    and "ch_eventHandling ch' = ch_eventHandling ch" and "ch_fd ch' = ch_fd ch"
  shows "ep_frame p ep ep'"
  by (rule ep_frame_trans [OF ep_frame_put [OF assms(2,3,4)] assms(1)])

lemma updateChannel_frame: "updateChannel p ep = Some ep' \<Longrightarrow> ep_frame p ep ep'"
  by (auto simp: updateChannel_def Option.bind_eq_Some_conv ep_frame_def epoll_update_def put_channel_def
      setStatusInEpoll_def Let_def split: if_splits option.splits)

lemma channel_update_frame: "channel_update p ep = Some ep' \<Longrightarrow> ep_frame p ep ep'"
  by (auto simp: channel_update_def loop_updateChannel_def Option.bind_eq_Some_conv intro: ep_frame_after_put [OF updateChannel_frame])

lemma removeChannel_frame: "removeChannel p ep = Some ep' \<Longrightarrow> ep_frame p ep ep'"
  by (auto simp: removeChannel_def Option.bind_eq_Some_conv ep_frame_def epoll_update_def put_channel_def
      setStatusInEpoll_def Let_def split: if_splits option.splits)

lemma channel_ops_frame:
  "enableReading p ep = Some ep' \<Longrightarrow> ep_frame p ep ep'" "enableWriting p ep = Some ep' \<Longrightarrow> ep_frame p ep ep'"
  "disableWriting p ep = Some ep' \<Longrightarrow> ep_frame p ep ep'" "disableAll p ep = Some ep' \<Longrightarrow> ep_frame p ep ep'"
  by (auto simp: channel_ops_def Option.bind_eq_Some_conv
      intro: ep_frame_after_put [OF channel_update_frame])

lemma channel_remove_frame: "channel_remove p ep = Some ep' \<Longrightarrow> ep_frame p ep ep'"
  by (auto simp: channel_remove_def loop_removeChannel_def Option.bind_eq_Some_conv
      intro: ep_frame_after_put [OF removeChannel_frame])

subsection \<open>Connections\<close>

definition conn_frame :: "'c connection \<Rightarrow> 'c connection \<Rightarrow> bool" where
  "conn_frame c c' \<longleftrightarrow> cn_channel c' = cn_channel c \<and> cn_name c' = cn_name c \<and>
     ep_frame (cn_channel c) (cn_ep c) (cn_ep c')"

lemma conn_frame_refl [simp]: "conn_frame c c"
  by (simp add: conn_frame_def)

lemma conn_frame_trans [trans]: "conn_frame a b \<Longrightarrow> conn_frame b c \<Longrightarrow> conn_frame a c"
  by (auto simp: conn_frame_def intro: ep_frame_trans)

lemma conn_frame_fields [simp]:
  "conn_frame c (c'\<lparr>cn_state := s\<rparr>) = conn_frame c c'" "conn_frame c (c'\<lparr>cn_socket := so\<rparr>) = conn_frame c c'"
  "conn_frame c (c'\<lparr>cn_inputBuffer := b\<rparr>) = conn_frame c c'" "conn_frame c (c'\<lparr>cn_outputBuffer := b\<rparr>) = conn_frame c c'"
  "conn_frame c (c'\<lparr>cn_tasks := ts\<rparr>) = conn_frame c c'" "conn_frame c (c'\<lparr>cn_errors := n\<rparr>) = conn_frame c c'"
  "conn_frame c (c'\<lparr>cn_context := x\<rparr>) = conn_frame c c'"
  "conn_frame (c\<lparr>cn_state := s\<rparr>) c' = conn_frame c c'" "conn_frame (c\<lparr>cn_socket := so\<rparr>) c' = conn_frame c c'"
  "conn_frame (c\<lparr>cn_inputBuffer := b\<rparr>) c' = conn_frame c c'" "conn_frame (c\<lparr>cn_outputBuffer := b\<rparr>) c' = conn_frame c c'"
  "conn_frame (c\<lparr>cn_tasks := ts\<rparr>) c' = conn_frame c c'" "conn_frame (c\<lparr>cn_errors := n\<rparr>) c' = conn_frame c c'"
  by (simp_all add: conn_frame_def)

lemma conn_log_error_frame [simp]: "conn_frame c (conn_log_error c') = conn_frame c c'"
  "conn_frame (conn_log_error c) c' = conn_frame c c'"
  by (simp_all add: conn_log_error_def)

lemma on_channel_frame:
  assumes "on_channel f c = Some c'" and "\<And>ep'. f (cn_channel c) (cn_ep c) = Some ep' \<Longrightarrow> ep_frame (cn_channel c) (cn_ep c) ep'"
  shows "conn_frame c c'"
  using assms by (auto simp: on_channel_def Option.bind_eq_Some_conv conn_frame_def)

lemma channel_frames:
  "on_channel enableReading c = Some c' \<Longrightarrow> conn_frame c c'" "on_channel enableWriting c = Some c' \<Longrightarrow> conn_frame c c'"
  "on_channel disableWriting c = Some c' \<Longrightarrow> conn_frame c c'" "on_channel disableAll c = Some c' \<Longrightarrow> conn_frame c c'"
  "on_channel channel_remove c = Some c' \<Longrightarrow> conn_frame c c'"
  by (auto elim!: on_channel_frame intro: channel_ops_frame channel_remove_frame)

lemma sendInLoop_frame: "sendInLoop cbs m c = Some c' \<Longrightarrow> conn_frame c c'"
  by (auto simp: sendInLoop_def conn_queueInLoop_def Let_def Option.bind_eq_Some_conv
      split: if_splits prod.splits sum.splits dest!: channel_frames)

lemma conn_send_frame: "conn_send cbs loop m c = Some c' \<Longrightarrow> conn_frame c c'"
  by (auto simp: conn_send_def conn_queueInLoop_def split: if_splits dest: sendInLoop_frame)

lemma conn_shutdown_frame: "conn_shutdown loop c = Some c' \<Longrightarrow> conn_frame c c'"
  by (auto simp: conn_shutdown_def conn_queueInLoop_def setState_def shutdownInLoop_def Let_def split: if_splits)

lemma run_app_frame: "run_app wc cmds c = Some c' \<Longrightarrow> conn_frame c c'"
proof (induction wc cmds c arbitrary: c' rule: run_app.induct)
  case (2 wc m cmds c)
  then show ?case by (auto simp: Option.bind_eq_Some_conv intro: conn_frame_trans [OF conn_send_frame])
next
  case (3 wc cmds c)
  then show ?case by (auto simp: Option.bind_eq_Some_conv intro: conn_frame_trans [OF conn_shutdown_frame])
next
  case (4 wc n cmds c)
  then show ?case by (auto simp: Option.bind_eq_Some_conv)
qed simp

lemma handleClose_frame: "handleClose (app_cbs wc cmds) c = Some c' \<Longrightarrow> conn_frame c c'"
  by (auto simp: handleClose_def app_cbs_def setState_def Option.bind_eq_Some_conv dest!: channel_frames)

lemma handleRead_frame: "conn_handleRead (app_cbs wc cmds) t c = Some c' \<Longrightarrow> conn_frame c c'"
  by (auto simp: conn_handleRead_def handleError_def Let_def Option.bind_eq_Some_conv
      split: if_splits prod.splits dest!: handleClose_frame)
    (auto simp: app_cbs_def dest!: run_app_frame)

lemma handleWrite_frame:
  assumes "handleWrite cbs c = Some c'"
  shows "conn_frame c c'"
proof (cases "conn_isWriting c")
  case True
  obtain answer so where w: "sys_write (toString (cn_outputBuffer c)) (cn_socket c) = (answer, so)"
    by (cases "sys_write (toString (cn_outputBuffer c)) (cn_socket c)")
  let ?c1 = "c\<lparr>cn_socket := so\<rparr>"
  show ?thesis
  proof (cases "\<exists>n. answer = Inl n \<and> 0 < n")
    case True
    then obtain n where n: "answer = Inl n" "0 < n" by blast
    obtain out where out: "retrieve n (cn_outputBuffer ?c1) = Some out"
      using assms \<open>conn_isWriting c\<close> w n by (cases "retrieve n (cn_outputBuffer ?c1)") (auto simp: handleWrite_def)
    let ?c2 = "?c1\<lparr>cn_outputBuffer := out\<rparr>"
    show ?thesis
    proof (cases "readableBytes out = 0")
      case True
      obtain c3 where c3: "on_channel disableWriting ?c2 = Some c3"
        using assms \<open>conn_isWriting c\<close> w n out True
        by (cases "on_channel disableWriting ?c2") (auto simp: handleWrite_def)
      have "conn_frame c c3" using channel_frames(3) [OF c3] by simp
      then show ?thesis using assms \<open>conn_isWriting c\<close> w n out True c3
        by (auto simp: handleWrite_def conn_queueInLoop_def shutdownInLoop_def Let_def split: if_splits)
    qed (use assms \<open>conn_isWriting c\<close> w n out in \<open>auto simp: handleWrite_def\<close>)
  qed (use assms \<open>conn_isWriting c\<close> w in \<open>auto simp: handleWrite_def Let_def split: sum.splits if_splits\<close>)
qed (use assms in \<open>auto simp: handleWrite_def\<close>)

lemma connectionEstablished_frame:
  assumes "connectionEstablished (app_cbs wc cmds) self c = Some c'" and "cn_channel c \<in> dom (ep_heap (cn_ep c))"
  shows "conn_frame c c'"
proof -
  obtain ch where ch: "ep_heap (cn_ep c) (cn_channel c) = Some ch" "conn_channel c = ch"
    using assms(2) by (auto simp: conn_channel_def)
  let ?c2 = "(setState kConnected c)\<lparr>cn_ep := put_channel (cn_channel c) (channel_tie self ch) (cn_ep c)\<rparr>"
  have "conn_frame c ?c2"
    using ch(1) by (simp add: conn_frame_def setState_def ep_frame_put channel_tie_def)
  moreover obtain c3 where "on_channel enableReading ?c2 = Some c3" "run_app wc cmds c3 = Some c'"
    using assms(1) ch(2) by (auto simp: connectionEstablished_def run_connection_cb_def app_cbs_def setState_def
        Option.bind_eq_Some_conv)
  ultimately show ?thesis using channel_frames(1) run_app_frame conn_frame_trans by blast
qed

lemma connectionDestroyed_frame: "connectionDestroyed (app_cbs wc cmds) c = Some c' \<Longrightarrow> conn_frame c c'"
  by (auto simp: connectionDestroyed_def run_connection_cb_def app_cbs_def setState_def Option.bind_eq_Some_conv
      split: if_splits dest!: channel_frames run_app_frame intro: conn_frame_trans)

lemma conn_run_frame:
  assumes "conn_run wc e c = Some c'" and "cn_channel c \<in> dom (ep_heap (cn_ep c))"
  shows "conn_frame c c'"
  using assms
  by (cases e) (auto simp: handleError_def dest: connectionEstablished_frame handleRead_frame handleWrite_frame
      handleClose_frame run_app_frame connectionDestroyed_frame)

subsection \<open>The state\<close>

lemma on_channel_state: "on_channel f c = Some c' \<Longrightarrow> cn_state c' = cn_state c"
  by (auto simp: on_channel_def Option.bind_eq_Some_conv)

lemma sendInLoop_state: "sendInLoop cbs m c = Some c' \<Longrightarrow> cn_state c' = cn_state c"
  by (auto simp: sendInLoop_def conn_queueInLoop_def conn_log_error_def Let_def Option.bind_eq_Some_conv
      split: if_splits prod.splits sum.splits dest!: on_channel_state)

lemma conn_send_state: "conn_send cbs loop m c = Some c' \<Longrightarrow> cn_state c' = cn_state c"
  by (auto simp: conn_send_def conn_queueInLoop_def split: if_splits dest: sendInLoop_state)

lemma conn_shutdown_state:
  "conn_shutdown loop c = Some c' \<Longrightarrow> cn_state c' = (if cn_state c = kConnected then kDisconnecting else cn_state c)"
  by (auto simp: conn_shutdown_def conn_queueInLoop_def setState_def shutdownInLoop_def Let_def split: if_splits)

definition state_advance :: "conn_state \<Rightarrow> conn_state \<Rightarrow> bool" where
  "state_advance s s' \<longleftrightarrow> s' = s \<or> s = kConnected \<and> s' = kDisconnecting"

lemma run_app_state: "run_app wc cmds c = Some c' \<Longrightarrow> state_advance (cn_state c) (cn_state c')"
proof (induction wc cmds c arbitrary: c' rule: run_app.induct)
  case (2 wc m cmds c)
  then obtain d where d: "conn_send (quiet_cbs wc) True m c = Some d" "run_app wc cmds d = Some c'"
    by (auto simp: Option.bind_eq_Some_conv)
  show ?case using "2.IH" [OF d] conn_send_state [OF d(1)] by simp
next
  case (3 wc cmds c)
  then obtain d where d: "conn_shutdown True c = Some d" "run_app wc cmds d = Some c'"
    by (auto simp: Option.bind_eq_Some_conv)
  show ?case using "3.IH" [OF d] conn_shutdown_state [OF d(1)] by (auto simp: state_advance_def split: if_splits)
next
  case (4 wc n cmds c)
  then show ?case by (auto simp: Option.bind_eq_Some_conv)
qed (simp add: state_advance_def)

lemma handleClose_state: "handleClose (app_cbs wc cmds) c = Some c' \<Longrightarrow> open_state c \<and> cn_state c' = kDisconnected"
  by (auto simp: handleClose_def app_cbs_def setState_def open_state_def Option.bind_eq_Some_conv dest!: on_channel_state)

lemma handleRead_state:
  assumes "conn_handleRead (app_cbs wc cmds) t c = Some c'"
  shows "state_advance (cn_state c) (cn_state c') \<or> open_state c \<and> cn_state c' = kDisconnected"
proof -
  obtain n err b so where r: "readFd sys_readv (cn_socket c) 0 (cn_inputBuffer c) = Some (n, err, b, so)"
    using assms by (auto simp: conn_handleRead_def Option.bind_eq_Some_conv)
  let ?c = "c\<lparr>cn_inputBuffer := b, cn_socket := so\<rparr>"
  have eq: "conn_handleRead (app_cbs wc cmds) t c = (if 0 < n then run_app wc cmds ?c
      else if n = 0 then handleClose (app_cbs wc cmds) ?c else Some (handleError (conn_log_error ?c)))"
    unfolding conn_handleRead_def r by (simp add: app_cbs_def Let_def)
  consider "0 < n" | "n = 0" | "n < 0" by linarith
  then show ?thesis
  proof cases
    case 1
    then have "run_app wc cmds ?c = Some c'" using assms unfolding eq by simp
    from run_app_state [OF this] show ?thesis by simp
  next
    case 2
    then have "handleClose (app_cbs wc cmds) ?c = Some c'" using assms unfolding eq by simp
    from handleClose_state [OF this] show ?thesis by (simp add: open_state_def)
  next
    case 3
    then have "c' = handleError (conn_log_error ?c)" using assms unfolding eq by simp
    then show ?thesis by (simp add: handleError_def conn_log_error_def state_advance_def)
  qed
qed

lemma handleWrite_state:
  assumes "handleWrite cbs c = Some c'"
  shows "cn_state c' = cn_state c"
proof (cases "conn_isWriting c")
  case True
  obtain answer so where w: "sys_write (toString (cn_outputBuffer c)) (cn_socket c) = (answer, so)"
    by (cases "sys_write (toString (cn_outputBuffer c)) (cn_socket c)")
  show ?thesis
  proof (cases answer)
    case (Inl n)
    show ?thesis
    proof (cases "on_channel disableWriting (c\<lparr>cn_socket := so, cn_outputBuffer := the (retrieve n (cn_outputBuffer c))\<rparr>)")
      case None
      then show ?thesis using assms True w Inl
        by (auto simp: handleWrite_def Let_def Option.bind_eq_Some_conv split: if_splits)
    next
      case (Some c3)
      then have "cn_state c3 = cn_state c" using on_channel_state by fastforce
      then show ?thesis using assms True w Inl Some
        by (auto simp: handleWrite_def conn_queueInLoop_def shutdownInLoop_def Let_def Option.bind_eq_Some_conv
            split: if_splits)
    qed
  qed (use assms True w in \<open>auto simp: handleWrite_def Let_def\<close>)
qed (use assms in \<open>auto simp: handleWrite_def conn_log_error_def\<close>)

lemma connectionEstablished_state:
  assumes "connectionEstablished (app_cbs wc cmds) self c = Some c'"
  shows "open_state c'"
proof -
  obtain c3 where "cn_state c3 = kConnected" "run_app wc cmds c3 = Some c'"
    using assms by (auto simp: connectionEstablished_def run_connection_cb_def app_cbs_def setState_def Let_def
        Option.bind_eq_Some_conv dest!: on_channel_state)
  then show ?thesis using run_app_state by (fastforce simp: state_advance_def open_state_def)
qed

lemma conn_run_state:
  assumes "conn_run wc e c = Some c'" and "\<forall>self cmds. e \<noteq> Ev_established self cmds" and "\<forall>cmds. e \<noteq> Ev_destroyed cmds"
  shows "state_advance (cn_state c) (cn_state c') \<or> open_state c \<and> cn_state c' = kDisconnected"
  using assms
  by (cases e) (auto simp: handleError_def conn_log_error_def state_advance_def
      dest!: handleRead_state handleWrite_state handleClose_state run_app_state)

lemma removeChannel_at:
  assumes "removeChannel p ep = Some ep'" and "ep_heap ep p = Some c"
  shows "ep_heap ep' p = Some (setStatusInEpoll kNew c)"
  using assms by (auto simp: removeChannel_def put_channel_def Option.bind_eq_Some_conv Let_def)

lemma destroyed_channel:
  assumes "on_channel channel_remove c = Some c'"
  shows "\<exists>ch. ep_heap (cn_ep c') (cn_channel c') = Some ch \<and> \<not> ch_addedToLoop ch \<and> ch_statusInEpoll ch = kNew"
proof -
  let ?p = "cn_channel c"
  obtain ch ep where ch: "ep_heap (cn_ep c) ?p = Some ch" "c' = c\<lparr>cn_ep := ep\<rparr>"
    "removeChannel ?p (put_channel ?p (ch\<lparr>ch_addedToLoop := False\<rparr>) (cn_ep c)) = Some ep"
    using assms by (auto simp: on_channel_def channel_remove_def loop_removeChannel_def Option.bind_eq_Some_conv)
  have "ep_heap (put_channel ?p (ch\<lparr>ch_addedToLoop := False\<rparr>) (cn_ep c)) ?p = Some (ch\<lparr>ch_addedToLoop := False\<rparr>)"
    by (simp add: put_channel_def)
  from removeChannel_at [OF ch(3) this] ch(2) show ?thesis by (simp add: setStatusInEpoll_def)
qed

end
