(* ===== verification/EventLoop.thy ===== *)
theory EventLoop
  imports Prelude
begin

text \<open>
  \<^verbatim>\<open>mutlithread/multiThread/net/EventLoop.{h,cpp}\<close>: the loop's thread, the functors other
  threads queue for it and the eventfd that wakes it.

  A functor is a \<open>task\<close>: an identity and what its body asks of the loop. \<open>lp_wakeupFd\<close> is the
  counter of the eventfd. \<open>lp_queued\<close> and \<open>lp_done\<close> record what was pushed and what
  \<^verbatim>\<open>doPendingFunctors\<close> has called. The step relation \<open>loop_step\<close> interleaves the loop's thread
  with others: a call of \<^verbatim>\<open>queueInLoop\<close> or \<^verbatim>\<open>quit\<close> from another thread is two steps, the
  locked update and the write to the eventfd.
\<close>

datatype task = Task nat "act list"
  and act = Act_queue task | Act_run task | Act_quit

record event_loop =
  lp_looping :: bool
  lp_quit :: bool
  lp_callingPendingFunctors :: bool
  lp_threadId :: nat
  lp_pendingFunctors :: "task list"
  lp_wakeupFd :: nat
  lp_queued :: "task list"
  lp_done :: "task list"
  lp_log :: "nat list"

definition kEpollTimeMs :: nat where "kEpollTimeMs = 10000"

text \<open>The loop of each thread, \<^verbatim>\<open>t_loopInThisThread\<close>.\<close>

type_synonym thread_loops = "nat \<rightharpoonup> nat"

definition EventLoop_new :: "nat \<Rightarrow> nat \<Rightarrow> thread_loops \<Rightarrow> event_loop \<times> thread_loops" where
  "EventLoop_new this tid t_loop =
     (\<lparr>lp_looping = False, lp_quit = False, lp_callingPendingFunctors = False, lp_threadId = tid,
        lp_pendingFunctors = [], lp_wakeupFd = 0, lp_queued = [], lp_done = [], lp_log = []\<rparr>,
      if t_loop tid \<noteq> None then t_loop else t_loop(tid \<mapsto> this))"

definition EventLoop_delete :: "nat \<Rightarrow> event_loop \<Rightarrow> thread_loops \<Rightarrow> thread_loops option" where
  "EventLoop_delete tid lp t_loop = do { assertion (\<not> lp_looping lp); Some (t_loop(tid := None)) }"

definition getEventLoopOfCurrentThread :: "nat \<Rightarrow> thread_loops \<Rightarrow> nat option" where
  "getEventLoopOfCurrentThread tid t_loop = t_loop tid"

definition isInLoopThread :: "nat \<Rightarrow> event_loop \<Rightarrow> bool" where
  "isInLoopThread tid lp \<longleftrightarrow> lp_threadId lp = tid"

text \<open>A write adds one to the counter, a read takes all of it.\<close>

definition wakeup :: "event_loop \<Rightarrow> event_loop" where
  "wakeup lp = lp\<lparr>lp_wakeupFd := lp_wakeupFd lp + 1\<rparr>"

definition wakeup_handleRead :: "event_loop \<Rightarrow> event_loop" where
  "wakeup_handleRead lp = lp\<lparr>lp_wakeupFd := 0\<rparr>"

definition push_functor :: "task \<Rightarrow> event_loop \<Rightarrow> event_loop" where
  "push_functor cb lp = lp\<lparr>lp_pendingFunctors := lp_pendingFunctors lp @ [cb],
     lp_queued := lp_queued lp @ [cb]\<rparr>"

definition must_wake :: "nat \<Rightarrow> event_loop \<Rightarrow> bool" where
  "must_wake tid lp \<longleftrightarrow> \<not> isInLoopThread tid lp \<or> lp_callingPendingFunctors lp"

definition queueInLoop :: "nat \<Rightarrow> task \<Rightarrow> event_loop \<Rightarrow> event_loop" where
  "queueInLoop tid cb lp =
     (let lp' = push_functor cb lp in if must_wake tid lp' then wakeup lp' else lp')"

definition set_quit :: "event_loop \<Rightarrow> event_loop" where
  "set_quit lp = lp\<lparr>lp_quit := True\<rparr>"

definition quit :: "nat \<Rightarrow> event_loop \<Rightarrow> event_loop" where
  "quit tid lp = (let lp' = set_quit lp in if \<not> isInLoopThread tid lp' then wakeup lp' else lp')"

text \<open>Calling a functor in the loop's thread; \<open>Act_run\<close> is \<^verbatim>\<open>runInLoop\<close>, which calls its
  argument at once.\<close>

fun run_task :: "task \<Rightarrow> event_loop \<Rightarrow> event_loop"
and run_acts :: "act list \<Rightarrow> event_loop \<Rightarrow> event_loop" where
  "run_task (Task n acts) lp = run_acts acts (lp\<lparr>lp_log := lp_log lp @ [n]\<rparr>)"
| "run_acts [] lp = lp"
| "run_acts (Act_queue t # acts) lp = run_acts acts (queueInLoop (lp_threadId lp) t lp)"
| "run_acts (Act_run t # acts) lp = run_acts acts (run_task t lp)"
| "run_acts (Act_quit # acts) lp = run_acts acts (quit (lp_threadId lp) lp)"

definition runInLoop :: "nat \<Rightarrow> task \<Rightarrow> event_loop \<Rightarrow> event_loop" where
  "runInLoop tid cb lp = (if isInLoopThread tid lp then run_task cb lp else queueInLoop tid cb lp)"

definition call_functor :: "task \<Rightarrow> event_loop \<Rightarrow> event_loop" where
  "call_functor f lp = run_task f (lp\<lparr>lp_done := lp_done lp @ [f]\<rparr>)"

definition doPendingFunctors :: "event_loop \<Rightarrow> event_loop" where
  "doPendingFunctors lp =
     (let lp1 = lp\<lparr>lp_callingPendingFunctors := True\<rparr>;
          functors = lp_pendingFunctors lp1;
          lp2 = lp1\<lparr>lp_pendingFunctors := []\<rparr>;
          lp3 = fold call_functor functors lp2
      in lp3\<lparr>lp_callingPendingFunctors := False\<rparr>)"

text \<open>An active channel: the wakeup channel or any other, with what its handler does.\<close>

datatype active = Active_wakeup | Active_channel task

fun handle_active :: "active \<Rightarrow> event_loop \<Rightarrow> event_loop" where
  "handle_active Active_wakeup lp = wakeup_handleRead lp"
| "handle_active (Active_channel t) lp = run_task t lp"

text \<open>The loop without other threads: one list of active channels per return of \<^verbatim>\<open>poll\<close>, which is
  the fuel; \<open>None\<close> is a failed assertion.\<close>

fun loop_rounds :: "active list list \<Rightarrow> event_loop \<Rightarrow> event_loop" where
  "loop_rounds [] lp = lp"
| "loop_rounds (active # rest) lp =
     (if lp_quit lp then lp
      else loop_rounds rest (doPendingFunctors (fold handle_active active lp)))"

definition loop :: "active list list \<Rightarrow> event_loop \<Rightarrow> event_loop option" where
  "loop polls lp = do {
     assertion (\<not> lp_looping lp);
     let lp' = loop_rounds polls (lp\<lparr>lp_looping := True, lp_quit := False\<rparr>);
     Some (if lp_quit lp' then lp'\<lparr>lp_looping := False\<rparr> else lp') }"

subsection \<open>The loop among other threads\<close>

datatype phase = Start | Check | Polling | Handling "active list" | Taking | Calling "task list" | Stopped

text \<open>\<open>w\<close> counts the other threads that are between their update and their write to the eventfd. \<^verbatim>\<open>poll\<close>
  returns any channels; it reports the wakeup channel only when the counter is not 0, and
  \<open>can_block\<close> says when it has nothing to return for.\<close>

inductive loop_step :: "phase \<times> event_loop \<times> nat \<Rightarrow> phase \<times> event_loop \<times> nat \<Rightarrow> bool" where
  enter: "\<not> lp_looping lp \<Longrightarrow>
    loop_step (Start, lp, w) (Check, lp\<lparr>lp_looping := True, lp_quit := False\<rparr>, w)"
| again: "\<not> lp_quit lp \<Longrightarrow> loop_step (Check, lp, w) (Polling, lp, w)"
| leave: "lp_quit lp \<Longrightarrow> loop_step (Check, lp, w) (Stopped, lp\<lparr>lp_looping := False\<rparr>, w)"
| poll: "Active_wakeup \<in> set active \<Longrightarrow> 0 < lp_wakeupFd lp \<Longrightarrow>
    loop_step (Polling, lp, w) (Handling active, lp, w)"
| poll_other: "Active_wakeup \<notin> set active \<Longrightarrow> loop_step (Polling, lp, w) (Handling active, lp, w)"
| handle: "loop_step (Handling (a # as), lp, w) (Handling as, handle_active a lp, w)"
| handled: "loop_step (Handling [], lp, w) (Taking, lp\<lparr>lp_callingPendingFunctors := True\<rparr>, w)"
| take: "loop_step (Taking, lp, w) (Calling (lp_pendingFunctors lp), lp\<lparr>lp_pendingFunctors := []\<rparr>, w)"
| call: "loop_step (Calling (f # fs), lp, w) (Calling fs, call_functor f lp, w)"
| called: "loop_step (Calling [], lp, w) (Check, lp\<lparr>lp_callingPendingFunctors := False\<rparr>, w)"
| other_push: "loop_step (ph, lp, w) (ph, push_functor cb lp, Suc w)"
| other_quit: "loop_step (ph, lp, w) (ph, set_quit lp, Suc w)"
| other_wakeup: "loop_step (ph, lp, Suc w) (ph, wakeup lp, w)"

inductive_cases loop_stepE: "loop_step s s'"

definition loop_init :: "nat \<Rightarrow> phase \<times> event_loop \<times> nat" where
  "loop_init tid = (Start, fst (EventLoop_new 0 tid Map.empty), 0)"

definition can_block :: "phase \<times> event_loop \<times> nat \<Rightarrow> bool" where
  "can_block s \<longleftrightarrow> fst s = Polling \<and> lp_wakeupFd (fst (snd s)) = 0"

fun batch :: "phase \<Rightarrow> task list" where
  "batch (Calling fs) = fs"
| "batch _ = []"

text \<open>What code in the loop's thread may do to the loop.\<close>

definition grows :: "event_loop \<Rightarrow> event_loop \<Rightarrow> bool" where
  "grows lp lp' \<longleftrightarrow> lp_callingPendingFunctors lp' = lp_callingPendingFunctors lp \<and>
     lp_threadId lp' = lp_threadId lp \<and> lp_done lp' = lp_done lp \<and> lp_looping lp' = lp_looping lp \<and>
     lp_wakeupFd lp \<le> lp_wakeupFd lp' \<and> (lp_quit lp \<longrightarrow> lp_quit lp') \<and>
     (\<exists>ts. lp_pendingFunctors lp' = lp_pendingFunctors lp @ ts \<and> lp_queued lp' = lp_queued lp @ ts \<and>
        (ts \<noteq> [] \<longrightarrow> lp_callingPendingFunctors lp \<longrightarrow> 0 < lp_wakeupFd lp'))"

lemma grows_refl: "grows lp lp"
  by (simp add: grows_def)

lemma grows_trans:
  assumes 1: "grows a b" and 2: "grows b c" shows "grows a c"
proof -
  obtain ts where ts: "lp_pendingFunctors b = lp_pendingFunctors a @ ts" "lp_queued b = lp_queued a @ ts"
    "ts \<noteq> [] \<longrightarrow> lp_callingPendingFunctors a \<longrightarrow> 0 < lp_wakeupFd b" using 1 by (auto simp: grows_def)
  obtain us where us: "lp_pendingFunctors c = lp_pendingFunctors b @ us" "lp_queued c = lp_queued b @ us"
    "us \<noteq> [] \<longrightarrow> lp_callingPendingFunctors b \<longrightarrow> 0 < lp_wakeupFd c" using 2 by (auto simp: grows_def)
  have "lp_wakeupFd b \<le> lp_wakeupFd c" using 2 by (simp add: grows_def)
  then have "\<exists>ts. lp_pendingFunctors c = lp_pendingFunctors a @ ts \<and> lp_queued c = lp_queued a @ ts \<and>
      (ts \<noteq> [] \<longrightarrow> lp_callingPendingFunctors a \<longrightarrow> 0 < lp_wakeupFd c)"
    using ts us 1 by (intro exI [of _ "ts @ us"]) (auto simp: grows_def)
  then show ?thesis using 1 2 by (simp add: grows_def)
qed

lemma grows_queue: "grows lp (queueInLoop (lp_threadId lp) t lp)"
  by (simp add: grows_def queueInLoop_def push_functor_def wakeup_def must_wake_def isInLoopThread_def Let_def)

lemma grows_quit: "grows lp (quit (lp_threadId lp) lp)"
  by (simp add: grows_def quit_def set_quit_def isInLoopThread_def Let_def)

lemma grows_log: "grows lp (lp\<lparr>lp_log := l\<rparr>)"
  by (simp add: grows_def)

lemma run_grows: "grows lp (run_task t lp)" "grows lp (run_acts as lp)"
proof (induction t lp and as lp rule: run_task_run_acts.induct)
  case (1 n acts lp)
  show ?case unfolding run_task.simps by (rule grows_trans [OF grows_log 1])
next
  case (2 lp)
  show ?case unfolding run_acts.simps by (rule grows_refl)
next
  case (3 t acts lp)
  show ?case unfolding run_acts.simps by (rule grows_trans [OF grows_queue 3])
next
  case (4 t acts lp)
  show ?case unfolding run_acts.simps by (rule grows_trans [OF 4])
next
  case (5 acts lp)
  show ?case unfolding run_acts.simps by (rule grows_trans [OF grows_quit 5])
qed

lemmas run_keeps = run_grows [unfolded grows_def]

definition loop_ok :: "phase \<times> event_loop \<times> nat \<Rightarrow> bool" where
  "loop_ok s \<longleftrightarrow> (case s of (ph, lp, w) \<Rightarrow>
     lp_queued lp = lp_done lp @ batch ph @ lp_pendingFunctors lp \<and>
     lp_looping lp = (ph \<noteq> Start \<and> ph \<noteq> Stopped) \<and>
     lp_callingPendingFunctors lp = (ph = Taking \<or> (\<exists>fs. ph = Calling fs)) \<and>
     (lp_pendingFunctors lp \<noteq> [] \<longrightarrow> ph \<in> {Start, Check, Polling, Stopped} \<or> (\<exists>fs. ph = Calling fs) \<longrightarrow>
        0 < w \<or> 0 < lp_wakeupFd lp) \<and>
     (lp_quit lp \<longrightarrow> ph = Polling \<longrightarrow> 0 < w \<or> 0 < lp_wakeupFd lp))"

lemma loop_ok_init: "loop_ok (loop_init tid)"
  by (simp add: loop_ok_def loop_init_def EventLoop_new_def)

lemma loop_ok_step: "loop_step s s' \<Longrightarrow> loop_ok s \<Longrightarrow> loop_ok s'"
proof (induction s s' rule: loop_step.induct)
  case (handle a as lp w)
  show ?case
  proof (cases a)
    case Active_wakeup
    then show ?thesis using handle by (simp add: loop_ok_def wakeup_handleRead_def)
  next
    case (Active_channel t)
    then show ?thesis using handle run_keeps(1) [of t lp] by (auto simp: loop_ok_def)
  qed
next
  case (call f fs lp w)
  then show ?case using run_keeps(1) [of f "lp\<lparr>lp_done := lp_done lp @ [f]\<rparr>"]
    by (auto simp: loop_ok_def call_functor_def)
next
  case (other_push ph lp w cb)
  then show ?case by (cases ph) (auto simp: loop_ok_def push_functor_def)
qed (auto simp: loop_ok_def set_quit_def wakeup_def)

lemma loop_ok_reachable: "loop_step\<^sup>*\<^sup>* (loop_init tid) s \<Longrightarrow> loop_ok s"
  by (induction rule: rtranclp_induct) (auto intro: loop_ok_init loop_ok_step)



text \<open>C22: every queued functor is called exactly once and in the order of the pushes, whichever
  thread pushed it and whenever: at any moment the functors pushed so far are those called,
  followed by those of the round under way, followed by those still pending.\<close>

theorem functors_in_order:
  assumes "loop_step\<^sup>*\<^sup>* (loop_init tid) (ph, lp, w)"
  shows "lp_queued lp = lp_done lp @ batch ph @ lp_pendingFunctors lp"
  using loop_ok_reachable [OF assms] by (simp add: loop_ok_def)

theorem functors_in_order_witness:
  "\<exists>lp. loop_step\<^sup>*\<^sup>* (loop_init 1) (Start, lp, 2) \<and> lp_queued lp = lp_done lp @ [Task 3 [], Task 4 []]"
proof -
  let ?l0 = "fst (EventLoop_new 0 1 Map.empty)"
  let ?l1 = "push_functor (Task 3 []) ?l0" and ?l2 = "push_functor (Task 4 []) (push_functor (Task 3 []) ?l0)"
  have "loop_step (loop_init 1) (Start, ?l1, Suc 0)" unfolding loop_init_def by (rule loop_step.other_push)
  moreover have "loop_step (Start, ?l1, Suc 0) (Start, ?l2, Suc (Suc 0))" by (rule loop_step.other_push)
  ultimately have "loop_step\<^sup>*\<^sup>* (loop_init 1) (Start, ?l2, 2)"
    unfolding numeral_2_eq_2 by (meson converse_rtranclp_into_rtranclp rtranclp.rtrancl_refl)
  from functors_in_order [OF this] this show ?thesis by (auto simp: push_functor_def EventLoop_new_def)
qed

lemma fold_call:
  "lp_callingPendingFunctors lp \<Longrightarrow> \<exists>ts. lp_done (fold call_functor fs lp) = lp_done lp @ fs \<and>
    lp_pendingFunctors (fold call_functor fs lp) = lp_pendingFunctors lp @ ts \<and>
    lp_queued (fold call_functor fs lp) = lp_queued lp @ ts \<and>
    lp_wakeupFd lp \<le> lp_wakeupFd (fold call_functor fs lp) \<and>
    (ts \<noteq> [] \<longrightarrow> 0 < lp_wakeupFd (fold call_functor fs lp))"
proof (induction fs arbitrary: lp)
  case (Cons f fs)
  obtain us where us: "lp_pendingFunctors (call_functor f lp) = lp_pendingFunctors lp @ us"
    "lp_queued (call_functor f lp) = lp_queued lp @ us" "lp_done (call_functor f lp) = lp_done lp @ [f]"
    "lp_wakeupFd lp \<le> lp_wakeupFd (call_functor f lp)" "us \<noteq> [] \<longrightarrow> 0 < lp_wakeupFd (call_functor f lp)"
    "lp_callingPendingFunctors (call_functor f lp)"
    using run_keeps(1) [of f "lp\<lparr>lp_done := lp_done lp @ [f]\<rparr>"] Cons.prems
    by (auto simp: call_functor_def)
  obtain vs where "lp_done (fold call_functor fs (call_functor f lp)) = lp_done (call_functor f lp) @ fs"
    "lp_pendingFunctors (fold call_functor fs (call_functor f lp)) = lp_pendingFunctors (call_functor f lp) @ vs"
    "lp_queued (fold call_functor fs (call_functor f lp)) = lp_queued (call_functor f lp) @ vs"
    "lp_wakeupFd (call_functor f lp) \<le> lp_wakeupFd (fold call_functor fs (call_functor f lp))"
    "vs \<noteq> [] \<longrightarrow> 0 < lp_wakeupFd (fold call_functor fs (call_functor f lp))"
    using Cons.IH [OF us(6)] by blast
  then show ?case using us by (intro exI [of _ "us @ vs"]) auto
qed simp

text \<open>One round of pending functors calls exactly those pending when it starts, in order; what
  they queue is left for the next round, after them and in their order, and the loop is then
  woken for it. So a functor that queues itself again cannot keep the loop from its channels.\<close>

theorem doPendingFunctors_round:
  "\<exists>ts. lp_done (doPendingFunctors lp) = lp_done lp @ lp_pendingFunctors lp \<and>
    lp_pendingFunctors (doPendingFunctors lp) = ts \<and> lp_queued (doPendingFunctors lp) = lp_queued lp @ ts \<and>
    (ts = [] \<or> 0 < lp_wakeupFd (doPendingFunctors lp)) \<and> \<not> lp_callingPendingFunctors (doPendingFunctors lp)"
  using fold_call [of "lp\<lparr>lp_callingPendingFunctors := True, lp_pendingFunctors := []\<rparr>" "lp_pendingFunctors lp"]
  by (fastforce simp: doPendingFunctors_def Let_def)

end
