(* ===== verification/EventLoopThread.thy ===== *)
theory EventLoopThread
  imports ThreadPool EventLoop
begin

text \<open>
  \<^verbatim>\<open>mutlithread/multiThread/net/EventLoopThread.{h,cpp}\<close> and \<^verbatim>\<open>EventLoopThreadPool.{h,cpp}\<close>: a thread
  that runs an event loop on its stack, the handshake with which its creator learns the loop's
  address, and the pool that hands out loops in turn. A loop is its address.
\<close>

record loop_thread =
  lt_loop :: "nat option"
  lt_exiting :: bool
  lt_thread :: thread
  lt_callback :: bool
  lt_inits :: "nat list"
  lt_returned :: "nat option list"

definition EventLoopThread_new :: "bool \<Rightarrow> loop_thread" where
  "EventLoopThread_new cb = \<lparr>lt_loop = None, lt_exiting = False, lt_thread = Thread_new [],
     lt_callback = cb, lt_inits = [], lt_returned = []\<rparr>"

text \<open>\<^verbatim>\<open>startThread\<close> up to its critical section.\<close>

definition startThread :: "loop_thread \<Rightarrow> loop_thread option" where
  "startThread lt = do {
     assertion (\<not> thread_started (lt_thread lt));
     th \<leftarrow> thread_start (lt_thread lt);
     Some (lt\<lparr>lt_thread := th\<rparr>) }"

definition startThread_return :: "loop_thread \<Rightarrow> loop_thread" where
  "startThread_return lt = lt\<lparr>lt_returned := lt_returned lt @ [lt_loop lt]\<rparr>"

text \<open>\<^verbatim>\<open>threadFunction\<close> up to the loop, on the loop at \<open>l\<close>.\<close>

definition threadFunction :: "nat \<Rightarrow> loop_thread \<Rightarrow> loop_thread" where
  "threadFunction l lt =
     (let lt1 = (if lt_callback lt then lt\<lparr>lt_inits := lt_inits lt @ [l]\<rparr> else lt)
      in lt1\<lparr>lt_loop := Some l\<rparr>)"

datatype handshake_op = Await_loop | Publish_loop nat

definition handshake_prog :: "(handshake_op, unit, loop_thread) prog" where
  "handshake_prog = \<lparr>
     pr_waits = (\<lambda>op lt. case op of
         Await_loop \<Rightarrow> if lt_loop lt = None then Some () else None | Publish_loop l \<Rightarrow> None),
     pr_exec = (\<lambda>t op lt. case op of Await_loop \<Rightarrow> startThread_return lt | Publish_loop l \<Rightarrow> threadFunction l lt),
     pr_signal = (\<lambda>op lt. case op of Await_loop \<Rightarrow> None | Publish_loop l \<Rightarrow> Some (Notify ())),
     pr_may = (\<lambda>t op lt. case op of
         Await_loop \<Rightarrow> t = 0 | Publish_loop l \<Rightarrow> t = 1 \<and> lt_loop lt = None \<and> thread_started (lt_thread lt))\<rparr>"

text \<open>The loop to quit, whose thread is then joined.\<close>

definition EventLoopThread_delete :: "loop_thread \<Rightarrow> (nat option \<times> loop_thread) option" where
  "EventLoopThread_delete lt =
     (let lt1 = lt\<lparr>lt_exiting := True\<rparr>
      in case lt_loop lt1 of
           None \<Rightarrow> Some (None, lt1)
         | Some l \<Rightarrow> do { th \<leftarrow> thread_join (lt_thread lt1); Some (Some l, lt1\<lparr>lt_thread := th\<rparr>) })"

interpretation handshake: broadcast_monitor handshake_prog "()" "\<lambda>lt. lt_loop lt = None" "Some 0"
  by unfold_locales
    (auto simp: handshake_prog_def threadFunction_def startThread_return_def Let_def
      split: handshake_op.splits if_splits)

interpretation handshake_data: monitor_inv handshake_prog d "\<lambda>lt. lt_returned d = [] \<longrightarrow> None \<notin> set (lt_returned lt)"
  by unfold_locales
    (auto simp: handshake_prog_def threadFunction_def startThread_return_def Let_def
      split: handshake_op.splits if_splits)


lemma handshake_start: "startThread (EventLoopThread_new True) =
    Some ((EventLoopThread_new True)\<lparr>lt_thread := (Thread_new [])\<lparr>th_started := True\<rparr>\<rparr>)"
  by (simp add: startThread_def EventLoopThread_new_def thread_start_def thread_started_def Thread_new_def)

lemma handshake_run:
  "\<exists>s. mon_run 2 handshake_prog [(0, Some Await_loop), (0, None), (0, None), (1, Some (Publish_loop 42)),
      (1, None), (1, None), (1, None), (0, None), (0, None)]
      (mon_new ((EventLoopThread_new True)\<lparr>lt_thread := (Thread_new [])\<lparr>th_started := True\<rparr>\<rparr>)) = Some s \<and>
    lt_returned (mn_data s) = [Some 42] \<and> lt_inits (mn_data s) = [42]"
  by (simp add: handshake_prog_def EventLoopThread_new_def threadFunction_def startThread_return_def
      thread_started_def Thread_new_def mon_new_def MutexLock_new_def mutex_lock_def wait_release_def
      wait_reacquire_def mutex_unlock_def upt_rec)


text \<open>A request to quit that comes before the loop has begun is lost. loop() clears the flag it
  sets, so the loop runs as if nobody had asked, woken up once at most; the destructor of the thread, which
  asks and then joins, waits for ever when it comes in between.\<close>

theorem early_quit_lost:
  "loop polls (quit tid lp) = loop polls (if isInLoopThread tid lp then lp else wakeup lp)"
  by (simp add: quit_def loop_def set_quit_def isInLoopThread_def wakeup_def Let_def)

subsection \<open>EventLoopThreadPool\<close>

record loop_pool =
  po_baseLoop :: nat
  po_started :: bool
  po_numThreads :: nat
  po_next :: nat
  po_loops :: "nat list"
  po_inits :: "nat list"

definition EventLoopThreadPool_new :: "nat \<Rightarrow> loop_pool" where
  "EventLoopThreadPool_new base = \<lparr>po_baseLoop = base, po_started = False, po_numThreads = 0, po_next = 0,
     po_loops = [], po_inits = []\<rparr>"

definition setThreadNum :: "int \<Rightarrow> loop_pool \<Rightarrow> loop_pool option" where
  "setThreadNum n po = do { assertion (n \<ge> 0); Some (po\<lparr>po_numThreads := nat n\<rparr>) }"

text \<open>\<open>thread_loop i\<close> is what \<^verbatim>\<open>startThread\<close> of the \<open>i\<close>-th thread returns; \<open>po_inits\<close> lists the
  loops the callback is called with.\<close>

fun start_threads :: "(nat \<Rightarrow> nat) \<Rightarrow> bool \<Rightarrow> nat list \<Rightarrow> loop_pool \<Rightarrow> loop_pool" where
  "start_threads thread_loop cb [] po = po"
| "start_threads thread_loop cb (i # is) po =
     start_threads thread_loop cb is (po\<lparr>po_loops := po_loops po @ [thread_loop i],
       po_inits := (if cb then po_inits po @ [thread_loop i] else po_inits po)\<rparr>)"

definition loop_pool_start :: "(nat \<Rightarrow> nat) \<Rightarrow> bool \<Rightarrow> loop_pool \<Rightarrow> loop_pool option" where
  "loop_pool_start thread_loop cb po = do {
     assertion (\<not> po_started po);
     let po1 = start_threads thread_loop cb [0..<po_numThreads po] (po\<lparr>po_started := True\<rparr>);
     Some (if po_numThreads po1 = 0 \<and> cb then po1\<lparr>po_inits := po_inits po1 @ [po_baseLoop po1]\<rparr> else po1) }"

definition getNextLoop :: "loop_pool \<Rightarrow> (nat \<times> loop_pool) option" where
  "getNextLoop po =
     (if po_loops po \<noteq> []
      then do {
        assertion (po_next po < length (po_loops po));
        let loop = po_loops po ! po_next po;
        let next = po_next po + 1;
        Some (loop, po\<lparr>po_next := (if next \<ge> length (po_loops po) then 0 else next)\<rparr>) }
      else Some (po_baseLoop po, po))"

fun next_loops :: "nat \<Rightarrow> loop_pool \<Rightarrow> nat list option" where
  "next_loops 0 po = Some []"
| "next_loops (Suc k) po = do { (l, po') \<leftarrow> getNextLoop po; ls \<leftarrow> next_loops k po'; Some (l # ls) }"

lemma start_threads_loops:
  "po_loops (start_threads f cb is po) = po_loops po @ map f is \<and>
   po_next (start_threads f cb is po) = po_next po \<and> po_baseLoop (start_threads f cb is po) = po_baseLoop po \<and>
   po_numThreads (start_threads f cb is po) = po_numThreads po \<and>
   po_inits (start_threads f cb is po) = po_inits po @ (if cb then map f is else [])"
  by (induction "is" arbitrary: po) auto

lemma next_loops_rotate:
  assumes n: "n = length (po_loops po)" and "j < n"
  shows "next_loops k (po\<lparr>po_next := j\<rparr>) = Some (map (\<lambda>i. po_loops po ! ((j + i) mod n)) [0..<k])"
  using assms(2)
proof (induction k arbitrary: j)
  case (Suc k)
  have j: "(j + 1) mod n = (if j + 1 \<ge> n then 0 else j + 1)" using Suc.prems by (auto simp: le_Suc_eq)
  have "getNextLoop (po\<lparr>po_next := j\<rparr>) = Some (po_loops po ! j, po\<lparr>po_next := (j + 1) mod n\<rparr>)"
    unfolding j using Suc.prems n by (auto simp: getNextLoop_def Let_def)
  moreover have "next_loops k (po\<lparr>po_next := (j + 1) mod n\<rparr>) =
      Some (map (\<lambda>i. po_loops po ! (((j + 1) mod n + i) mod n)) [0..<k])"
    by (rule Suc.IH) (use Suc.prems in simp)
  moreover have "map (\<lambda>i. po_loops po ! ((j + i) mod n)) [0..<Suc k] =
      po_loops po ! j # map (\<lambda>i. po_loops po ! (((j + 1) mod n + i) mod n)) [0..<k]"
    using Suc.prems by (simp add: upt_conv_Cons map_Suc_upt [symmetric] mod_add_left_eq del: upt_Suc)
  ultimately show ?case by simp
qed simp

text \<open>The pool hands out its loops in turn. After it has been started with n threads, the i-th call
  of getNextLoop returns the loop of thread i modulo n, and the base loop if there are none; the
  callback has been called with every loop once.\<close>

theorem loop_pool_round_robin:
  assumes "setThreadNum n (EventLoopThreadPool_new base) = Some po" and "loop_pool_start f cb po = Some po'"
  shows "next_loops k po' = Some (map (\<lambda>i. if n = 0 then base else f (i mod nat n)) [0..<k]) \<and>
    po_inits po' = (if cb then if n = 0 then [base] else map f [0..<nat n] else [])"
proof -
  have n: "0 \<le> n" "po = (EventLoopThreadPool_new base)\<lparr>po_numThreads := nat n\<rparr>"
    using assms(1) by (auto simp: setThreadNum_def Option.bind_eq_Some_conv)
  note st = start_threads_loops [of f cb "[0..<nat n]" "po\<lparr>po_started := True\<rparr>"]
  have po': "po_loops po' = map f [0..<nat n]" "po_next po' = 0" "po_baseLoop po' = base"
    "po_inits po' = (if cb then if n = 0 then [base] else map f [0..<nat n] else [])"
    using assms(2) n st by (auto simp: loop_pool_start_def EventLoopThreadPool_new_def Let_def split: if_splits)
  have "next_loops k po' = Some (replicate k base)" if "n = 0"
  proof -
    have "getNextLoop po' = Some (base, po')" using po' that by (simp add: getNextLoop_def)
    then show ?thesis by (induction k) auto
  qed
  moreover have "next_loops k po' = Some (map (\<lambda>i. f (i mod nat n)) [0..<k])" if "n \<noteq> 0"
  proof -
    have "po'\<lparr>po_next := 0\<rparr> = po'" using po'(2) by simp
    then show ?thesis using next_loops_rotate [of "nat n" po' 0 k] po'(1) n(1) that by simp
  qed
  ultimately show ?thesis using po'(4) by (cases "n = 0") (simp_all add: map_replicate_const)
qed

theorem loop_pool_round_robin_witness:
  "\<exists>po po'. setThreadNum 3 (EventLoopThreadPool_new 9) = Some po \<and> loop_pool_start (\<lambda>i. 10 + i) True po = Some po' \<and>
    next_loops 5 po' = Some [10, 11, 12, 10, 11] \<and> po_inits po' = [10, 11, 12]"
proof -
  let ?po = "(EventLoopThreadPool_new 9)\<lparr>po_numThreads := 3\<rparr>"
  have po: "setThreadNum 3 (EventLoopThreadPool_new 9) = Some ?po" by (simp add: setThreadNum_def)
  obtain po' where po': "loop_pool_start (\<lambda>i. 10 + i) True ?po = Some po'"
    by (simp add: loop_pool_start_def EventLoopThreadPool_new_def Let_def)
  from loop_pool_round_robin [OF po po', of 5] show ?thesis using po po' by (auto simp: upt_rec)
qed

end
