(* ===== verification/TcpServer.thy ===== *)
theory TcpServer
  imports Conn_Frame EventLoopThread HttpResponse
begin

text \<open>
  \<^verbatim>\<open>mutlithread/multiThread/net/Acceptor.{h,cpp}\<close> and \<^verbatim>\<open>TcpServer.{h,cpp}\<close>: the listening socket, the
  map of connections, and the hand-over of connections between the accepting loop and their own loops.

  \<open>server\<close> is the process as the server sees it: the connections by address, the poller of each loop and
  the functors queued for it. A connection keeps no poller of its own here; \<open>with_conn\<close> runs one of
  its operations on the poller of its loop. What the user's callbacks do is \<open>cmds\<close>.
\<close>

subsection \<open>Acceptor\<close>

record acceptor =
  ac_socket :: socket
  ac_channel :: nat
  ac_isListening :: bool

definition Acceptor_new :: "nat \<Rightarrow> int \<Rightarrow> epoll \<Rightarrow> os \<Rightarrow> acceptor \<times> epoll \<times> os" where
  "Acceptor_new p fd ep os =
     (\<lparr>ac_socket = Socket_new fd, ac_channel = p, ac_isListening = False\<rparr>,
      put_channel p (setReadCallback (Channel_new (ep_owner ep) fd)) ep,
      setReuseAddr True (Socket_new fd) os)"

definition Acceptor_delete :: "acceptor \<Rightarrow> epoll \<Rightarrow> epoll option" where
  "Acceptor_delete ac ep = do { ep1 \<leftarrow> disableAll (ac_channel ac) ep; channel_remove (ac_channel ac) ep1 }"

definition acceptor_isListening :: "acceptor \<Rightarrow> bool" where
  "acceptor_isListening ac = ac_isListening ac"

definition acceptor_listen :: "acceptor \<Rightarrow> epoll \<Rightarrow> os \<Rightarrow> (acceptor \<times> epoll \<times> os) option" where
  "acceptor_listen ac ep os = do {
     let ac1 = ac\<lparr>ac_isListening := True\<rparr>;
     let os1 = socket_listen (ac_socket ac1) os;
     ep1 \<leftarrow> enableReading (ac_channel ac1) ep;
     Some (ac1, ep1, os1) }"

text \<open>\<open>answers\<close> are the kernel's answers to \<^verbatim>\<open>accept4\<close>, the last of them repeated no more: after them the
  queue is empty. The result lists the descriptors closed for want of a callback.\<close>

fun hadleRead :: "((int \<times> sockaddr_in) + int) list \<Rightarrow> sockaddr_in \<Rightarrow>
    (int \<Rightarrow> sockaddr_in \<Rightarrow> 'w \<Rightarrow> 'w option) option \<Rightarrow> 'w \<Rightarrow> (int list \<times> 'w) option" where
  "hadleRead [] peerAddress cb w = Some ([], w)"
| "hadleRead (answer # answers) peerAddress cb w =
     (let (fd, peer, log) = socket_accept answer peerAddress
      in if fd = 0 then Some ([], w)
         else if fd < 0 then Some ([], w)
         else case cb of
             Some f \<Rightarrow> do { w' \<leftarrow> f fd peer w; hadleRead answers peer cb w' }
           | None \<Rightarrow> do { (closed, w') \<leftarrow> hadleRead answers peer cb w; Some (fd # closed, w') })"

text \<open>The connections a round should hand over: those accepted before the first refusal.\<close>

fun accepted :: "((int \<times> sockaddr_in) + int) list \<Rightarrow> (int \<times> sockaddr_in) list" where
  "accepted (Inl (fd, a) # answers) = (if 0 < fd then (fd, a) # accepted answers else [])"
| "accepted _ = []"

fun for_each :: "('a \<Rightarrow> 'w \<Rightarrow> 'w option) \<Rightarrow> 'a list \<Rightarrow> 'w \<Rightarrow> 'w option" where
  "for_each f [] w = Some w"
| "for_each f (x # xs) w = do { w' \<leftarrow> f x w; for_each f xs w' }"

text \<open>The acceptor hands over every connection the kernel has ready, once, in order and with its own
  peer's address, until accept fails, and closes those nobody wants. A connection on descriptor 0,
  which the loop takes for the end, is dropped with its descriptor left open.\<close>

theorem acceptor_hands_over:
  "hadleRead answers peer (Some f) w = map_option (Pair []) (for_each (\<lambda>(fd, a). f fd a) (accepted answers) w) \<and>
   hadleRead answers peer None w = Some (map fst (accepted answers), w)"
proof (induction answers arbitrary: peer w)
  case (Cons answer answers)
  show ?case
  proof (cases answer)
    case (Inl x)
    obtain fd a where "x = (fd, a)" by (cases x)
    then show ?thesis using Cons Inl
      by (cases "f fd a w") (auto simp: socket_accept_def setSockAddrInternet_def)
  qed (simp add: socket_accept_def)
qed simp

subsection \<open>TcpServer\<close>

datatype server_task = Sv_established nat | Sv_removeConnectionInLoop nat | Sv_destroyed nat

record 'c server =
  sv_name :: string
  sv_loop :: nat
  sv_pool :: loop_pool
  sv_started :: "32 word"
  sv_nextConnectionId :: nat
  sv_connectionMap :: "string \<rightharpoonup> nat"
  sv_conns :: "nat \<rightharpoonup> nat \<times> 'c connection"
  sv_eps :: "nat \<Rightarrow> epoll"
  sv_tasks :: "nat \<Rightarrow> server_task list"
  sv_os :: os

definition TcpServer_new :: "string \<Rightarrow> nat \<Rightarrow> 'c server" where
  "TcpServer_new name base = \<lparr>sv_name = name, sv_loop = base, sv_pool = EventLoopThreadPool_new base,
     sv_started = atomic_new, sv_nextConnectionId = 1, sv_connectionMap = Map.empty, sv_conns = Map.empty,
     sv_eps = Epoll_new, sv_tasks = (\<lambda>l. []), sv_os = \<lparr>os_closed = [], os_options = [], os_listening = []\<rparr>\<rparr>"

definition setThreadNumber :: "int \<Rightarrow> 'c server \<Rightarrow> 'c server option" where
  "setThreadNumber threadNumber sv = do {
     assertion (threadNumber \<ge> 0);
     po \<leftarrow> setThreadNum threadNumber (sv_pool sv);
     Some (sv\<lparr>sv_pool := po\<rparr>) }"

text \<open>Whether this call is the one that starts the server, and so has the acceptor listen.\<close>

definition server_start :: "(nat \<Rightarrow> nat) \<Rightarrow> bool \<Rightarrow> 'c server \<Rightarrow> (bool \<times> 'c server) option" where
  "server_start thread_loop cb sv =
     (let (old, new) = getAndSet 1 (sv_started sv); sv1 = sv\<lparr>sv_started := new\<rparr>
      in if old = 0
         then do { po \<leftarrow> loop_pool_start thread_loop cb (sv_pool sv1); Some (True, sv1\<lparr>sv_pool := po\<rparr>) }
         else Some (False, sv1))"

definition with_conn :: "nat \<Rightarrow> ('c connection \<Rightarrow> 'c connection option) \<Rightarrow> 'c server \<Rightarrow> 'c server option" where
  "with_conn p f sv = do {
     (l, c) \<leftarrow> sv_conns sv p;
     c' \<leftarrow> f (c\<lparr>cn_ep := sv_eps sv l\<rparr>);
     Some (sv\<lparr>sv_conns := (sv_conns sv)(p \<mapsto> (l, c')), sv_eps := (sv_eps sv)(l := cn_ep c')\<rparr>) }"

definition sv_queueInLoop :: "nat \<Rightarrow> server_task \<Rightarrow> 'c server \<Rightarrow> 'c server" where
  "sv_queueInLoop l t sv = sv\<lparr>sv_tasks := (sv_tasks sv)(l := sv_tasks sv l @ [t])\<rparr>"

definition removeConnectionInLoop :: "nat \<Rightarrow> 'c server \<Rightarrow> 'c server option" where
  "removeConnectionInLoop p sv = do {
     (ioLoop, c) \<leftarrow> sv_conns sv p;
     assertion (cn_name c \<in> dom (sv_connectionMap sv));
     let sv1 = sv\<lparr>sv_connectionMap := (sv_connectionMap sv)(cn_name c := None)\<rparr>;
     Some (sv_queueInLoop ioLoop (Sv_destroyed p) sv1) }"

text \<open>The functor that destroys a connection holds the last pointer to it: after it the connection, its
  channel and its socket go.\<close>

definition release :: "nat \<Rightarrow> 'c server \<Rightarrow> 'c server option" where
  "release p sv = do {
     (l, c) \<leftarrow> sv_conns sv p;
     TcpConnection_delete c;
     ch \<leftarrow> ep_heap (sv_eps sv l) p;
     ep \<leftarrow> delete_channel p (sv_eps sv l);
     Some (sv\<lparr>sv_conns := (sv_conns sv)(p := None), sv_eps := (sv_eps sv)(l := ep),
       sv_os := Socket_delete (Socket_new (ch_fd ch)) (sv_os sv)\<rparr>) }"

definition run_server_task :: "'c conn_callbacks \<Rightarrow> server_task \<Rightarrow> 'c server \<Rightarrow> 'c server option" where
  "run_server_task cbs t sv = (case t of
     Sv_established p \<Rightarrow> with_conn p (connectionEstablished cbs p) sv
   | Sv_removeConnectionInLoop p \<Rightarrow> removeConnectionInLoop p sv
   | Sv_destroyed p \<Rightarrow> do { sv1 \<leftarrow> with_conn p (connectionDestroyed cbs) sv; release p sv1 })"

definition sv_runInLoop :: "'c conn_callbacks \<Rightarrow> nat \<Rightarrow> nat \<Rightarrow> server_task \<Rightarrow> 'c server \<Rightarrow> 'c server option" where
  "sv_runInLoop cbs current l t sv =
     (if current = l then run_server_task cbs t sv else Some (sv_queueInLoop l t sv))"

text \<open>In the accepting loop. \<open>p\<close> is the address of the new connection, \<open>sockname\<close> the kernel's answer.\<close>

definition newConnection :: "'c conn_callbacks \<Rightarrow> nat \<Rightarrow> sockaddr_in option \<Rightarrow> int \<Rightarrow> sockaddr_in
    \<Rightarrow> 'c server \<Rightarrow> 'c server option" where
  "newConnection cbs p sockname fd peerAddress sv = do {
     let buf = snprintf 32 (''#'' @ dec (sv_nextConnectionId sv));
     let sv1 = sv\<lparr>sv_nextConnectionId := sv_nextConnectionId sv + 1\<rparr>;
     let connectionName = sv_name sv1 @ buf;
     let localAddress = getLocalAddress sockname;
     (ioLoop, pool) \<leftarrow> getNextLoop (sv_pool sv1);
     let connection = TcpConnection_new connectionName p fd localAddress peerAddress (sv_eps sv1 ioLoop);
     let sv2 = sv1\<lparr>sv_pool := pool, sv_conns := (sv_conns sv1)(p \<mapsto> (ioLoop, connection)),
       sv_eps := (sv_eps sv1)(ioLoop := cn_ep connection),
       sv_connectionMap := (sv_connectionMap sv1)(connectionName \<mapsto> p),
       sv_os := setTcpNoDelay True (Socket_new fd) (sv_os sv1)\<rparr>;
     sv_runInLoop cbs (sv_loop sv2) ioLoop (Sv_established p) sv2 }"

text \<open>Called by a connection in its own loop, as its close callback.\<close>

definition removeConnection :: "'c conn_callbacks \<Rightarrow> nat \<Rightarrow> nat \<Rightarrow> 'c server \<Rightarrow> 'c server option" where
  "removeConnection cbs current p sv = sv_runInLoop cbs current (sv_loop sv) (Sv_removeConnectionInLoop p) sv"

text \<open>\<open>names\<close> are the keys of the map in its order. Every connection is told to its loop as a bare
  pointer; then the map goes, and with it the connections.\<close>

definition destroy_all :: "'c conn_callbacks \<Rightarrow> string list \<Rightarrow> 'c server \<Rightarrow> 'c server option" where
  "destroy_all cbs names = for_each (\<lambda>name sv. do {
     p \<leftarrow> sv_connectionMap sv name;
     (l, c) \<leftarrow> sv_conns sv p;
     if sv_loop sv = l then with_conn p (connectionDestroyed cbs) sv
     else Some (sv_queueInLoop l (Sv_destroyed p) sv) }) names"

definition free_all :: "string list \<Rightarrow> 'c server \<Rightarrow> 'c server option" where
  "free_all names = for_each (\<lambda>name sv. do { p \<leftarrow> sv_connectionMap sv name; release p sv }) names"

definition TcpServer_delete :: "'c conn_callbacks \<Rightarrow> string list \<Rightarrow> 'c server \<Rightarrow> 'c server option" where
  "TcpServer_delete cbs names sv = do { sv1 \<leftarrow> destroy_all cbs names sv; free_all names sv1 }"

subsection \<open>Steps of the server\<close>

text \<open>The accepting loop takes a connection; a loop runs its next functor; something happens to a
  connection, in its loop, and if that has closed it the close callback has been called.\<close>

datatype server_event = Sv_accept nat int sockaddr_in "sockaddr_in option" | Sv_run nat | Sv_conn nat conn_event

definition conn_event_step :: "bool \<Rightarrow> app_cmd list \<Rightarrow> nat \<Rightarrow> conn_event \<Rightarrow> 'c server \<Rightarrow> 'c server option" where
  "conn_event_step wc cmds p e sv = do {
     (l, c) \<leftarrow> sv_conns sv p;
     sv1 \<leftarrow> with_conn p (conn_run wc e) sv;
     (l', c') \<leftarrow> sv_conns sv1 p;
     if cn_state c \<noteq> kDisconnected \<and> cn_state c' = kDisconnected
     then removeConnection (app_cbs wc cmds) l p sv1 else Some sv1 }"

fun server_step :: "bool \<Rightarrow> app_cmd list \<Rightarrow> server_event \<Rightarrow> 'c server \<Rightarrow> 'c server option" where
  "server_step wc cmds (Sv_accept p fd peer sockname) sv = newConnection (app_cbs wc cmds) p sockname fd peer sv"
| "server_step wc cmds (Sv_run l) sv = (case sv_tasks sv l of
     [] \<Rightarrow> Some sv
   | t # ts \<Rightarrow> run_server_task (app_cbs wc cmds) t (sv\<lparr>sv_tasks := (sv_tasks sv)(l := ts)\<rparr>))"
| "server_step wc cmds (Sv_conn p e) sv = conn_event_step wc cmds p e sv"

subsection \<open>The invariant\<close>

definition pool_ok :: "loop_pool \<Rightarrow> bool" where
  "pool_ok po \<longleftrightarrow> po_loops po = [] \<or> po_next po < length (po_loops po)"

definition conn_name :: "'c server \<Rightarrow> nat \<Rightarrow> string" where
  "conn_name sv k = sv_name sv @ ''#'' @ dec k"

definition eps_ok :: "'c server \<Rightarrow> bool" where
  "eps_ok sv \<longleftrightarrow> (\<forall>l. epoll_inv (sv_eps sv l) \<and> (\<forall>q ch. ep_heap (sv_eps sv l) q = Some ch \<longrightarrow> \<not> ch_eventHandling ch))"

definition conns_ok :: "'c server \<Rightarrow> bool" where
  "conns_ok sv \<longleftrightarrow> (\<forall>p l c. sv_conns sv p = Some (l, c) \<longrightarrow> cn_channel c = p \<and> conn_inv (c\<lparr>cn_ep := sv_eps sv l\<rparr>))"

definition name_of :: "'c server \<Rightarrow> nat \<Rightarrow> string option" where
  "name_of sv p = map_option (\<lambda>(l, c). cn_name c) (sv_conns sv p)"

definition names_ok :: "'c server \<Rightarrow> bool" where
  "names_ok sv \<longleftrightarrow> (\<forall>p n. name_of sv p = Some n \<longrightarrow> (\<exists>k < sv_nextConnectionId sv. n = conn_name sv k)) \<and>
     (\<forall>p q n. name_of sv p = Some n \<longrightarrow> name_of sv q = Some n \<longrightarrow> p = q) \<and>
     (\<forall>n p. sv_connectionMap sv n = Some p \<longrightarrow> name_of sv p = Some n)"

text \<open>How often a functor should be queued for a loop.\<close>

fun expected :: "'c server \<Rightarrow> nat \<Rightarrow> server_task \<Rightarrow> nat" where
  "expected sv m (Sv_established p) = (case sv_conns sv p of None \<Rightarrow> 0
     | Some (l, c) \<Rightarrow> of_bool (m = l \<and> cn_state c = kConnecting))"
| "expected sv m (Sv_removeConnectionInLoop p) = (case sv_conns sv p of None \<Rightarrow> 0
     | Some (l, c) \<Rightarrow> of_bool (m = sv_loop sv \<and> cn_state c = kDisconnected \<and> sv_connectionMap sv (cn_name c) = Some p))"
| "expected sv m (Sv_destroyed p) = (case sv_conns sv p of None \<Rightarrow> 0
     | Some (l, c) \<Rightarrow> of_bool (m = l \<and> cn_state c = kDisconnected \<and> sv_connectionMap sv (cn_name c) \<noteq> Some p))"

definition tasks_ok :: "'c server \<Rightarrow> bool" where
  "tasks_ok sv \<longleftrightarrow> (\<forall>m t. count_list (sv_tasks sv m) t = expected sv m t) \<and>
     (\<forall>p l c. sv_conns sv p = Some (l, c) \<longrightarrow> cn_state c \<noteq> kDisconnected \<longrightarrow> sv_connectionMap sv (cn_name c) = Some p)"

definition server_inv :: "'c server \<Rightarrow> bool" where
  "server_inv sv \<longleftrightarrow> pool_ok (sv_pool sv) \<and> eps_ok sv \<and> conns_ok sv \<and> names_ok sv \<and> tasks_ok sv"

text \<open>The kernel gives a new connection a descriptor no live channel has, the allocator a new address,
  and fewer than \<open>2 ^ 31\<close> connections have been counted; the poller reports only what it watches.\<close>

fun server_event_ok :: "server_event \<Rightarrow> 'c server \<Rightarrow> bool" where
  "server_event_ok (Sv_accept p fd peer sockname) sv \<longleftrightarrow> sv_conns sv p = None \<and>
     sv_nextConnectionId sv < 2 ^ 31 \<and>
     (\<forall>l. ep_heap (sv_eps sv l) p = None \<and> (\<forall>q ch. ep_heap (sv_eps sv l) q = Some ch \<longrightarrow> ch_fd ch \<noteq> fd))"
| "server_event_ok (Sv_run l) sv \<longleftrightarrow> True"
| "server_event_ok (Sv_conn p e) sv \<longleftrightarrow> (\<exists>l c. sv_conns sv p = Some (l, c) \<and> conn_event_ok e c \<and>
     (\<forall>self cmds. e \<noteq> Ev_established self cmds) \<and> (\<forall>cmds. e \<noteq> Ev_destroyed cmds))"

subsection \<open>One connection among others\<close>

lemma conn_inv_other:
  assumes "conn_inv (d\<lparr>cn_ep := ep\<rparr>)" and "epoll_inv ep'" and "ep_heap ep' (cn_channel d) = ep_heap ep (cn_channel d)"
  shows "conn_inv (d\<lparr>cn_ep := ep'\<rparr>)"
  using assms by (auto simp: conn_inv_def conn_ok_def open_state_def conn_isWriting_def conn_channel_def unsent_def)

lemma conn_inv_ep: "conn_inv c \<Longrightarrow> epoll_inv (cn_ep c)" "conn_inv c \<Longrightarrow> cn_channel c \<in> dom (ep_heap (cn_ep c))"
  by (auto simp: conn_inv_def conn_ok_def)

definition put_conn :: "nat \<Rightarrow> nat \<Rightarrow> 'c connection \<Rightarrow> 'c server \<Rightarrow> 'c server" where
  "put_conn p l c sv = sv\<lparr>sv_conns := (sv_conns sv)(p \<mapsto> (l, c)), sv_eps := (sv_eps sv)(l := cn_ep c)\<rparr>"

lemma put_conn_simps [simp]:
  "sv_conns (put_conn p l c sv) = (sv_conns sv)(p \<mapsto> (l, c))" "sv_pool (put_conn p l c sv) = sv_pool sv"
  "sv_connectionMap (put_conn p l c sv) = sv_connectionMap sv" "sv_tasks (put_conn p l c sv) = sv_tasks sv"
  "sv_loop (put_conn p l c sv) = sv_loop sv" "sv_eps (put_conn p l c sv) = (sv_eps sv)(l := cn_ep c)"
  "sv_nextConnectionId (put_conn p l c sv) = sv_nextConnectionId sv" "sv_name (put_conn p l c sv) = sv_name sv"
  by (simp_all add: put_conn_def)

lemma with_conn_put:
  assumes "sv_conns sv p = Some (l, c)" and "f (c\<lparr>cn_ep := sv_eps sv l\<rparr>) = Some c'"
  shows "with_conn p f sv = Some (put_conn p l c' sv)"
  using assms by (simp add: with_conn_def put_conn_def)

lemma put_conn_core:
  assumes "eps_ok sv" and "conns_ok sv" and "names_ok sv" and c: "sv_conns sv p = Some (l, c)"
    and fr: "conn_frame (c\<lparr>cn_ep := sv_eps sv l\<rparr>) c'" and inv: "conn_inv c'"
  shows "eps_ok (put_conn p l c' sv) \<and> conns_ok (put_conn p l c' sv) \<and> names_ok (put_conn p l c' sv)"
proof (intro conjI)
  have ch: "cn_channel c = p" and ci: "conn_inv (c\<lparr>cn_ep := sv_eps sv l\<rparr>)" using assms(2) c by (auto simp: conns_ok_def)
  have fr': "cn_channel c' = p" "cn_name c' = cn_name c" "ep_frame p (sv_eps sv l) (cn_ep c')"
    using fr ch by (auto simp: conn_frame_def)
  have old: "ep_heap (sv_eps sv l) p \<noteq> None" using conn_inv_ep(2) [OF ci] ch by auto
  have "\<not> ch_eventHandling d" if d: "ep_heap (cn_ep c') q = Some d" for q d
  proof (cases "q = p")
    case True
    then show ?thesis using d old fr'(3) assms(1) unfolding ep_frame_def eps_ok_def by (metis not_None_eq option.inject)
  next
    case False
    then show ?thesis using d fr'(3) assms(1) unfolding ep_frame_def eps_ok_def by metis
  qed
  then show "eps_ok (put_conn p l c' sv)"
    using assms(1) conn_inv_ep(1) [OF inv] by (simp add: eps_ok_def)
  show "conns_ok (put_conn p l c' sv)"
    unfolding conns_ok_def
  proof (intro allI impI)
    fix q m d assume d: "sv_conns (put_conn p l c' sv) q = Some (m, d)"
    show "cn_channel d = q \<and> conn_inv (d\<lparr>cn_ep := sv_eps (put_conn p l c' sv) m\<rparr>)"
    proof (cases "q = p")
      case True
      then show ?thesis using d fr'(1) inv by auto
    next
      case False
      then have q: "cn_channel d = q" "conn_inv (d\<lparr>cn_ep := sv_eps sv m\<rparr>)" using d assms(2) by (auto simp: conns_ok_def)
      have "conn_inv (d\<lparr>cn_ep := cn_ep c'\<rparr>)" if "m = l"
        using conn_inv_other [OF q(2) conn_inv_ep(1) [OF inv]] fr'(3) q(1) False that by (simp add: ep_frame_def)
      then show ?thesis using q by auto
    qed
  qed
  show "names_ok (put_conn p l c' sv)"
  proof -
    have "name_of (put_conn p l c' sv) = name_of sv" using c fr'(2) by (auto simp: name_of_def)
    then show ?thesis using assms(3) by (simp add: names_ok_def conn_name_def)
  qed
qed

lemma frame_name: "conn_frame (c\<lparr>cn_ep := ep\<rparr>) c' \<Longrightarrow> cn_name c' = cn_name c"
  by (simp add: conn_frame_def)

lemma expected_le: "expected sv m t \<le> 1"
  by (cases t) (auto split: option.splits)

text \<open>The server between the steps of a handler: the functor \<open>u\<close> has been taken off its queue, or is
  about to be put on one, and every other count is right.\<close>

definition server_core :: "'c server \<Rightarrow> bool" where
  "server_core sv \<longleftrightarrow> pool_ok (sv_pool sv) \<and> eps_ok sv \<and> conns_ok sv \<and> names_ok sv"

definition listed_ok :: "'c server \<Rightarrow> bool" where
  "listed_ok sv \<longleftrightarrow> (\<forall>p l c. sv_conns sv p = Some (l, c) \<longrightarrow> cn_state c \<noteq> kDisconnected \<longrightarrow>
     sv_connectionMap sv (cn_name c) = Some p)"

definition counts_but :: "server_task \<Rightarrow> 'c server \<Rightarrow> bool" where
  "counts_but u sv \<longleftrightarrow> listed_ok sv \<and>
     (\<forall>m t. count_list (sv_tasks sv m) t = (if t = u then 0 else expected sv m t))"

lemma server_inv_core: "server_inv sv \<longleftrightarrow> server_core sv \<and> listed_ok sv \<and>
    (\<forall>m t. count_list (sv_tasks sv m) t = expected sv m t)"
  by (auto simp: server_inv_def server_core_def listed_ok_def tasks_ok_def)

lemma counts_but_done: "server_core sv \<Longrightarrow> counts_but u sv \<Longrightarrow> (\<And>m. expected sv m u = 0) \<Longrightarrow> server_inv sv"
  by (auto simp: server_inv_core counts_but_def)

lemma expected_cong:
  assumes "sv_conns sv' = sv_conns sv" and "sv_loop sv' = sv_loop sv" and "sv_connectionMap sv' = sv_connectionMap sv"
  shows "expected sv' m t = expected sv m t"
  using assms by (cases t) (auto split: option.splits)

lemma expected_one: "expected sv m t = 1 \<Longrightarrow> expected sv k t = of_bool (k = m)"
  by (cases t) (auto split: option.splits if_splits)

lemma pop_task:
  assumes "server_inv sv" and "sv_tasks sv m = t # ts"
  shows "server_core (sv\<lparr>sv_tasks := (sv_tasks sv)(m := ts)\<rparr>)" "counts_but t (sv\<lparr>sv_tasks := (sv_tasks sv)(m := ts)\<rparr>)"
    "expected sv m t = 1"
proof -
  let ?sv = "sv\<lparr>sv_tasks := (sv_tasks sv)(m := ts)\<rparr>"
  have cnt: "count_list (sv_tasks sv k) u = expected sv k u" for k u using assms(1) by (simp add: server_inv_core)
  have "expected sv m t = Suc (count_list ts t)" using cnt [of m t] assms(2) by simp
  then show one: "expected sv m t = 1" using expected_le [of sv m t] by simp
  have "name_of ?sv = name_of sv" by (auto simp: name_of_def)
  then show "server_core ?sv"
    using assms(1) by (simp add: server_inv_core server_core_def eps_ok_def conns_ok_def names_ok_def conn_name_def)
  have "expected ?sv k u = expected sv k u" for k u by (rule expected_cong) simp_all
  moreover have "count_list (sv_tasks ?sv k) u = (if u = t then 0 else expected sv k u)" for k u
    using cnt [of k u] assms(2) expected_one [OF one, of k] by (auto split: if_splits)
  ultimately show "counts_but t ?sv" using assms(1) by (auto simp: counts_but_def server_inv_core listed_ok_def)
qed

lemma queue_task:
  assumes "server_core sv" and "counts_but t sv" and "expected sv m t = 1"
  shows "server_inv (sv_queueInLoop m t sv)"
proof -
  have "expected (sv_queueInLoop m t sv) k u = expected sv k u" for k u
    by (rule expected_cong) (simp_all add: sv_queueInLoop_def)
  moreover have "count_list (sv_tasks (sv_queueInLoop m t sv) k) u = expected sv k u" for k u
    using assms(2) expected_one [OF assms(3), of k] by (auto simp: sv_queueInLoop_def counts_but_def)
  moreover have "name_of (sv_queueInLoop m t sv) = name_of sv" by (auto simp: name_of_def sv_queueInLoop_def)
  ultimately show ?thesis using assms(1,2)
    by (simp add: server_inv_core server_core_def eps_ok_def conns_ok_def names_ok_def conn_name_def counts_but_def
        listed_ok_def) (simp add: sv_queueInLoop_def)
qed

lemma other_name:
  assumes "names_ok sv" and "sv_conns sv p = Some (l, c)" and "sv_conns sv q = Some (m, d)" and "q \<noteq> p"
  shows "cn_name d \<noteq> cn_name c"
proof
  assume "cn_name d = cn_name c"
  then have "name_of sv q = Some (cn_name c)" "name_of sv p = Some (cn_name c)"
    using assms(2,3) by (simp_all add: name_of_def)
  then show False using assms(1,4) by (auto simp: names_ok_def)
qed

lemma removed_ok:
  assumes core: "server_core sv" and but: "counts_but (Sv_removeConnectionInLoop p) sv"
    and p: "sv_conns sv p = Some (l, c)" "cn_state c = kDisconnected" "sv_connectionMap sv (cn_name c) = Some p"
  shows "\<exists>sv'. removeConnectionInLoop p sv = Some sv' \<and> server_inv sv'"
proof -
  let ?sv = "sv\<lparr>sv_connectionMap := (sv_connectionMap sv)(cn_name c := None)\<rparr>"
  have run: "removeConnectionInLoop p sv = Some (sv_queueInLoop l (Sv_destroyed p) ?sv)"
    using p by (simp add: removeConnectionInLoop_def dom_def)
  have other: "cn_name d \<noteq> cn_name c" if "sv_conns sv q = Some (m, d)" "q \<noteq> p" for q m d
    using other_name [OF _ p(1) that] core by (simp add: server_core_def)
  have "name_of ?sv = name_of sv" by (auto simp: name_of_def)
  then have "server_core ?sv" using core
    by (auto simp: server_core_def eps_ok_def conns_ok_def names_ok_def conn_name_def)
  moreover have "count_list (sv_tasks ?sv m) t = (if t = Sv_destroyed p then 0 else expected ?sv m t)" for m t
  proof (cases "t = Sv_destroyed p \<or> t = Sv_removeConnectionInLoop p \<or> t = Sv_established p")
    case True
    then show ?thesis using but p by (auto simp: counts_but_def)
  next
    case False
    then have "expected ?sv m t = expected sv m t"
      using other by (cases t) (auto split: option.splits)
    then show ?thesis using False but by (auto simp: counts_but_def)
  qed
  moreover have "listed_ok ?sv"
    using but other p by (fastforce simp: counts_but_def listed_ok_def)
  ultimately show ?thesis using run queue_task [of ?sv "Sv_destroyed p" l] p by (auto simp: counts_but_def)
qed

lemma put_core:
  assumes "server_core sv" and "sv_conns sv p = Some (l, c)"
    and "conn_frame (c\<lparr>cn_ep := sv_eps sv l\<rparr>) c'" and "conn_inv c'"
  shows "server_core (put_conn p l c' sv)"
  using assms put_conn_core [of sv p l c c'] by (simp add: server_core_def)

lemma core_conn:
  assumes "server_core sv" and "sv_conns sv p = Some (l, c)"
  shows "cn_channel c = p" "conn_inv (c\<lparr>cn_ep := sv_eps sv l\<rparr>)"
    "cn_channel (c\<lparr>cn_ep := sv_eps sv l\<rparr>) \<in> dom (ep_heap (cn_ep (c\<lparr>cn_ep := sv_eps sv l\<rparr>)))"
proof -
  show "cn_channel c = p" and i: "conn_inv (c\<lparr>cn_ep := sv_eps sv l\<rparr>)"
    using assms by (auto simp: server_core_def conns_ok_def)
  show "cn_channel (c\<lparr>cn_ep := sv_eps sv l\<rparr>) \<in> dom (ep_heap (cn_ep (c\<lparr>cn_ep := sv_eps sv l\<rparr>)))"
    by (rule conn_inv_ep(2) [OF i])
qed

text \<open>Every functor but those of \<open>p\<close> keeps its count when only \<open>p\<close> changes.\<close>

lemma expected_put_other:
  assumes "t \<noteq> Sv_established p" and "t \<noteq> Sv_removeConnectionInLoop p" and "t \<noteq> Sv_destroyed p"
  shows "expected (put_conn p l c sv) m t = expected sv m t"
  using assms by (cases t) (auto split: option.splits)

lemma established_ok:
  assumes core: "server_core sv" and but: "counts_but (Sv_established p) sv"
    and p: "sv_conns sv p = Some (l, c)" "cn_state c = kConnecting"
  shows "\<exists>sv'. run_server_task (app_cbs wc cmds) (Sv_established p) sv = Some sv' \<and> server_inv sv'"
proof -
  let ?c = "c\<lparr>cn_ep := sv_eps sv l\<rparr>"
  note cc = core_conn [OF core p(1)]
  obtain c' where c': "connectionEstablished (app_cbs wc cmds) p ?c = Some c'" "conn_ext ?c c'"
    using connectionEstablished_effect [OF cc(2), of wc cmds p] p(2) by auto
  have fr: "conn_frame ?c c'" by (rule connectionEstablished_frame [OF c'(1) cc(3)])
  have st: "cn_state c' \<noteq> kConnecting" "cn_state c' \<noteq> kDisconnected"
    using connectionEstablished_state [OF c'(1)] by (auto simp: open_state_def)
  let ?sv = "put_conn p l c' sv"
  have run: "run_server_task (app_cbs wc cmds) (Sv_established p) sv = Some ?sv"
    using with_conn_put [of sv p l c "connectionEstablished (app_cbs wc cmds) p" c'] p(1) c'(1)
    by (simp add: run_server_task_def)
  have core': "server_core ?sv" by (rule put_core [OF core p(1) fr conn_ext_inv [OF c'(2)]])
  have listed: "sv_connectionMap sv (cn_name c) = Some p" using but p by (auto simp: counts_but_def listed_ok_def)
  have "expected ?sv m t = (if t = Sv_established p then 0 else expected sv m t)" for m t
    using expected_put_other [of t p l c' sv m] p listed frame_name [OF fr] st
    by (cases "t = Sv_established p \<or> t = Sv_removeConnectionInLoop p \<or> t = Sv_destroyed p") auto
  moreover have "listed_ok ?sv"
    using but listed frame_name [OF fr] by (auto simp: counts_but_def listed_ok_def)
  ultimately have "counts_but (Sv_established p) ?sv" "\<And>m. expected ?sv m (Sv_established p) = 0"
    using but st by (auto simp: counts_but_def)
  from counts_but_done [OF core' this] run show ?thesis by blast
qed

lemma release_ok:
  assumes core: "server_core sv" and but: "counts_but (Sv_destroyed p) sv"
    and p: "sv_conns sv p = Some (l, c)" "cn_state c = kDisconnected" "sv_connectionMap sv (cn_name c) \<noteq> Some p"
    and ch: "ep_heap (sv_eps sv l) p = Some ch" "\<not> ch_addedToLoop ch" "ch_statusInEpoll ch = kNew"
  shows "\<exists>sv'. release p sv = Some sv' \<and> server_inv sv'"
proof -
  have "\<not> ch_eventHandling ch" "epoll_inv (sv_eps sv l)" using core ch(1) by (auto simp: server_core_def eps_ok_def)
  then obtain ep where ep: "delete_channel p (sv_eps sv l) = Some ep" "epoll_inv ep"
    "ep_heap ep = (ep_heap (sv_eps sv l))(p := None)"
    using delete_channel_ok [OF _ ch(1)] ch(2,3) by blast
  let ?sv = "sv\<lparr>sv_conns := (sv_conns sv)(p := None), sv_eps := (sv_eps sv)(l := ep),
      sv_os := Socket_delete (Socket_new (ch_fd ch)) (sv_os sv)\<rparr>"
  have run: "release p sv = Some ?sv" using p(1,2) ch(1) ep(1) by (simp add: release_def TcpConnection_delete_def)
  have nm: "name_of ?sv = (name_of sv)(p := None)" by (auto simp: name_of_def)
  have "names_ok ?sv"
  proof -
    have "name_of sv p = Some (cn_name c)" using p(1) by (simp add: name_of_def)
    then have "q \<noteq> p" if "sv_connectionMap sv n = Some q" for n q
      using that p(3) core by (auto simp: server_core_def names_ok_def)
    then show ?thesis using core unfolding names_ok_def nm conn_name_def
      by (auto simp: server_core_def names_ok_def conn_name_def)
  qed
  moreover have "eps_ok ?sv" using core ep(2,3) by (auto simp: server_core_def eps_ok_def split: if_splits)
  moreover have "conns_ok ?sv"
    unfolding conns_ok_def
  proof (intro allI impI)
    fix q m d assume d: "sv_conns ?sv q = Some (m, d)"
    then have q: "q \<noteq> p" "sv_conns sv q = Some (m, d)" by (auto split: if_splits)
    have inv: "conn_inv (d\<lparr>cn_ep := sv_eps sv m\<rparr>)" and cq: "cn_channel d = q" using core_conn [OF core q(2)] by auto
    have "conn_inv (d\<lparr>cn_ep := ep\<rparr>)" if "m = l"
      using conn_inv_other [OF inv ep(2)] ep(3) q(1) cq that by simp
    then show "cn_channel d = q \<and> conn_inv (d\<lparr>cn_ep := sv_eps ?sv m\<rparr>)" using cq inv by auto
  qed
  ultimately have core': "server_core ?sv" using core by (simp add: server_core_def)
  have "expected ?sv m t = (if t = Sv_destroyed p then 0 else expected sv m t)" for m t
    using p by (cases t) (auto split: option.splits)
  moreover have "listed_ok ?sv" using but by (auto simp: counts_but_def listed_ok_def split: if_splits)
  ultimately have "counts_but (Sv_destroyed p) ?sv" "\<And>m. expected ?sv m (Sv_destroyed p) = 0"
    using but by (auto simp: counts_but_def)
  from counts_but_done [OF core' this] run show ?thesis by blast
qed

lemma destroyed_ok:
  assumes core: "server_core sv" and but: "counts_but (Sv_destroyed p) sv"
    and p: "sv_conns sv p = Some (l, c)" "cn_state c = kDisconnected" "sv_connectionMap sv (cn_name c) \<noteq> Some p"
  shows "\<exists>sv'. run_server_task (app_cbs wc cmds) (Sv_destroyed p) sv = Some sv' \<and> server_inv sv'"
proof -
  let ?c = "c\<lparr>cn_ep := sv_eps sv l\<rparr>"
  note cc = core_conn [OF core p(1)]
  obtain c' where c': "connectionDestroyed (app_cbs wc cmds) ?c = Some c'" "conn_ext ?c c'"
    using connectionDestroyed_effect [OF cc(2), of wc cmds] p(2) by auto
  have fr: "conn_frame ?c c'" by (rule connectionDestroyed_frame [OF c'(1)])
  have rm: "on_channel channel_remove ?c = Some c'" using c'(1) p(2) by (simp add: connectionDestroyed_def)
  have st: "cn_state c' = kDisconnected" using on_channel_state [OF rm] p(2) by simp
  have cp: "cn_channel c' = p" using fr cc(1) by (simp add: conn_frame_def)
  obtain ch where ch: "ep_heap (cn_ep c') p = Some ch" "\<not> ch_addedToLoop ch" "ch_statusInEpoll ch = kNew"
    using destroyed_channel [OF rm] cp by auto
  let ?sv = "put_conn p l c' sv"
  have core': "server_core ?sv" by (rule put_core [OF core p(1) fr conn_ext_inv [OF c'(2)]])
  have "expected ?sv m t = expected sv m t" for m t
    using expected_put_other [of t p l c' sv m] p frame_name [OF fr] st
    by (cases "t = Sv_established p \<or> t = Sv_removeConnectionInLoop p \<or> t = Sv_destroyed p") auto
  then have "counts_but (Sv_destroyed p) ?sv"
    using but st by (auto simp: counts_but_def listed_ok_def)
  from release_ok [OF core' this, of l c'] st ch p(3) frame_name [OF fr]
  obtain sv' where "release p ?sv = Some sv'" "server_inv sv'" by auto
  then show ?thesis using with_conn_put [of sv p l c "connectionDestroyed (app_cbs wc cmds)" c'] p(1) c'(1)
    by (simp add: run_server_task_def)
qed

lemma getNextLoop_ok:
  assumes "pool_ok po"
  shows "\<exists>l po'. getNextLoop po = Some (l, po') \<and> pool_ok po'"
  using assms by (auto simp: getNextLoop_def pool_ok_def Let_def)

lemma dec_inj: "dec a = dec b \<Longrightarrow> a = b"
  by (drule arg_cong [of _ _ dec_value]) (simp only: dec_value_dec)

lemma run_or_queue:
  assumes "server_core sv" and "counts_but t sv" and "expected sv l t = 1"
    and "\<exists>sv'. run_server_task cbs t sv = Some sv' \<and> server_inv sv'"
  shows "\<exists>sv'. sv_runInLoop cbs m l t sv = Some sv' \<and> server_inv sv'"
  using assms(4) queue_task [OF assms(1-3)] by (auto simp: sv_runInLoop_def)

lemma accept_ok:
  assumes inv: "server_inv sv" and fresh: "sv_conns sv p = None" "sv_nextConnectionId sv < 2 ^ 31"
    and ep: "\<forall>l. ep_heap (sv_eps sv l) p = None \<and> (\<forall>q ch. ep_heap (sv_eps sv l) q = Some ch \<longrightarrow> ch_fd ch \<noteq> fd)"
  shows "\<exists>sv'. newConnection (app_cbs wc cmds) p sockname fd peer sv = Some sv' \<and> server_inv sv'"
proof -
  have core: "server_core sv" and listed: "listed_ok sv"
    and cnt: "count_list (sv_tasks sv m) t = expected sv m t" for m t
    using inv by (auto simp: server_inv_core)
  let ?k = "sv_nextConnectionId sv"
  let ?n = "conn_name sv ?k"
  obtain l po where po: "getNextLoop (sv_pool sv) = Some (l, po)" "pool_ok po"
    using getNextLoop_ok [of "sv_pool sv"] core by (auto simp: server_core_def)
  have "length (dec ?k) \<le> 10" by (rule length_dec) (use fresh(2) in simp_all)
  then have buf: "snprintf 32 (''#'' @ dec ?k) = ''#'' @ dec ?k" by (simp add: snprintf_def)
  let ?c = "TcpConnection_new ?n p fd (getLocalAddress sockname) peer (sv_eps sv l) :: 'a connection"
  let ?sv = "sv\<lparr>sv_nextConnectionId := ?k + 1, sv_pool := po, sv_conns := (sv_conns sv)(p \<mapsto> (l, ?c)),
      sv_eps := (sv_eps sv)(l := cn_ep ?c), sv_connectionMap := (sv_connectionMap sv)(?n \<mapsto> p),
      sv_os := setTcpNoDelay True (Socket_new fd) (sv_os sv)\<rparr>"
  have run: "newConnection (app_cbs wc cmds) p sockname fd peer sv =
      sv_runInLoop (app_cbs wc cmds) (sv_loop sv) l (Sv_established p) ?sv"
    using po(1) buf by (simp add: newConnection_def Let_def conn_name_def)
  have ci: "conn_inv ?c" by (rule TcpConnection_new_inv) (use core ep in \<open>auto simp: server_core_def eps_ok_def\<close>)
  have c: "cn_state ?c = kConnecting" "cn_name ?c = ?n" "cn_channel ?c = p" "?c\<lparr>cn_ep := cn_ep ?c\<rparr> = ?c"
    by (simp_all add: TcpConnection_new_def)
  have heap: "ep_heap (cn_ep ?c) q = ep_heap (sv_eps sv l) q" if "q \<noteq> p" for q
    using that by (simp add: TcpConnection_new_def put_channel_def)
  have new: "\<not> ch_eventHandling ch" if "ep_heap (cn_ep ?c) p = Some ch" for ch
    using that by (auto simp: TcpConnection_new_def put_channel_def Channel_new_def setErrorCallback_def
        setCloseCallback_def setWriteCallback_def setReadCallback_def)
  have names: "name_of sv q \<noteq> Some ?n" for q
  proof
    assume "name_of sv q = Some ?n"
    moreover have "\<forall>p n. name_of sv p = Some n \<longrightarrow> (\<exists>k < ?k. n = conn_name sv k)"
      using core by (simp add: server_core_def names_ok_def)
    ultimately obtain j where j: "j < ?k" "?n = conn_name sv j" by blast
    then have "dec ?k = dec j" by (simp add: conn_name_def)
    from dec_inj [OF this] j(1) show False by simp
  qed
  then have unlisted: "sv_connectionMap sv ?n = None"
    using core unfolding server_core_def names_ok_def by (metis not_None_eq)
  have nm: "name_of ?sv = (name_of sv)(p \<mapsto> ?n)" by (auto simp: name_of_def c(2))
  have old: "name_of sv p = None" using fresh(1) by (simp add: name_of_def)
  have "eps_ok ?sv" unfolding eps_ok_def
  proof (intro allI conjI impI)
    show "epoll_inv (sv_eps ?sv m)" for m
      using conn_inv_ep(1) [OF ci] core by (auto simp: server_core_def eps_ok_def)
    show "\<not> ch_eventHandling ch" if "ep_heap (sv_eps ?sv m) q = Some ch" for m q ch
      using that new heap [of q] core by (cases "q = p") (auto simp: server_core_def eps_ok_def split: if_splits)
  qed
  moreover have "conns_ok ?sv" unfolding conns_ok_def
  proof (intro allI impI)
    fix q m d assume d: "sv_conns ?sv q = Some (m, d)"
    show "cn_channel d = q \<and> conn_inv (d\<lparr>cn_ep := sv_eps ?sv m\<rparr>)"
    proof (cases "q = p")
      case True
      then show ?thesis using d c ci by auto
    next
      case False
      then have q: "sv_conns sv q = Some (m, d)" using d by simp
      note qi = core_conn(1,2) [OF core q]
      have "conn_inv (d\<lparr>cn_ep := cn_ep ?c\<rparr>)" if "m = l"
        using conn_inv_other [OF qi(2) conn_inv_ep(1) [OF ci]] heap [OF False] qi(1) that by simp
      then show ?thesis using qi by auto
    qed
  qed
  moreover have "names_ok ?sv"
  proof -
    have "\<exists>k < ?k + 1. n = conn_name sv k" if "name_of sv q = Some n" for q n
      using that core less_SucI unfolding server_core_def names_ok_def Suc_eq_plus1 [symmetric] by blast
    then show ?thesis unfolding names_ok_def nm
      using core names old by (auto simp: server_core_def names_ok_def conn_name_def)
  qed
  ultimately have core': "server_core ?sv" using core po(2) by (simp add: server_core_def)
  have "expected ?sv m t = (if t = Sv_established p then of_bool (m = l) else expected sv m t)" for m t
    using fresh(1) c unlisted names [unfolded name_of_def] by (cases t) (auto split: option.splits)
  moreover have "expected sv m (Sv_established p) = 0" for m using fresh(1) by simp
  moreover have "listed_ok ?sv" using listed names c fresh(1) by (auto simp: listed_ok_def name_of_def)
  ultimately have but: "counts_but (Sv_established p) ?sv" "expected ?sv l (Sv_established p) = 1"
    using cnt by (auto simp: counts_but_def simp del: expected.simps)
  show ?thesis unfolding run
    by (rule run_or_queue [OF core' but established_ok [OF core' but(1), of l ?c]]) (simp_all add: c)
qed

lemma conn_event_ok_ep: "conn_event_ok e (c\<lparr>cn_ep := ep\<rparr>) = conn_event_ok e c"
  by (cases e) (simp_all add: open_state_def)

lemma conn_event_step_ok:
  assumes inv: "server_inv sv" and ev: "server_event_ok (Sv_conn p e) sv"
  shows "\<exists>sv'. conn_event_step wc cmds p e sv = Some sv' \<and> server_inv sv'"
proof -
  have core: "server_core sv" and listed: "listed_ok sv"
    and cnt: "count_list (sv_tasks sv m) t = expected sv m t" for m t
    using inv by (auto simp: server_inv_core)
  obtain l c where p: "sv_conns sv p = Some (l, c)" and e: "conn_event_ok e c"
    "\<forall>self cmds. e \<noteq> Ev_established self cmds" "\<forall>cmds. e \<noteq> Ev_destroyed cmds" using ev by auto
  let ?c = "c\<lparr>cn_ep := sv_eps sv l\<rparr>"
  note cc = core_conn [OF core p]
  obtain c' where c': "conn_run wc e ?c = Some c'" "conn_ext ?c c'"
    using conn_run_ok [OF cc(2), of e wc] e(1) by (auto simp: conn_event_ok_ep)
  have fr: "conn_frame ?c c'" by (rule conn_run_frame [OF c'(1) cc(3)])
  note nm = frame_name [OF fr]
  let ?sv = "put_conn p l c' sv"
  have core': "server_core ?sv" by (rule put_core [OF core p fr conn_ext_inv [OF c'(2)]])
  have run: "conn_event_step wc cmds p e sv = (if cn_state c \<noteq> kDisconnected \<and> cn_state c' = kDisconnected
      then removeConnection (app_cbs wc cmds) l p ?sv else Some ?sv)"
    using with_conn_put [of sv p l c "conn_run wc e" c'] p c'(1) by (simp add: conn_event_step_def)
  from conn_run_state [OF c'(1) e(2,3)]
  consider "state_advance (cn_state c) (cn_state c')" | "open_state c" "cn_state c' = kDisconnected"
    by (auto simp: open_state_def)
  then show ?thesis
  proof cases
    case 1
    then have st: "cn_state c' = kConnecting \<longleftrightarrow> cn_state c = kConnecting"
      "cn_state c' = kDisconnected \<longleftrightarrow> cn_state c = kDisconnected" by (auto simp: state_advance_def)
    have "expected ?sv m t = expected sv m t" for m t
      using p nm st by (cases t) (auto split: option.splits)
    moreover have "listed_ok ?sv" using listed p nm st by (auto simp: listed_ok_def)
    ultimately have "server_inv ?sv" using core' cnt by (simp add: server_inv_core)
    then show ?thesis using run st by auto
  next
    case 2
    then have st: "cn_state c \<noteq> kConnecting" "cn_state c \<noteq> kDisconnected" by (auto simp: open_state_def)
    have lp: "sv_connectionMap sv (cn_name c) = Some p" using listed p st by (auto simp: listed_ok_def)
    have "expected ?sv m t = (if t = Sv_removeConnectionInLoop p then of_bool (m = sv_loop sv) else expected sv m t)" for m t
      using expected_put_other [of t p l c' sv m] p nm st lp 2(2)
      by (cases "t = Sv_established p \<or> t = Sv_removeConnectionInLoop p \<or> t = Sv_destroyed p") auto
    moreover have "expected sv m (Sv_removeConnectionInLoop p) = 0" for m using p st by simp
    moreover have "listed_ok ?sv" using listed 2(2) by (auto simp: listed_ok_def)
    ultimately have but: "counts_but (Sv_removeConnectionInLoop p) ?sv"
      "expected ?sv (sv_loop sv) (Sv_removeConnectionInLoop p) = 1"
      using cnt by (auto simp: counts_but_def simp del: expected.simps)
    have "\<exists>sv'. run_server_task (app_cbs wc cmds) (Sv_removeConnectionInLoop p) ?sv = Some sv' \<and> server_inv sv'"
      using removed_ok [OF core' but(1), of l c'] 2(2) nm lp by (simp add: run_server_task_def)
    from run_or_queue [OF core' but this, of l] show ?thesis using run st 2(2) by (simp add: removeConnection_def)
  qed
qed

lemma run_task_ok:
  assumes "server_inv sv" and "sv_tasks sv m = t # ts"
  shows "\<exists>sv'. run_server_task (app_cbs wc cmds) t (sv\<lparr>sv_tasks := (sv_tasks sv)(m := ts)\<rparr>) = Some sv' \<and> server_inv sv'"
proof -
  let ?sv = "sv\<lparr>sv_tasks := (sv_tasks sv)(m := ts)\<rparr>"
  note pop = pop_task [OF assms]
  show ?thesis
  proof (cases t)
    case (Sv_established p)
    then obtain c where "sv_conns ?sv p = Some (m, c)" "cn_state c = kConnecting"
      using pop(3) by (auto split: option.splits if_splits simp: of_bool_def)
    then show ?thesis using established_ok [OF pop(1) pop(2) [unfolded Sv_established]] Sv_established by blast
  next
    case (Sv_removeConnectionInLoop p)
    then obtain l c where "sv_conns ?sv p = Some (l, c)" "cn_state c = kDisconnected"
      "sv_connectionMap ?sv (cn_name c) = Some p" using pop(3) by (auto split: option.splits if_splits simp: of_bool_def)
    from removed_ok [OF pop(1) pop(2) [unfolded Sv_removeConnectionInLoop] this]
    show ?thesis using Sv_removeConnectionInLoop by (simp add: run_server_task_def)
  next
    case (Sv_destroyed p)
    then obtain c where "sv_conns ?sv p = Some (m, c)" "cn_state c = kDisconnected"
      "sv_connectionMap ?sv (cn_name c) \<noteq> Some p" using pop(3) by (auto split: option.splits if_splits simp: of_bool_def)
    from destroyed_ok [OF pop(1) pop(2) [unfolded Sv_destroyed] this] show ?thesis unfolding Sv_destroyed .
  qed
qed

lemma TcpServer_new_inv: "server_inv (TcpServer_new name base)"
proof -
  let ?sv = "TcpServer_new name base :: 'a server"
  have sv: "sv_conns ?sv = Map.empty" "sv_connectionMap ?sv = Map.empty" "sv_tasks ?sv = (\<lambda>l. [])"
    "sv_eps ?sv = Epoll_new" "po_loops (sv_pool ?sv) = []"
    by (simp_all add: TcpServer_new_def EventLoopThreadPool_new_def)
  have "expected ?sv m t = 0" for m t by (cases t) (simp_all add: sv)
  moreover have "eps_ok ?sv" by (simp add: eps_ok_def sv Epoll_new_inv) (simp add: Epoll_new_def)
  ultimately show ?thesis
    by (simp add: server_inv_core server_core_def listed_ok_def pool_ok_def conns_ok_def names_ok_def name_of_def sv)
qed



subsection \<open>The destructor\<close>

text \<open>A listed connection that is not closed, of another loop than the server's.\<close>

definition listed_away :: "string \<Rightarrow> nat \<Rightarrow> 'c server \<Rightarrow> bool" where
  "listed_away n p sv \<longleftrightarrow> sv_connectionMap sv n = Some p \<and>
     (\<forall>l c. sv_conns sv p = Some (l, c) \<longrightarrow> l \<noteq> sv_loop sv \<and> cn_state c \<noteq> kDisconnected)"

lemma for_each_keeps:
  assumes "\<And>x w w'. f x w = Some w' \<Longrightarrow> P w \<Longrightarrow> P w'"
  shows "for_each f xs w = Some w' \<Longrightarrow> P w \<Longrightarrow> P w'"
  by (induction xs arbitrary: w) (auto simp: Option.bind_eq_Some_conv intro: assms)

lemma with_conn_away:
  assumes "with_conn q f sv = Some sv'" and "sv_conns sv q = Some (sv_loop sv, c)" and "listed_away n p sv"
  shows "listed_away n p sv'"
proof -
  have "q \<noteq> p" using assms(2,3) by (auto simp: listed_away_def)
  moreover have "sv_connectionMap sv' = sv_connectionMap sv" "sv_loop sv' = sv_loop sv"
    "q \<noteq> p \<Longrightarrow> sv_conns sv' p = sv_conns sv p"
    using assms(1,2) by (auto simp: with_conn_def Option.bind_eq_Some_conv)
  ultimately show ?thesis using assms(3) by (simp add: listed_away_def)
qed

lemma destroy_all_keeps:
  assumes "destroy_all cbs ns sv = Some sv'" and "listed_away n p sv"
  shows "listed_away n p sv'"
proof (rule for_each_keeps [where P = "listed_away n p", OF _ assms(1) [unfolded destroy_all_def] assms(2)])
  fix m and sv sv' :: "'a server"
  assume step: "(do { q \<leftarrow> sv_connectionMap sv m; (l, c) \<leftarrow> sv_conns sv q;
      if sv_loop sv = l then with_conn q (connectionDestroyed cbs) sv
      else Some (sv_queueInLoop l (Sv_destroyed q) sv) }) = Some sv'" and away: "listed_away n p sv"
  then obtain q l c where q: "sv_conns sv q = Some (l, c)" and
    eq: "(if sv_loop sv = l then with_conn q (connectionDestroyed cbs) sv
      else Some (sv_queueInLoop l (Sv_destroyed q) sv)) = Some sv'"
    by (cases "sv_connectionMap sv m"; cases "sv_conns sv (the (sv_connectionMap sv m))") auto
  show "listed_away n p sv'"
  proof (cases "sv_loop sv = l")
    case True
    then show ?thesis using with_conn_away [OF _ _ away] eq q by simp
  next
    case False
    then show ?thesis using eq away by (auto simp: listed_away_def sv_queueInLoop_def)
  qed
qed

lemma free_all_stuck: "listed_away n p sv \<Longrightarrow> n \<in> set ns \<Longrightarrow> free_all ns sv = None"
proof (induction ns arbitrary: sv)
  case (Cons m ns)
  show ?case
  proof (cases "free_all [m] sv")
    case None
    then show ?thesis
      by (cases "sv_connectionMap sv m"; cases "release (the (sv_connectionMap sv m)) sv") (simp_all add: free_all_def)
  next
    case (Some sv1)
    then obtain q where q: "sv_connectionMap sv m = Some q" "release q sv = Some sv1"
      by (auto simp: free_all_def Option.bind_eq_Some_conv)
    have "m \<noteq> n" using q Cons.prems(1)
      by (auto simp: listed_away_def release_def TcpConnection_delete_def Option.bind_eq_Some_conv)
    moreover have "listed_away n p sv1" using q(2) Cons.prems(1)
      by (auto simp: listed_away_def release_def Option.bind_eq_Some_conv split: if_splits)
    ultimately have "free_all ns sv1 = None" using Cons by simp
    then show ?thesis using q by (simp add: free_all_def)
  qed
qed simp



end
