(* ===== verification/HttpLife.thy ===== *)
theory HttpLife
  imports HttpServer TcpServer TimerQueue Step_Invariant
begin

text \<open>
  The HTTP server as a whole: \<^verbatim>\<open>http/HttpServer.{h,cpp}\<close> on top of \<^verbatim>\<open>net/TcpServer\<close>, and the start of
  \<^verbatim>\<open>main.cpp\<close>. \<open>http_step\<close> is one event of the process: the accepting loop takes a connection, a loop runs a functor,
  or something happens to a connection, each with the callbacks that \<open>HttpServer\<close> installs.

  The proofs reduce each step to one of a server whose callbacks only send and shut down.
\<close>

subsection \<open>Steps\<close>

datatype http_event = Ht_read int | Ht_write | Ht_close | Ht_error | Ht_arrive string bool | Ht_answers "write_answer list"

fun http_run :: "http_callback option \<Rightarrow> http_event \<Rightarrow> http_context connection \<Rightarrow> http_context connection option" where
  "http_run cb (Ht_read t) c = conn_handleRead (HttpServer_callbacks cb) t c"
| "http_run cb Ht_write c = handleWrite (HttpServer_callbacks cb) c"
| "http_run cb Ht_close c = handleClose (HttpServer_callbacks cb) c"
| "http_run cb Ht_error c = Some (handleError c)"
| "http_run cb (Ht_arrive s closed) c = Some (c\<lparr>cn_socket := (cn_socket c)\<lparr>so_in := so_in (cn_socket c) @ s,
     so_in_closed := (so_in_closed (cn_socket c) \<or> closed)\<rparr>\<rparr>)"
| "http_run cb (Ht_answers as) c = Some (c\<lparr>cn_socket := (cn_socket c)\<lparr>so_answers := as\<rparr>\<rparr>)"

datatype http_server_event = Ht_accept nat int sockaddr_in "sockaddr_in option" | Ht_loop nat | Ht_conn nat http_event

definition http_conn_step :: "http_callback option \<Rightarrow> nat \<Rightarrow> http_event \<Rightarrow> http_context server \<Rightarrow> http_context server option" where
  "http_conn_step cb p e sv = do {
     (l, c) \<leftarrow> sv_conns sv p;
     sv1 \<leftarrow> with_conn p (http_run cb e) sv;
     (l', c') \<leftarrow> sv_conns sv1 p;
     if cn_state c \<noteq> kDisconnected \<and> cn_state c' = kDisconnected
     then removeConnection (HttpServer_callbacks cb) l p sv1 else Some sv1 }"

fun http_step :: "http_callback option \<Rightarrow> http_server_event \<Rightarrow> http_context server \<Rightarrow> http_context server option" where
  "http_step cb (Ht_accept p fd peer sockname) sv = newConnection (HttpServer_callbacks cb) p sockname fd peer sv"
| "http_step cb (Ht_loop l) sv = (case sv_tasks sv l of
     [] \<Rightarrow> Some sv
   | t # ts \<Rightarrow> run_server_task (HttpServer_callbacks cb) t (sv\<lparr>sv_tasks := (sv_tasks sv)(l := ts)\<rparr>))"
| "http_step cb (Ht_conn p e) sv = http_conn_step cb p e sv"

text \<open>The kernel and the allocator hand out what is free, and the poller reports reading and closing only for a channel
  it watches.\<close>

fun http_event_ok :: "http_server_event \<Rightarrow> http_context server \<Rightarrow> bool" where
  "http_event_ok (Ht_accept p fd peer sockname) sv \<longleftrightarrow> server_event_ok (Sv_accept p fd peer sockname) sv"
| "http_event_ok (Ht_loop l) sv \<longleftrightarrow> True"
| "http_event_ok (Ht_conn p e) sv \<longleftrightarrow> (\<exists>l c. sv_conns sv p = Some (l, c) \<and>
     ((\<exists>t. e = Ht_read t) \<or> e = Ht_close \<longrightarrow> open_state c))"

subsection \<open>The start\<close>

definition HttpServer_new :: "string \<Rightarrow> nat \<Rightarrow> http_context server" where
  "HttpServer_new name base = TcpServer_new name base"

definition HttpServer_setThreadNum :: "int \<Rightarrow> http_context server \<Rightarrow> http_context server option" where
  "HttpServer_setThreadNum threadsNum sv = setThreadNumber threadsNum sv"

text \<open>No callback for the start of a thread is set.\<close>

definition HttpServer_start :: "(nat \<Rightarrow> nat) \<Rightarrow> http_context server \<Rightarrow> (bool \<times> http_context server) option" where
  "HttpServer_start thread_loop sv = server_start thread_loop False sv"

text \<open>\<^verbatim>\<open>main\<close> up to \<^verbatim>\<open>loop.loop()\<close>: the address listened on, the server, started, and the timers of its loop.
  \<open>numbers\<close> are the values \<^verbatim>\<open>atoi\<close> gives of the arguments. The callback of the timer prints a line.\<close>

definition tinyws_main :: "(nat \<Rightarrow> nat) \<Rightarrow> nat \<Rightarrow> (nat \<Rightarrow> int) \<Rightarrow> (nat \<Rightarrow> nat) \<Rightarrow> int list
    \<Rightarrow> (sockaddr_in \<times> bool \<times> http_context server \<times> nat \<times> timer_queue) option" where
  "tinyws_main thread_loop base clock addrs numbers = do {
     let threadNums = (if length numbers > 0 then numbers ! 0 else 0);
     let port = (if length numbers > 1 then numbers ! 1 else 19123);
     let timers = TimerQueue_new clock addrs;
     let listenAddress = InternetAddress_port (word_of_int port);
     let server = HttpServer_new ''tinyWS'' base;
     (timer, timers) \<leftarrow> runEvery (2 * 1000 * 1000) (Timer_cb []) timers;
     server \<leftarrow> HttpServer_setThreadNum threadNums server;
     (listening, server) \<leftarrow> HttpServer_start thread_loop server;
     Some (listenAddress, listening, server, timer, timers) }"

subsection \<open>The callbacks are an application's\<close>

lemma handleWrite_cbs:
  assumes "cb_writeComplete cbs = cb_writeComplete cbs'"
  shows "handleWrite cbs c = handleWrite cbs' c"
  unfolding handleWrite_def assms ..

lemma http_write: "handleWrite (HttpServer_callbacks cb) c = handleWrite (app_cbs False []) c"
  by (rule handleWrite_cbs) (simp add: HttpServer_callbacks_def app_cbs_def)

lemma http_close: "handleClose (HttpServer_callbacks cb) c = handleClose (app_cbs False []) c"
  by (simp add: handleClose_def HttpServer_callbacks_def app_cbs_def)

lemma on_channel_context: "on_channel f c = Some c' \<Longrightarrow> cn_context c' = cn_context c \<and> cn_inputBuffer c' = cn_inputBuffer c"
  by (auto simp: on_channel_def Option.bind_eq_Some_conv)

lemma http_established:
  "connectionEstablished (HttpServer_callbacks cb) p c =
     map_option (setContext HttpContext_new) (connectionEstablished (app_cbs False []) p c)"
proof -
  let ?c2 = "(setState kConnected c)\<lparr>cn_ep := put_channel (cn_channel (setState kConnected c))
      (channel_tie p (conn_channel (setState kConnected c))) (cn_ep (setState kConnected c))\<rparr>"
  show ?thesis
  proof (cases "on_channel enableReading ?c2")
    case (Some c3)
    then have "connected c3" using on_channel_state [OF Some] by (simp add: connected_def setState_def)
    then show ?thesis using Some
      by (simp add: connectionEstablished_def run_connection_cb_def HttpServer_callbacks_def app_cbs_def onConnection_def Let_def assertion_def)
  qed (simp add: connectionEstablished_def Let_def assertion_def)
qed

lemma http_destroyed: "connectionDestroyed (HttpServer_callbacks cb) c = connectionDestroyed (app_cbs False []) c"
proof (cases "on_channel disableAll (setState kDisconnected c)")
  case (Some c1)
  then have "\<not> connected c1" using on_channel_state [OF Some] by (simp add: connected_def setState_def)
  then show ?thesis using Some
    by (simp add: connectionDestroyed_def run_connection_cb_def HttpServer_callbacks_def app_cbs_def onConnection_def)
qed (simp add: connectionDestroyed_def)

subsection \<open>The reading\<close>

text \<open>What the server does with what the parser returns, as commands of an application.\<close>

definition http_cmds :: "http_callback option \<Rightarrow> bool \<Rightarrow> http_context \<Rightarrow> app_cmd list" where
  "http_cmds cb ok ctx =
     (if ok then [] else [App_send bad_request, App_shutdown]) @
     (if gotAll ctx
      then App_send (concat (response_pieces (respond cb (hc_request ctx)))) #
        (if rs_closeConnection (respond cb (hc_request ctx)) then [App_shutdown] else [])
      else [])"

lemma run_app_append:
  fixes c :: "'c connection"
  shows "run_app wc (xs @ ys) c = Option.bind (run_app wc xs c) (run_app wc ys)"
proof (induction xs arbitrary: c)
  case (Cons x xs)
  then have "run_app wc (xs @ ys) = (\<lambda>c :: 'c connection. Option.bind (run_app wc xs c) (run_app wc ys))"
    by (simp add: fun_eq_iff)
  then show ?case by (cases x) (simp_all add: Option.bind_assoc)
qed simp

lemma run_app_nil: "run_app wc [] = Some"
  by (simp add: fun_eq_iff)

lemma run_app_last: "run_app wc [App_shutdown] = conn_shutdown True"
  by (simp add: fun_eq_iff run_app_nil)

lemmas run_app_single = run_app_nil run_app_last

lemma onRequest_app: "onRequest (quiet_cbs False) cb r c =
  run_app False (App_send (concat (response_pieces (respond cb r))) #
    (if rs_closeConnection (respond cb r) then [App_shutdown] else [])) c"
proof -
  obtain b where "appendToBuffer (respond cb r) Buffer_new = Some b" "toString b = concat (response_pieces (respond cb r))"
    using respond_text by blast
  then show ?thesis by (simp add: onRequest_def closeConnection_def Let_def run_app_single)
qed

lemma onMessage_app:
  assumes "cn_context c = Some ctx" and "parseRequest t ctx (cn_inputBuffer c) = Some (Parse_return ok ctx' b)"
  shows "onMessage (quiet_cbs False) cb t c =
    map_option (\<lambda>c'. if gotAll ctx' then c'\<lparr>cn_context := Some (HttpContext_reset ctx')\<rparr> else c')
      (run_app False (http_cmds cb ok ctx') (c\<lparr>cn_inputBuffer := b, cn_context := Some ctx'\<rparr>))"
proof -
  let ?c = "c\<lparr>cn_inputBuffer := b, cn_context := Some ctx'\<rparr>"
  have bad: "(if \<not> ok then do { c' \<leftarrow> conn_send (quiet_cbs False) True bad_request ?c; conn_shutdown True c' } else Some ?c) =
      run_app False (if ok then [] else [App_send bad_request, App_shutdown]) ?c" by (simp add: run_app_single)
  let ?bad = "run_app False (if ok then [] else [App_send bad_request, App_shutdown]) ?c"
  let ?req = "run_app False (App_send (concat (response_pieces (respond cb (hc_request ctx')))) #
      (if rs_closeConnection (respond cb (hc_request ctx')) then [App_shutdown] else []))"
  have code: "onMessage (quiet_cbs False) cb t c = Option.bind ?bad (\<lambda>c2. if gotAll ctx'
      then Option.bind (?req c2) (\<lambda>c3. Some (c3\<lparr>cn_context := Some (HttpContext_reset ctx')\<rparr>)) else Some c2)"
    unfolding onMessage_def using assms by (simp only: option.simps Option.bind.bind_lunit parse_result.simps bad onRequest_app Let_def)
  have spec: "run_app False (http_cmds cb ok ctx') ?c = Option.bind ?bad (\<lambda>c2. if gotAll ctx' then ?req c2 else Some c2)"
    unfolding http_cmds_def run_app_append by (cases "gotAll ctx'") (simp_all only: if_True if_False run_app_single)
  show ?thesis unfolding code spec
  proof (cases ?bad)
    case (Some c2)
    show "Option.bind ?bad (\<lambda>c2. if gotAll ctx' then Option.bind (?req c2) (\<lambda>c3. Some (c3\<lparr>cn_context := Some (HttpContext_reset ctx')\<rparr>)) else Some c2) =
      map_option (\<lambda>c'. if gotAll ctx' then c'\<lparr>cn_context := Some (HttpContext_reset ctx')\<rparr> else c')
        (Option.bind ?bad (\<lambda>c2. if gotAll ctx' then ?req c2 else Some c2))"
      unfolding Some
      by (cases "gotAll ctx'"; cases "?req c2") (simp_all only: if_True if_False Option.bind.simps option.simps split del: if_split)
  qed simp
qed

subsection \<open>Changing one connection\<close>

text \<open>The fields of a connection that the server's own books do not depend on.\<close>

definition slight :: "'c connection \<Rightarrow> 'c connection \<Rightarrow> bool" where
  "slight c c' \<longleftrightarrow> (\<exists>b x s cl. c' = c\<lparr>cn_inputBuffer := b, cn_context := x,
       cn_socket := (cn_socket c)\<lparr>so_in := s, so_in_closed := cl\<rparr>\<rparr> \<and>
     (buf_inv (cn_inputBuffer c) \<longrightarrow> buf_inv b))"

definition map_conn :: "nat \<Rightarrow> ('c connection \<Rightarrow> 'c connection) \<Rightarrow> 'c server \<Rightarrow> 'c server" where
  "map_conn p g sv = sv\<lparr>sv_conns := (sv_conns sv)(p := map_option (\<lambda>(l, c). (l, g c)) (sv_conns sv p))\<rparr>"

lemma map_conn_simps [simp]:
  "sv_conns (map_conn p g sv) = (sv_conns sv)(p := map_option (\<lambda>(l, c). (l, g c)) (sv_conns sv p))"
  "sv_eps (map_conn p g sv) = sv_eps sv" "sv_pool (map_conn p g sv) = sv_pool sv" "sv_tasks (map_conn p g sv) = sv_tasks sv"
  "sv_connectionMap (map_conn p g sv) = sv_connectionMap sv" "sv_loop (map_conn p g sv) = sv_loop sv"
  "sv_name (map_conn p g sv) = sv_name sv" "sv_nextConnectionId (map_conn p g sv) = sv_nextConnectionId sv"
  by (simp_all add: map_conn_def)

lemma slight_same:
  assumes "slight c c'"
  shows "cn_state c' = cn_state c" "cn_name c' = cn_name c" "cn_channel c' = cn_channel c"
    and "conn_inv (c\<lparr>cn_ep := ep\<rparr>) \<Longrightarrow> conn_inv (c'\<lparr>cn_ep := ep\<rparr>)"
proof -
  obtain b x s cl where c': "c' = c\<lparr>cn_inputBuffer := b, cn_context := x, cn_socket := (cn_socket c)\<lparr>so_in := s, so_in_closed := cl\<rparr>\<rparr>"
    "buf_inv (cn_inputBuffer c) \<longrightarrow> buf_inv b" using assms by (auto simp: slight_def)
  show "cn_state c' = cn_state c" "cn_name c' = cn_name c" "cn_channel c' = cn_channel c" by (simp_all add: c'(1))
  show "conn_inv (c\<lparr>cn_ep := ep\<rparr>) \<Longrightarrow> conn_inv (c'\<lparr>cn_ep := ep\<rparr>)"
    using c'(2) unfolding c'(1)
    by (simp add: conn_inv_def conn_ok_def open_state_def unsent_def conn_isWriting_def conn_channel_def)
qed

lemma map_conn_inv:
  assumes inv: "server_inv sv" and g: "\<And>l c. sv_conns sv p = Some (l, c) \<Longrightarrow> slight c (g c)"
  shows "server_inv (map_conn p g sv)"
proof (cases "sv_conns sv p")
  case None
  then have "(sv_conns sv)(p := None) = sv_conns sv" by auto
  then have "map_conn p g sv = sv" using None by (simp add: map_conn_def)
  then show ?thesis using inv by simp
next
  case (Some lc)
  obtain l c where c: "sv_conns sv p = Some (l, c)" using Some by (cases lc) auto
  note same = slight_same [OF g [OF c]]
  have nm: "name_of (map_conn p g sv) = name_of sv" using c same(2) by (auto simp: name_of_def)
  have ex: "expected (map_conn p g sv) m t = expected sv m t" for m t
    using c same(1,2) by (cases t) (auto split: option.splits)
  have "names_ok (map_conn p g sv)" using inv unfolding names_ok_def nm by (auto simp: server_inv_def names_ok_def conn_name_def)
  moreover have "conns_ok (map_conn p g sv)"
    using inv c same(3,4) by (auto simp: server_inv_def conns_ok_def)
  moreover have "tasks_ok (map_conn p g sv)" unfolding tasks_ok_def ex
    using inv c same(1,2) by (auto simp: server_inv_def tasks_ok_def)
  ultimately show ?thesis using inv by (simp add: server_inv_def eps_ok_def)
qed

text \<open>What a step of one connection leaves alone.\<close>

lemma removal_conns: "removeConnection cbs l p sv = Some sv' \<Longrightarrow> sv_conns sv' = sv_conns sv"
  by (auto simp: removeConnection_def sv_runInLoop_def run_server_task_def removeConnectionInLoop_def sv_queueInLoop_def
      Option.bind_eq_Some_conv split: if_splits)

lemma conn_event_conns:
  assumes "conn_event_step wc cmds p e sv = Some sv'" and "sv_conns sv p = Some (l, c)"
  shows "\<exists>c'. conn_run wc e (c\<lparr>cn_ep := sv_eps sv l\<rparr>) = Some c' \<and> sv_conns sv' = (sv_conns sv)(p \<mapsto> (l, c'))"
proof -
  obtain c' where c': "conn_run wc e (c\<lparr>cn_ep := sv_eps sv l\<rparr>) = Some c'"
    using assms by (auto simp: conn_event_step_def with_conn_def Option.bind_eq_Some_conv)
  from with_conn_put [OF assms(2), of "conn_run wc e" c'] c'
  have "with_conn p (conn_run wc e) sv = Some (put_conn p l c' sv)" by simp
  then show ?thesis using assms c' by (auto simp: conn_event_step_def dest: removal_conns split: if_splits)
qed

lemma http_removal: "removeConnection (HttpServer_callbacks cb) = removeConnection (app_cbs False [])"
  by (simp add: fun_eq_iff removeConnection_def sv_runInLoop_def run_server_task_def)

lemma http_step_app:
  assumes "sv_conns sv p = Some (l, c)"
    and "http_run cb e (c\<lparr>cn_ep := sv_eps sv l\<rparr>) = conn_run False e' (c\<lparr>cn_ep := sv_eps sv l\<rparr>)"
  shows "http_conn_step cb p e sv = conn_event_step False [] p e' sv"
  using assms unfolding http_conn_step_def conn_event_step_def http_removal by (simp add: with_conn_def)

subsection \<open>The context\<close>

text \<open>Only the server's callbacks touch the context of a connection.\<close>

lemma sendInLoop_context: "sendInLoop cbs m c = Some c' \<Longrightarrow> cn_context c' = cn_context c"
  by (auto simp: sendInLoop_def conn_queueInLoop_def conn_log_error_def Let_def Option.bind_eq_Some_conv
      split: if_splits prod.splits sum.splits dest!: on_channel_context)

lemma conn_shutdown_context: "conn_shutdown il c = Some c' \<Longrightarrow> cn_context c' = cn_context c"
  by (auto simp: conn_shutdown_def conn_queueInLoop_def setState_def shutdownInLoop_def Let_def split: if_splits)

lemma run_app_context: "run_app wc cmds c = Some c' \<Longrightarrow> cn_context c' = cn_context c"
proof (induction wc cmds c arbitrary: c' rule: run_app.induct)
  case (2 wc m cmds c)
  then obtain d where d: "conn_send (quiet_cbs wc) True m c = Some d" "run_app wc cmds d = Some c'"
    by (auto simp: Option.bind_eq_Some_conv)
  have "cn_context d = cn_context c" using d(1) sendInLoop_context by (auto simp: conn_send_def split: if_splits)
  then show ?case using "2.IH" [OF d] by simp
next
  case (3 wc cmds c)
  then obtain d where d: "conn_shutdown True c = Some d" "run_app wc cmds d = Some c'"
    by (auto simp: Option.bind_eq_Some_conv)
  then show ?case using "3.IH" [OF d] conn_shutdown_context [OF d(1)] by simp
next
  case (4 wc n cmds c)
  then show ?case by (auto simp: Option.bind_eq_Some_conv)
qed simp

lemma handleClose_context: "handleClose (app_cbs wc cmds) c = Some c' \<Longrightarrow> cn_context c' = cn_context c"
  by (auto simp: handleClose_def app_cbs_def setState_def Option.bind_eq_Some_conv dest!: on_channel_context)

lemma handleWrite_context:
  assumes "handleWrite cbs c = Some c'"
  shows "cn_context c' = cn_context c"
proof (cases "conn_isWriting c")
  case wr: True
  obtain answer so where w: "sys_write (toString (cn_outputBuffer c)) (cn_socket c) = (answer, so)"
    by (cases "sys_write (toString (cn_outputBuffer c)) (cn_socket c)")
  let ?c1 = "c\<lparr>cn_socket := so\<rparr>"
  show ?thesis
  proof (cases "\<exists>n. answer = Inl n \<and> 0 < n")
    case True
    then obtain n where n: "answer = Inl n" "0 < n" by blast
    obtain out where out: "retrieve n (cn_outputBuffer ?c1) = Some out"
      using assms wr w n by (cases "retrieve n (cn_outputBuffer ?c1)") (auto simp: handleWrite_def)
    let ?c2 = "?c1\<lparr>cn_outputBuffer := out\<rparr>"
    show ?thesis
    proof (cases "readableBytes out = 0")
      case True
      obtain c3 where c3: "on_channel disableWriting ?c2 = Some c3"
        using assms wr w n out True by (cases "on_channel disableWriting ?c2") (auto simp: handleWrite_def)
      have "cn_context c3 = cn_context c" using on_channel_context [OF c3] by simp
      then show ?thesis using assms wr w n out True c3
        by (auto simp: handleWrite_def conn_queueInLoop_def shutdownInLoop_def Let_def split: if_splits)
    qed (use assms wr w n out in \<open>auto simp: handleWrite_def\<close>)
  qed (use assms wr w in \<open>auto simp: handleWrite_def Let_def split: sum.splits if_splits\<close>)
qed (use assms in \<open>auto simp: handleWrite_def conn_log_error_def\<close>)

lemma handleRead_context:
  assumes "conn_handleRead (app_cbs wc cmds) t c = Some c'"
  shows "cn_context c' = cn_context c"
proof -
  obtain n err b so where r: "readFd sys_readv (cn_socket c) 0 (cn_inputBuffer c) = Some (n, err, b, so)"
    using assms by (auto simp: conn_handleRead_def Option.bind_eq_Some_conv)
  let ?c = "c\<lparr>cn_inputBuffer := b, cn_socket := so\<rparr>"
  have eq: "conn_handleRead (app_cbs wc cmds) t c = (if 0 < n then run_app wc cmds ?c
      else if n = 0 then handleClose (app_cbs wc cmds) ?c else Some (handleError (conn_log_error ?c)))"
    unfolding conn_handleRead_def r by (simp add: app_cbs_def Let_def)
  consider "0 < n" | "n = 0" | "n < 0" by linarith
  then show ?thesis
  proof cases
    case 1
    then have "run_app wc cmds ?c = Some c'" using assms unfolding eq by simp
    from run_app_context [OF this] show ?thesis by simp
  next
    case 2
    then have "handleClose (app_cbs wc cmds) ?c = Some c'" using assms unfolding eq by simp
    from handleClose_context [OF this] show ?thesis by simp
  next
    case 3
    then have "c' = handleError (conn_log_error ?c)" using assms unfolding eq by simp
    then show ?thesis by (simp add: handleError_def conn_log_error_def)
  qed
qed

lemma connectionEstablished_context:
  assumes "connectionEstablished (app_cbs wc cmds) self c = Some c'"
  shows "cn_context c' = cn_context c"
  using assms by (auto simp: connectionEstablished_def run_connection_cb_def app_cbs_def setState_def Let_def
      Option.bind_eq_Some_conv dest!: on_channel_context run_app_context)

lemma conn_run_context: "conn_run wc e c = Some c' \<Longrightarrow> (\<forall>cmds. e \<noteq> Ev_destroyed cmds) \<Longrightarrow> cn_context c' = cn_context c"
  by (cases e) (auto simp: handleError_def conn_log_error_def dest: connectionEstablished_context handleRead_context
      handleWrite_context handleClose_context run_app_context)

text \<open>A connection that is open has a context that is in the middle of a request, or before one.\<close>

definition http_ready :: "http_context connection \<Rightarrow> bool" where
  "http_ready c \<longleftrightarrow> (open_state c \<longrightarrow> (\<exists>ctx. cn_context c = Some ctx \<and> is_parsing ctx))"

definition http_inv :: "http_context server \<Rightarrow> bool" where
  "http_inv sv \<longleftrightarrow> server_inv sv \<and> (\<forall>p l c. sv_conns sv p = Some (l, c) \<longrightarrow> http_ready c)"

lemma http_inv_update:
  assumes "http_inv sv" and "server_inv sv'" and "sv_conns sv' = (sv_conns sv)(p \<mapsto> (l, c'))" and "http_ready c'"
  shows "http_inv sv'"
  using assms by (auto simp: http_inv_def)

lemma processRequestLine_state: "processRequestLine line c = Some (ok, c') \<Longrightarrow> hc_state c' = hc_state c"
  by (auto simp: processRequestLine_def Let_def Option.bind_eq_Some_conv split: if_splits)

lemma str_line_stays: "is_parsing c \<Longrightarrow> str_line t c line = Some (ok, hasMore, c') \<Longrightarrow> is_parsing c' \<or> gotAll c'"
  by (auto simp: str_line_def gotAll_def Let_def Option.bind_eq_Some_conv dest!: processRequestLine_state split: if_splits)

lemma parse_str_state: "parse_str t c s = Parse_return ok c' s' \<Longrightarrow> is_parsing c \<Longrightarrow> is_parsing c' \<or> gotAll c'"
proof (induction t c s rule: parse_str.induct)
  case (1 t c s)
  show ?case
  proof (cases "search_seq kCRLF s")
    case None
    then show ?thesis using 1(2,3) by (simp add: parse_str.simps [of t c s])
  next
    case (Some i)
    show ?thesis
    proof (cases "str_line t c (take i s)")
      case None
      then show ?thesis using 1(2) Some by (simp add: parse_str.simps [of t c s])
    next
      case l: (Some r)
      obtain ok1 hasMore c1 where r: "str_line t c (take i s) = Some (ok1, hasMore, c1)" using l by (cases r) auto
      note st = str_line_stays [OF 1(3) r]
      show ?thesis
      proof (cases hasMore)
        case True
        have "is_parsing c1" using str_line_parsing [of c t "take i s" ok1 c1] 1(3) r True by simp
        then show ?thesis using 1(1) [OF Some r refl refl True] 1(2) Some r True by (simp add: parse_str.simps [of t c s])
      next
        case False
        then show ?thesis using 1(2) Some r st by (auto simp: parse_str.simps [of t c s])
      qed
    qed
  qed
qed

subsection \<open>Each step\<close>

text \<open>Data on an open connection: the parser stops the process, or the connection goes on with a context that is ready.\<close>

lemma http_message_ok:
  assumes inv: "server_inv sv" and c: "sv_conns sv p = Some (l, c)" and ctx: "cn_context c = Some ctx" "is_parsing ctx"
    and r: "readFd sys_readv (cn_socket c) 0 (cn_inputBuffer c) = Some (n, err, b, (cn_socket c)\<lparr>so_in := []\<rparr>)" "0 < n"
      "buf_inv b" "toString b = toString (cn_inputBuffer c) @ so_in (cn_socket c)"
  shows "case parse_str t ctx (toString b) of
      Parse_abort \<Rightarrow> http_conn_step cb p (Ht_read t) sv = None
    | Parse_return ok ctx' rest \<Rightarrow> \<exists>sv' c'. http_conn_step cb p (Ht_read t) sv = Some sv' \<and> server_inv sv' \<and>
        sv_conns sv' = (sv_conns sv)(p \<mapsto> (l, c')) \<and> http_ready c'"
proof -
  let ?ep = "sv_eps sv l" and ?so = "(cn_socket c)\<lparr>so_in := []\<rparr>"
  let ?c = "c\<lparr>cn_ep := ?ep\<rparr>"
  have read: "http_run cb (Ht_read t) ?c = onMessage (quiet_cbs False) cb t (?c\<lparr>cn_inputBuffer := b, cn_socket := ?so\<rparr>)"
    using r(1,2) by (simp add: conn_handleRead_def HttpServer_callbacks_def)
  note facts = parseRequest_facts [OF r(3) ctx(2), of t]
  show ?thesis
  proof (cases "parse_str t ctx (toString b)")
    case Parse_abort
    then have "http_run cb (Ht_read t) ?c = None" unfolding read using facts ctx(1) by (simp add: onMessage_def)
    then show ?thesis using Parse_abort c by (simp add: http_conn_step_def with_conn_def)
  next
    case (Parse_return ok ctx' rest)
    then obtain b' where b': "parseRequest t ctx b = Some (Parse_return ok ctx' b')" "buf_inv b'" using facts by auto
    let ?g = "\<lambda>c. c\<lparr>cn_inputBuffer := b', cn_context := Some ctx', cn_socket := (cn_socket c)\<lparr>so_in := []\<rparr>\<rparr>"
    let ?cmds = "http_cmds cb ok ctx'" and ?sv = "map_conn p ?g sv"
    let ?r = "\<lambda>c'. if gotAll ctx' then c'\<lparr>cn_context := Some (HttpContext_reset ctx')\<rparr> else c'"
    have "slight c (?g c)" using b'(2) unfolding slight_def by (intro exI [of _ b'] exI [of _ "Some ctx'"] exI [of _ "[]"]
        exI [of _ "so_in_closed (cn_socket c)"]) simp
    then have inv1: "server_inv ?sv" using c by (intro map_conn_inv [OF inv]) simp
    have c1: "sv_conns ?sv p = Some (l, ?g c)" using c by simp
    have "server_event_ok (Sv_conn p (Ev_app ?cmds)) ?sv" using c1 by (simp del: map_conn_simps)
    from conn_event_step_ok [OF inv1 this, of False "[]"] obtain sv2 where
      sv2: "conn_event_step False [] p (Ev_app ?cmds) ?sv = Some sv2" "server_inv sv2" by blast
    obtain c2 where c2: "run_app False ?cmds ((?g c)\<lparr>cn_ep := ?ep\<rparr>) = Some c2" "sv_conns sv2 = (sv_conns ?sv)(p \<mapsto> (l, c2))"
      using conn_event_conns [OF sv2(1) c1] by auto
    have st: "state_advance (cn_state c) (cn_state c2)" using run_app_state [OF c2(1)] by simp
    then have open1: "\<not> (cn_state c \<noteq> kDisconnected \<and> cn_state c2 = kDisconnected)" by (auto simp: state_advance_def)
    have "with_conn p (conn_run False (Ev_app ?cmds)) ?sv = Some (put_conn p l c2 ?sv)"
      by (rule with_conn_put [OF c1]) (use c2(1) in simp)
    then have sv2': "sv2 = put_conn p l c2 ?sv" using sv2(1) c1 open1 by (auto simp: conn_event_step_def split: if_splits)
    let ?d = "?c\<lparr>cn_inputBuffer := b, cn_socket := ?so\<rparr>"
    have d: "?d\<lparr>cn_inputBuffer := b', cn_context := Some ctx'\<rparr> = (?g c)\<lparr>cn_ep := ?ep\<rparr>" by (cases c) simp
    have "cn_context ?d = Some ctx" "parseRequest t ctx (cn_inputBuffer ?d) = Some (Parse_return ok ctx' b')"
      using ctx(1) b'(1) by simp_all
    from onMessage_app [OF this, of cb] have "http_run cb (Ht_read t) ?c = Some (?r c2)"
      unfolding read d c2(1) by (simp only: option.map)
    then have w: "with_conn p (http_run cb (Ht_read t)) sv = Some (put_conn p l (?r c2) sv)" by (rule with_conn_put [OF c])
    have step: "http_conn_step cb p (Ht_read t) sv = Some (put_conn p l (?r c2) sv)"
    proof -
      have "cn_state (?r c2) = cn_state c2" by simp
      then show ?thesis unfolding http_conn_step_def w using c open1
        by (cases "cn_state c = kDisconnected") (simp_all split del: if_split)
    qed
    have "put_conn p l (?r c2) sv = map_conn p ?r sv2" by (simp add: sv2' put_conn_def map_conn_def)
    moreover have "slight c2 (?r c2)" unfolding slight_def
      by (intro exI [of _ "cn_inputBuffer c2"] exI [of _ "cn_context (?r c2)"] exI [of _ "so_in (cn_socket c2)"]
        exI [of _ "so_in_closed (cn_socket c2)"]) simp
    ultimately have "server_inv (put_conn p l (?r c2) sv)" using map_conn_inv [OF sv2(2), of p ?r] c2(2) by simp
    moreover have "http_ready (?r c2)"
      using parse_str_state [OF Parse_return ctx(2)] run_app_context [OF c2(1)] by (auto simp: http_ready_def HttpContext_reset_def)
    ultimately show ?thesis using Parse_return step by auto
  qed
qed

text \<open>Any other event is one of the life of a connection with an application that does nothing.\<close>

lemma http_quiet_ok:
  assumes inv: "http_inv sv" and c: "sv_conns sv p = Some (l, c)"
    and run: "http_run cb e (c\<lparr>cn_ep := sv_eps sv l\<rparr>) = conn_run False e' (c\<lparr>cn_ep := sv_eps sv l\<rparr>)"
    and e': "conn_event_ok e' c" "\<forall>self cmds. e' \<noteq> Ev_established self cmds" "\<forall>cmds. e' \<noteq> Ev_destroyed cmds"
  shows "\<exists>sv'. http_conn_step cb p e sv = Some sv' \<and> http_inv sv'"
proof -
  have inv1: "server_inv sv" and ready: "http_ready c" using inv c by (auto simp: http_inv_def)
  have "server_event_ok (Sv_conn p e') sv" using c e' by auto
  from conn_event_step_ok [OF inv1 this, of False "[]"] obtain sv' where
    sv': "conn_event_step False [] p e' sv = Some sv'" "server_inv sv'" by blast
  obtain c' where c': "conn_run False e' (c\<lparr>cn_ep := sv_eps sv l\<rparr>) = Some c'" "sv_conns sv' = (sv_conns sv)(p \<mapsto> (l, c'))"
    using conn_event_conns [OF sv'(1) c] by blast
  have "cn_context c' = cn_context c" using conn_run_context [OF c'(1) e'(3)] by simp
  moreover have "open_state c' \<longrightarrow> open_state c"
    using conn_run_state [OF c'(1) e'(2,3)] by (auto simp: open_state_def state_advance_def)
  ultimately have "http_ready c'" using ready by (simp add: http_ready_def)
  then show ?thesis using http_inv_update [OF inv sv'(2) c'(2)] sv'(1) http_step_app [OF c run] by simp
qed

lemma http_conn_step_ok:
  assumes inv: "http_inv sv" and ev: "http_event_ok (Ht_conn p e) sv"
  shows "(\<exists>sv'. http_conn_step cb p e sv = Some sv' \<and> http_inv sv') \<or>
    (\<exists>t l c ctx. e = Ht_read t \<and> sv_conns sv p = Some (l, c) \<and> cn_context c = Some ctx \<and>
       parse_str t ctx (toString (cn_inputBuffer c) @ so_in (cn_socket c)) = Parse_abort \<and> http_conn_step cb p e sv = None)"
proof -
  obtain l c where c: "sv_conns sv p = Some (l, c)" and op: "(\<exists>t. e = Ht_read t) \<or> e = Ht_close \<longrightarrow> open_state c"
    using ev by auto
  have inv1: "server_inv sv" and ready: "http_ready c" using inv c by (auto simp: http_inv_def)
  have ci: "conn_inv (c\<lparr>cn_ep := sv_eps sv l\<rparr>)" using inv1 c by (auto simp: server_inv_def conns_ok_def)
  note quiet = http_quiet_ok [OF inv c]
  show ?thesis
  proof (cases e)
    case (Ht_read t)
    have st: "open_state c" using op Ht_read by simp
    then obtain ctx where ctx: "cn_context c = Some ctx" "is_parsing ctx" using ready by (auto simp: http_ready_def)
    have "buf_inv (cn_inputBuffer c)" using ci by (simp add: conn_inv_def conn_ok_def)
    from sys_readFd_drains [OF this] obtain n err b where
      r: "readFd sys_readv (cn_socket c) 0 (cn_inputBuffer c) = Some (n, err, b, (cn_socket c)\<lparr>so_in := []\<rparr>)"
      "buf_inv b" "toString b = toString (cn_inputBuffer c) @ so_in (cn_socket c)" by blast
    show ?thesis
    proof (cases "0 < n")
      case True
      note m = http_message_ok [OF inv1 c ctx r(1) True r(2,3), where t = t and cb = cb]
      show ?thesis
      proof (cases "parse_str t ctx (toString b)")
        case Parse_abort
        then show ?thesis using m Ht_read c ctx(1) r(3) by auto
      next
        case (Parse_return ok ctx' rest)
        then obtain sv' c' where "http_conn_step cb p (Ht_read t) sv = Some sv'" "server_inv sv'"
          "sv_conns sv' = (sv_conns sv)(p \<mapsto> (l, c'))" "http_ready c'" using m by auto
        then show ?thesis using http_inv_update [OF inv, of sv' p l c'] Ht_read by auto
      qed
    next
      case False
      have "http_run cb e (c\<lparr>cn_ep := sv_eps sv l\<rparr>) = conn_run False (Ev_read t []) (c\<lparr>cn_ep := sv_eps sv l\<rparr>)"
        using False r(1) by (cases "n = 0") (simp_all add: Ht_read conn_handleRead_def http_close Let_def)
      from quiet [OF this] st show ?thesis by simp
    qed
  next
    case Ht_write
    then show ?thesis using quiet [of cb e Ev_write] by (simp add: http_write)
  next
    case Ht_close
    then show ?thesis using quiet [of cb e Ev_close] op by (simp add: http_close)
  next
    case Ht_error
    then show ?thesis using quiet [of cb e Ev_error] by simp
  next
    case (Ht_arrive s closed)
    then show ?thesis using quiet [of cb e "Ev_arrive s closed"] by simp
  next
    case (Ht_answers as)
    then show ?thesis using quiet [of cb e "Ev_answers as"] by simp
  qed
qed

lemma with_conn_map:
  assumes "\<And>c. cn_ep (h c) = cn_ep c"
  shows "with_conn p (\<lambda>c. map_option h (f c)) sv = map_option (map_conn p h) (with_conn p f sv)"
proof (cases "sv_conns sv p")
  case (Some lc)
  obtain l c where lc: "lc = (l, c)" by (cases lc)
  show ?thesis using Some lc assms by (cases "f (c\<lparr>cn_ep := sv_eps sv l\<rparr>)") (simp_all add: with_conn_def map_conn_def)
qed (simp add: with_conn_def)

lemma http_established_task:
  "run_server_task (HttpServer_callbacks cb) (Sv_established p) sv =
     map_option (map_conn p (setContext HttpContext_new)) (run_server_task (app_cbs False []) (Sv_established p) sv)"
proof -
  have "connectionEstablished (HttpServer_callbacks cb) p =
      (\<lambda>c. map_option (setContext HttpContext_new) (connectionEstablished (app_cbs False []) p c))"
    by (simp add: fun_eq_iff http_established)
  then show ?thesis unfolding run_server_task_def by (simp add: with_conn_map setContext_def)
qed

lemma http_other_task:
  assumes "\<forall>p. t \<noteq> Sv_established p"
  shows "run_server_task (HttpServer_callbacks cb) t sv = run_server_task (app_cbs False []) t sv"
proof -
  have "connectionDestroyed (HttpServer_callbacks cb) = connectionDestroyed (app_cbs False [])"
    by (simp add: fun_eq_iff http_destroyed)
  then show ?thesis using assms by (cases t) (simp_all add: run_server_task_def)
qed

lemma established_conns:
  assumes "run_server_task cbs (Sv_established p) sv = Some sv'"
  shows "\<exists>l c'. sv_conns sv' = (sv_conns sv)(p \<mapsto> (l, c'))"
  using assms by (auto simp: run_server_task_def with_conn_def Option.bind_eq_Some_conv) blast

lemma other_task_conns:
  assumes "run_server_task cbs t sv = Some sv'" and "\<forall>p. t \<noteq> Sv_established p"
  shows "\<forall>q l c. sv_conns sv' q = Some (l, c) \<longrightarrow> sv_conns sv q = Some (l, c)"
  using assms by (cases t) (auto simp: run_server_task_def with_conn_def release_def removeConnectionInLoop_def
      sv_queueInLoop_def Option.bind_eq_Some_conv split: if_splits)

lemma http_ready_new: "http_ready (setContext HttpContext_new c)"
  by (simp add: http_ready_def setContext_def HttpContext_new_def)

lemma slight_context: "slight c (setContext x c)"
  unfolding slight_def setContext_def
  by (intro exI [of _ "cn_inputBuffer c"] exI [of _ "Some x"] exI [of _ "so_in (cn_socket c)"]
      exI [of _ "so_in_closed (cn_socket c)"]) simp

lemma http_established_ok:
  assumes "\<forall>q l c. sv_conns sv q = Some (l, c) \<longrightarrow> q \<noteq> p \<longrightarrow> http_ready c"
    and run: "run_server_task (app_cbs False []) (Sv_established p) sv = Some sv1" and inv: "server_inv sv1"
  shows "\<exists>sv'. run_server_task (HttpServer_callbacks cb) (Sv_established p) sv = Some sv' \<and> http_inv sv'"
proof -
  obtain l c1 where c1: "sv_conns sv1 = (sv_conns sv)(p \<mapsto> (l, c1))" using established_conns [OF run] by blast
  let ?sv = "map_conn p (setContext HttpContext_new) sv1"
  have "server_inv ?sv" by (rule map_conn_inv [OF inv slight_context])
  moreover have "\<forall>q m c. sv_conns ?sv q = Some (m, c) \<longrightarrow> http_ready c"
    using assms(1) c1 http_ready_new by auto
  ultimately show ?thesis unfolding http_established_task run by (simp add: http_inv_def del: map_conn_simps)
qed

lemma http_task_ok:
  assumes inv: "http_inv sv" and t: "sv_tasks sv m = t # ts"
  shows "\<exists>sv'. run_server_task (HttpServer_callbacks cb) t (sv\<lparr>sv_tasks := (sv_tasks sv)(m := ts)\<rparr>) = Some sv' \<and> http_inv sv'"
proof -
  let ?sv = "sv\<lparr>sv_tasks := (sv_tasks sv)(m := ts)\<rparr>"
  have si: "server_inv sv" and ready: "\<forall>p l c. sv_conns sv p = Some (l, c) \<longrightarrow> http_ready c" using inv by (auto simp: http_inv_def)
  obtain sv1 where sv1: "run_server_task (app_cbs False []) t ?sv = Some sv1" "server_inv sv1"
    using run_task_ok [OF si t, of False "[]"] by blast
  show ?thesis
  proof (cases "\<exists>p. t = Sv_established p")
    case True
    then obtain p where p: "t = Sv_established p" by blast
    show ?thesis unfolding p by (rule http_established_ok [OF _ sv1(1) [unfolded p] sv1(2)]) (use ready in auto)
  next
    case False
    then have n: "\<forall>p. t \<noteq> Sv_established p" by blast
    have "http_inv sv1" using sv1(2) ready other_task_conns [OF sv1(1) n] by (fastforce simp: http_inv_def)
    then show ?thesis unfolding http_other_task [OF n] using sv1(1) by simp
  qed
qed

lemma http_accept_ok:
  assumes inv: "http_inv sv" and ev: "http_event_ok (Ht_accept p fd peer sockname) sv"
  shows "\<exists>sv'. newConnection (HttpServer_callbacks cb) p sockname fd peer sv = Some sv' \<and> http_inv sv'"
proof -
  have si: "server_inv sv" and ready: "\<forall>p l c. sv_conns sv p = Some (l, c) \<longrightarrow> http_ready c" using inv by (auto simp: http_inv_def)
  obtain l pool where n: "getNextLoop (sv_pool sv) = Some (l, pool)"
    using getNextLoop_ok [of "sv_pool sv"] si by (auto simp: server_inv_def)
  let ?name = "sv_name sv @ snprintf 32 (''#'' @ dec (sv_nextConnectionId sv))"
  let ?c = "TcpConnection_new ?name p fd (getLocalAddress sockname) peer (sv_eps sv l) :: http_context connection"
  let ?sv = "sv\<lparr>sv_nextConnectionId := sv_nextConnectionId sv + 1, sv_pool := pool, sv_conns := (sv_conns sv)(p \<mapsto> (l, ?c)),
      sv_eps := (sv_eps sv)(l := cn_ep ?c), sv_connectionMap := (sv_connectionMap sv)(?name \<mapsto> p),
      sv_os := setTcpNoDelay True (Socket_new fd) (sv_os sv)\<rparr>"
  have run: "newConnection cbs p sockname fd peer sv = sv_runInLoop cbs (sv_loop sv) l (Sv_established p) ?sv" for cbs
    using n by (simp add: newConnection_def Let_def)
  obtain sv1 where sv1: "newConnection (app_cbs False []) p sockname fd peer sv = Some sv1" "server_inv sv1"
    using accept_ok [OF si, of p fd False "[]" sockname peer] ev by auto
  have others: "\<forall>q m c. sv_conns ?sv q = Some (m, c) \<longrightarrow> q \<noteq> p \<longrightarrow> http_ready c" using ready by auto
  show ?thesis
  proof (cases "sv_loop sv = l")
    case True
    then have "run_server_task (app_cbs False []) (Sv_established p) ?sv = Some sv1"
      using sv1(1) unfolding run by (simp add: sv_runInLoop_def)
    from http_established_ok [OF others this sv1(2), of cb] show ?thesis unfolding run using True by (simp add: sv_runInLoop_def)
  next
    case False
    then have q: "sv_queueInLoop l (Sv_established p) ?sv = sv1" using sv1(1) unfolding run by (simp add: sv_runInLoop_def)
    have "sv_conns sv1 = (sv_conns sv)(p \<mapsto> (l, ?c))" unfolding q [symmetric] by (simp add: sv_queueInLoop_def)
    moreover have "http_ready ?c" by (simp add: http_ready_def open_state_def TcpConnection_new_def)
    ultimately have "http_inv sv1" using http_inv_update [OF inv sv1(2)] by blast
    then show ?thesis unfolding run using False q by (simp add: sv_runInLoop_def)
  qed
qed

lemma http_step_ok:
  assumes "http_inv sv" and "http_event_ok e sv"
  shows "(\<exists>sv'. http_step cb e sv = Some sv' \<and> http_inv sv') \<or>
    (\<exists>p t l c ctx. e = Ht_conn p (Ht_read t) \<and> sv_conns sv p = Some (l, c) \<and> cn_context c = Some ctx \<and>
       parse_str t ctx (toString (cn_inputBuffer c) @ so_in (cn_socket c)) = Parse_abort \<and> http_step cb e sv = None)"
proof (cases e)
  case (Ht_accept p fd peer sockname)
  then show ?thesis using http_accept_ok [OF assms(1), of p fd peer sockname cb] assms(2) by simp
next
  case (Ht_loop m)
  show ?thesis
  proof (cases "sv_tasks sv m")
    case (Cons t ts)
    then show ?thesis using http_task_ok [OF assms(1) Cons, of cb] Ht_loop by simp
  qed (use Ht_loop assms(1) in simp)
next
  case (Ht_conn p ev)
  then show ?thesis using http_conn_step_ok [OF assms(1), of p ev cb] assms(2) by auto
qed

subsection \<open>Runs from the start\<close>

definition http_moves :: "http_callback option \<Rightarrow> http_context server \<Rightarrow> http_context server \<Rightarrow> bool" where
  "http_moves cb sv sv' \<longleftrightarrow> (\<exists>e. http_event_ok e sv \<and> http_step cb e sv = Some sv')"

lemma http_moves_keep: "http_moves cb sv sv' \<Longrightarrow> http_inv sv \<Longrightarrow> http_inv sv'"
  unfolding http_moves_def using http_step_ok by (metis option.distinct(1) option.inject)

interpretation http_runs: step_invariant "http_moves cb" http_inv
  by unfold_locales (rule http_moves_keep)

lemma HttpServer_new_inv: "http_inv (HttpServer_new name base)"
  using TcpServer_new_inv by (simp add: http_inv_def HttpServer_new_def) (simp add: TcpServer_new_def)

lemma http_inv_pool: "http_inv sv \<Longrightarrow> pool_ok po \<Longrightarrow> http_inv (sv\<lparr>sv_pool := po, sv_started := n\<rparr>)"
proof -
  assume a: "http_inv sv" "pool_ok po"
  let ?sv = "sv\<lparr>sv_pool := po, sv_started := n\<rparr>"
  have e: "expected ?sv m t = expected sv m t" for m t by (rule expected_cong) simp_all
  have nm: "name_of ?sv = name_of sv" by (auto simp: name_of_def)
  have "tasks_ok ?sv" using a(1) unfolding tasks_ok_def e by (simp add: http_inv_def server_inv_def tasks_ok_def)
  moreover have "names_ok ?sv" using a(1) unfolding names_ok_def nm by (simp add: http_inv_def server_inv_def names_ok_def conn_name_def)
  ultimately show ?thesis using a by (simp add: http_inv_def server_inv_def eps_ok_def conns_ok_def)
qed

lemma start_threads_next: "po_next (start_threads f cb is po) = po_next po"
  by (induction "is" arbitrary: po) simp_all

text \<open>The timer of \<^verbatim>\<open>main\<close> is due at once.\<close>

definition main_timers :: "(nat \<Rightarrow> int) \<Rightarrow> (nat \<Rightarrow> nat) \<Rightarrow> timer_queue" where
  "main_timers clock addrs = (TimerQueue_new clock addrs)\<lparr>
     tq_heap := (tq_heap (TimerQueue_new clock addrs))(addrs 0 := Timer_new (Timer_cb []) (clock 0) 2000000 1),
     tq_timers := [(clock 0, addrs 0)], tq_active := [(addrs 0, 1)], tq_armed := Some (clock 1, howMuchTimeFromNow (clock 0) (clock 1)),
     tq_created := 1, tq_clock := (\<lambda>i. clock (i + 2)), tq_addrs := (\<lambda>i. addrs (Suc i))\<rparr>"

lemma runEvery_main: "runEvery 2000000 (Timer_cb []) (TimerQueue_new clock addrs) = Some (addrs 0, main_timers clock addrs)"
  by (simp add: runEvery_def Timer_now_def addTimer_def addTimerInLoop_def timer_insert_def oset_insert_def same_size_def Let_def
      TimerQueue_new_def main_timers_def resetTimerfd_def Timer_new_def)

text \<open>A server that has been started keeps its books from the start; a negative number of threads stops \<^verbatim>\<open>main\<close>.\<close>

lemma tinyws_main_ok:
  "tinyws_main thread_loop base clock addrs numbers = (if numbers \<noteq> [] \<and> hd numbers < 0 then None
     else Some (InternetAddress_port (word_of_int (if length numbers > 1 then numbers ! 1 else 19123)), True,
       snd (the (HttpServer_start thread_loop (the (HttpServer_setThreadNum (if numbers = [] then 0 else hd numbers)
         (HttpServer_new ''tinyWS'' base))))), addrs 0, main_timers clock addrs))"
  by (cases numbers) (auto simp: tinyws_main_def runEvery_main HttpServer_setThreadNum_def HttpServer_start_def HttpServer_new_def
      TcpServer_new_def setThreadNumber_def setThreadNum_def server_start_def getAndSet_def atomic_new_def loop_pool_start_def
      EventLoopThreadPool_new_def Let_def hd_conv_nth)

lemma tinyws_main_inv: "tinyws_main thread_loop base clock addrs numbers = Some (addr, listening, sv, timers) \<Longrightarrow> http_inv sv"
proof -
  assume m: "tinyws_main thread_loop base clock addrs numbers = Some (addr, listening, sv, timers)"
  let ?n = "if numbers = [] then 0 else hd numbers" and ?new = "HttpServer_new ''tinyWS'' base"
  have n: "0 \<le> ?n" using m by (auto simp: tinyws_main_ok split: if_splits)
  let ?po = "EventLoopThreadPool_new base\<lparr>po_numThreads := nat ?n, po_started := True\<rparr>"
  let ?po1 = "start_threads thread_loop False [0..<nat ?n] ?po"
  have "sv = ?new\<lparr>sv_pool := ?po1, sv_started := 1\<rparr>"
    using m n by (auto simp: tinyws_main_ok HttpServer_setThreadNum_def HttpServer_start_def HttpServer_new_def TcpServer_new_def
        setThreadNumber_def setThreadNum_def server_start_def getAndSet_def atomic_new_def loop_pool_start_def
        EventLoopThreadPool_new_def Let_def split: if_splits)
  moreover have "po_next ?po1 = 0" unfolding start_threads_next by (simp add: EventLoopThreadPool_new_def)
  then have "pool_ok ?po1" by (auto simp: pool_ok_def)
  ultimately show ?thesis using http_inv_pool [OF HttpServer_new_inv] by simp
qed



end
