(* ===== verification/MainTimer.thy ===== *)
theory MainTimer
  imports HttpLife
begin

text \<open>
  The timer \<^verbatim>\<open>main.cpp\<close> sets with \<^verbatim>\<open>runEvery\<close>, the only one of its loop: rounds of \<open>TimerQueue\<close> with one repeating timer
  whose callback leaves the queue alone.
\<close>

definition one_timer :: "nat \<Rightarrow> int \<Rightarrow> int \<Rightarrow> int \<Rightarrow> timer_queue \<Rightarrow> bool" where
  "one_timer p due interval s q \<longleftrightarrow>
     tq_timers q = [(due, p)] \<and> tq_active q = [(p, s)] \<and>
     tq_heap q p = \<lparr>tm_callback = Timer_cb [], tm_expiredTime = due, tm_interval = interval, tm_repeat = True, tm_sequence = s\<rparr>"

lemma one_timer_getExpired:
  assumes "one_timer p due interval s q" and "due < now"
  shows "getExpired now q = Some ([(due, p)], q\<lparr>tq_timers := [], tq_active := []\<rparr>)"
  using assms by (simp add: one_timer_def getExpired_def same_size_def oset_below_def oset_from_def oset_erase_def Let_def)

lemma one_timer_early:
  assumes "one_timer p due interval s q" and "due = now"
  shows "getExpired now q = None"
  using assms by (simp add: one_timer_def getExpired_def same_size_def oset_below_def oset_from_def Let_def)

text \<open>One round: the timer runs, is due again one interval after the round's start, and the descriptor is armed for then
  unless the clock has passed it.\<close>

lemma one_timer_round:
  assumes one: "one_timer p due interval s q" and due: "due < tq_clock q 0"
  shows "\<exists>q'. handleRead q = Some q' \<and> one_timer p (tq_clock q 0 + interval) interval s q' \<and> tq_ran q' = tq_ran q @ [p] \<and>
    (if tq_clock q 1 \<le> tq_clock q 0 + interval
     then tq_armed q' = Some (tq_clock q 2, howMuchTimeFromNow (tq_clock q 0 + interval) (tq_clock q 2)) \<and>
       tq_clock q' = (\<lambda>i. tq_clock q (i + 3))
     else tq_armed q' = None)"
proof -
  let ?now = "tq_clock q 0" and ?q0 = "readTimerfd (q\<lparr>tq_clock := (\<lambda>i. tq_clock q (Suc i))\<rparr>)"
  have one0: "one_timer p due interval s ?q0" using one by (simp add: one_timer_def readTimerfd_def)
  let ?q1 = "?q0\<lparr>tq_timers := [], tq_active := [], tq_canceling := [], tq_expired := [(due, p)], tq_ran := tq_ran q @ [p],
      tq_callingExpiredTimers := False\<rparr>"
  let ?q2 = "?q1\<lparr>tq_heap := (tq_heap q)(p := (tq_heap q p)\<lparr>tm_expiredTime := ?now + interval\<rparr>),
      tq_timers := [(?now + interval, p)], tq_active := [(p, s)]\<rparr>"
  have "reinsert ?now [(due, p)] ?q1 = Some ?q2"
    using one by (simp add: one_timer_def restart_def timer_insert_def oset_insert_def same_size_def readTimerfd_def Let_def)
  then have "timer_reset [(due, p)] ?now ?q1 =
      (let (now', q2) = Timer_now ?q2
       in if now' \<le> ?now + interval then Some (resetTimerfd (?now + interval) q2) else Some q2)"
    using one by (simp add: timer_reset_def one_timer_def timer_isValid_def readTimerfd_def Timer_now_def Let_def)
  moreover have "handleRead q = Option.bind (timer_reset [(due, p)] ?now ?q1) (\<lambda>q3. Some (q3\<lparr>tq_expired := []\<rparr>))"
    using one one_timer_getExpired [OF one0 due]
    by (simp add: handleRead_def Timer_now_def timer_run_def one_timer_def readTimerfd_def)
  ultimately show ?thesis using one
    by (simp add: one_timer_def Timer_now_def resetTimerfd_def readTimerfd_def numeral_2_eq_2 numeral_3_eq_3)
qed

lemma one_timer_exact:
  assumes "one_timer p due interval s q" and "due = tq_clock q 0"
  shows "handleRead q = None"
proof -
  have "one_timer p due interval s (readTimerfd (q\<lparr>tq_clock := (\<lambda>i. tq_clock q (Suc i))\<rparr>))"
    using assms(1) by (simp add: one_timer_def readTimerfd_def)
  from one_timer_early [OF this assms(2)] show ?thesis by (simp add: handleRead_def Timer_now_def)
qed

fun timer_rounds :: "nat \<Rightarrow> timer_queue \<Rightarrow> timer_queue option" where
  "timer_rounds 0 q = Some q"
| "timer_rounds (Suc n) q = do { q' \<leftarrow> timer_rounds n q; handleRead q' }"

text \<open>When the timer of \<^verbatim>\<open>main\<close> is due for the \<open>n\<close>th round, and the readings of the clock in that round.\<close>

definition round_start :: "(nat \<Rightarrow> int) \<Rightarrow> nat \<Rightarrow> int" where
  "round_start clock n = clock (2 + 3 * n)"

definition round_due :: "(nat \<Rightarrow> int) \<Rightarrow> nat \<Rightarrow> int" where
  "round_due clock n = (if n = 0 then clock 0 else round_start clock (n - 1) + 2000000)"

definition round_fine :: "(nat \<Rightarrow> int) \<Rightarrow> nat \<Rightarrow> bool" where
  "round_fine clock n \<longleftrightarrow> round_due clock n < round_start clock n \<and> clock (3 + 3 * n) \<le> round_start clock n + 2000000"

lemma main_rounds:
  "\<forall>i < n. round_fine clock i \<Longrightarrow> \<exists>q. timer_rounds n (main_timers clock addrs) = Some q \<and>
    one_timer (addrs 0) (round_due clock n) 2000000 1 q \<and> tq_ran q = replicate n (addrs 0) \<and>
    tq_clock q = (\<lambda>i. clock (i + 2 + 3 * n)) \<and>
    (\<exists>now. tq_armed q = Some (now, howMuchTimeFromNow (round_due clock n) now) \<and> now = clock (if n = 0 then 1 else 1 + 3 * n))"
proof (induction n)
  case 0
  show ?case by (simp add: main_timers_def one_timer_def TimerQueue_new_def Timer_new_def round_due_def)
next
  case (Suc n)
  then obtain q where q: "timer_rounds n (main_timers clock addrs) = Some q" "one_timer (addrs 0) (round_due clock n) 2000000 1 q"
    "tq_ran q = replicate n (addrs 0)" "tq_clock q = (\<lambda>i. clock (i + 2 + 3 * n))" by auto
  have c: "tq_clock q 0 = round_start clock n" "tq_clock q 1 = clock (3 + 3 * n)" "tq_clock q 2 = clock (4 + 3 * n)"
    using q(4) by (simp_all add: round_start_def eval_nat_numeral)
  have f: "round_due clock n < tq_clock q 0" "tq_clock q 1 \<le> tq_clock q 0 + 2000000"
    using Suc.prems c by (auto simp: round_fine_def)
  from one_timer_round [OF q(2) f(1)] f(2) obtain q' where q': "handleRead q = Some q'"
    "one_timer (addrs 0) (tq_clock q 0 + 2000000) 2000000 1 q'" "tq_ran q' = tq_ran q @ [addrs 0]"
    "tq_armed q' = Some (tq_clock q 2, howMuchTimeFromNow (tq_clock q 0 + 2000000) (tq_clock q 2))"
    "tq_clock q' = (\<lambda>i. tq_clock q (i + 3))" by auto
  have d: "round_due clock (Suc n) = tq_clock q 0 + 2000000" using c by (simp add: round_due_def)
  have "tq_clock q' = (\<lambda>i. clock (i + 2 + 3 * Suc n))" unfolding q'(5) q(4) by (simp add: algebra_simps)
  moreover have "tq_ran q' = replicate (Suc n) (addrs 0)" using q'(3) q(3) by (simp add: replicate_append_same)
  ultimately show ?case using q(1) q'(1,2,4) d c(3) by (simp add: algebra_simps)
qed

text \<open>C25: The two-second timer of \<^verbatim>\<open>main\<close> lives dangerously. As long as each round starts after the timer is due and ends within two
  seconds, it runs once a round and the descriptor is armed for two seconds after the round's start, or 100 microseconds after
  the clock was read when that is later. A round that takes longer than two seconds (the callback writes to the standard output,
  which may block) runs it too, but leaves the descriptor disarmed with the timer pending: it never runs again. A round that
  starts in the microsecond in which the timer is due fails an assertion.\<close>

theorem main_timer_rounds:
  assumes "tinyws_main thread_loop base clock addrs numbers = Some (addr, listening, sv, timer, q0)"
    and "\<forall>i < n. round_fine clock i"
  shows "\<exists>q a. timer_rounds n q0 = Some q \<and> tq_ran q = replicate n timer \<and> tq_timers q = [(round_due clock n, timer)] \<and>
    tq_armed q = Some a \<and> deadline a = max (round_due clock n) (clock (1 + 3 * n) + 100) \<and>
    (round_start clock n = round_due clock n \<longrightarrow> handleRead q = None) \<and>
    (round_due clock n < round_start clock n \<and> round_start clock n + 2000000 < clock (3 + 3 * n) \<longrightarrow>
      (\<exists>q'. handleRead q = Some q' \<and> tq_ran q' = replicate (Suc n) timer \<and>
        tq_timers q' = [(round_start clock n + 2000000, timer)] \<and> tq_armed q' = None))"
proof -
  have t: "timer = addrs 0" "q0 = main_timers clock addrs" using assms(1) by (auto simp: tinyws_main_ok split: if_splits)
  obtain q where q: "timer_rounds n q0 = Some q" "one_timer timer (round_due clock n) 2000000 1 q" "tq_ran q = replicate n timer"
    "tq_clock q = (\<lambda>i. clock (i + 2 + 3 * n))"
    "tq_armed q = Some (clock (1 + 3 * n), howMuchTimeFromNow (round_due clock n) (clock (1 + 3 * n)))"
    using main_rounds [OF assms(2), of addrs] t by auto
  have c: "tq_clock q 0 = round_start clock n" "tq_clock q 1 = clock (3 + 3 * n)" using q(4) by (simp_all add: round_start_def eval_nat_numeral)
  have e: "round_start clock n = round_due clock n \<longrightarrow> handleRead q = None" using one_timer_exact [OF q(2)] c by simp
  have late: "\<exists>q'. handleRead q = Some q' \<and> tq_ran q' = replicate (Suc n) timer \<and>
      tq_timers q' = [(round_start clock n + 2000000, timer)] \<and> tq_armed q' = None"
    if "round_due clock n < round_start clock n \<and> round_start clock n + 2000000 < clock (3 + 3 * n)"
    using one_timer_round [OF q(2)] that q(3) c by (auto simp: one_timer_def replicate_append_same)
  show ?thesis using q e late by (auto simp: one_timer_def deadline_howMuch)
qed

text \<open>A clock that goes on by one and a half seconds between any two readings: the first round is fine.
\<close>

theorem main_timer_rounds_witness:
  "\<exists>addr sv q0 q a. tinyws_main (\<lambda>i. 10 + i) 1 (\<lambda>i. 1500000 * int i) Suc [2] = Some (addr, True, sv, 1, q0) \<and>
    timer_rounds 1 q0 = Some q \<and> tq_ran q = [1] \<and> tq_armed q = Some a \<and> deadline a = 6000100"
proof -
  let ?clock = "\<lambda>i. 1500000 * int i"
  obtain addr sv q0 where m: "tinyws_main (\<lambda>i. 10 + i) 1 ?clock Suc [2] = Some (addr, True, sv, 1, q0)"
    by (simp add: tinyws_main_ok)
  have "\<forall>i < 1. round_fine ?clock i" by (simp add: round_fine_def round_due_def round_start_def)
  from main_timer_rounds [OF m this] m show ?thesis by (auto simp: round_due_def round_start_def)
qed

end
