(* ===== verification/Snapshot.thy ===== *)
theory Snapshot
  imports HttpLife Utilities
begin

text \<open>
  \<^verbatim>\<open>mutlithread-6.27\<close>: the operations in which the older snapshot of the multi-reactor server differs from the current
  one, and how the two are related. What is not here is the same in both, up to names and comments.
\<close>

subsection \<open>Socket and Acceptor\<close>

text \<open>\<^verbatim>\<open>accept\<close> has no \<^verbatim>\<open>return\<close> after an error: \<open>None\<close>.\<close>

definition accept_627 :: "(int \<times> sockaddr_in) + int \<Rightarrow> sockaddr_in \<Rightarrow> (int \<times> sockaddr_in) option" where
  "accept_627 answer peerAddress = (case answer of
     Inl (fd, address) \<Rightarrow> Some (fd, setSockAddrInternet address peerAddress)
   | Inr savedErrno \<Rightarrow> None)"

text \<open>One connection for each event. The descriptors closed again and the world after the callback are returned.\<close>

definition hadleRead_627 :: "(int \<times> sockaddr_in) + int \<Rightarrow> sockaddr_in \<Rightarrow>
    (int \<Rightarrow> sockaddr_in \<Rightarrow> 'w \<Rightarrow> 'w option) option \<Rightarrow> 'w \<Rightarrow> (int list \<times> 'w) option" where
  "hadleRead_627 answer peerAddress newConnectionCallback w = do {
     (fd, peer) \<leftarrow> accept_627 answer peerAddress;
     if fd \<ge> 0
     then (case newConnectionCallback of
         Some f \<Rightarrow> do { w' \<leftarrow> f fd peer w; Some ([], w') }
       | None \<Rightarrow> Some ([fd], w))
     else Some ([], w) }"

text \<open>The poller is level-triggered: it reports the listener again as long as connections are waiting.\<close>

fun accept_events_627 :: "(int \<times> sockaddr_in) list \<Rightarrow> sockaddr_in \<Rightarrow> (int \<Rightarrow> sockaddr_in \<Rightarrow> 'w \<Rightarrow> 'w option) option
    \<Rightarrow> 'w \<Rightarrow> (int list \<times> 'w) option" where
  "accept_events_627 [] peerAddress cb w = Some ([], w)"
| "accept_events_627 (c # cs) peerAddress cb w = do {
     (closed, w1) \<leftarrow> hadleRead_627 (Inl c) peerAddress cb w;
     (closed', w2) \<leftarrow> accept_events_627 cs peerAddress cb w1;
     Some (closed @ closed', w2) }"

lemma accept_events_run:
  assumes "\<forall>(fd, a) \<in> set cs. 0 < fd"
  shows "hadleRead (map Inl cs @ Inr err # rest) peer cb w = accept_events_627 cs peerAddress cb w"
  using assms
proof (induction cs arbitrary: peer w)
  case (Cons c cs)
  obtain fd a where c: "c = (fd, a)" by (cases c)
  then have "0 < fd" using Cons.prems by simp
  then have new: "hadleRead (map Inl (c # cs) @ Inr err # rest) peer cb w = (case cb of
      Some f \<Rightarrow> do { w' \<leftarrow> f fd a w; hadleRead (map Inl cs @ Inr err # rest) a cb w' }
    | None \<Rightarrow> do { (closed, w') \<leftarrow> hadleRead (map Inl cs @ Inr err # rest) a cb w; Some (fd # closed, w') })"
    by (simp add: c socket_accept_def setSockAddrInternet_def split: option.split)
  have ih: "hadleRead (map Inl cs @ Inr err # rest) a cb w' = accept_events_627 cs peerAddress cb w'" for w'
    using Cons by simp
  show ?case unfolding new ih
  proof (cases cb)
    case None
    then show "(case cb of Some f \<Rightarrow> do { w' \<leftarrow> f fd a w; accept_events_627 cs peerAddress cb w' }
        | None \<Rightarrow> do { (closed, w') \<leftarrow> accept_events_627 cs peerAddress cb w; Some (fd # closed, w') }) =
        accept_events_627 (c # cs) peerAddress cb w"
      using \<open>0 < fd\<close> by (simp add: c hadleRead_627_def accept_627_def)
  next
    case (Some f)
    have id: "do { (closed', w2) \<leftarrow> r; Some (closed', w2) } = r" for r :: "(int list \<times> 'a) option"
      by (cases r) auto
    show "(case cb of Some f \<Rightarrow> do { w' \<leftarrow> f fd a w; accept_events_627 cs peerAddress cb w' }
        | None \<Rightarrow> do { (closed, w') \<leftarrow> accept_events_627 cs peerAddress cb w; Some (fd # closed, w') }) =
        accept_events_627 (c # cs) peerAddress cb w"
      using Some \<open>0 < fd\<close> by (cases "f fd a w") (simp_all add: c hadleRead_627_def accept_627_def setSockAddrInternet_def id)
  qed
qed (simp add: socket_accept_def)

text \<open>C32: The rewritten acceptor does in one event what the old one did in as many as there are connections waiting:
  the same connections handed over in the same order, the same descriptors closed. Only the ends differ: when nothing is waiting (any
  more) the old one runs off the end of \<^verbatim>\<open>accept\<close>, the new one returns; and a connection on descriptor 0 is handed over by the
  old one, while the new one takes it for the end.\<close>

theorem acceptor_rewrite:
  assumes "\<forall>(fd, a) \<in> set cs. 0 < fd"
  shows "hadleRead (map Inl cs @ Inr err # rest) peer cb w = accept_events_627 cs peer cb w \<and>
    hadleRead_627 (Inr err) peer cb w = None \<and>
    hadleRead_627 (Inl (0, a)) peer (Some f) w = map_option (Pair []) (f 0 a w) \<and>
    hadleRead (Inl (0, a) # rest) peer (Some f) w = Some ([], w)"
proof -
  have "hadleRead_627 (Inl (0, a)) peer (Some f) w = map_option (Pair []) (f 0 a w)"
    by (cases "f 0 a w") (simp_all add: hadleRead_627_def accept_627_def setSockAddrInternet_def)
  then show ?thesis using accept_events_run [OF assms]
    by (simp add: socket_accept_def hadleRead_627_def accept_627_def)
qed

theorem acceptor_rewrite_witness:
  "hadleRead [Inl (7, zero_address), Inl (8, zero_address), Inr 11] zero_address (Some (\<lambda>fd a w. Some (w @ [fd]))) [] = Some ([], [7, 8]) \<and>
   accept_events_627 [(7, zero_address), (8, zero_address)] zero_address (Some (\<lambda>fd a w. Some (w @ [fd]))) [] = Some ([], [7, 8])"
proof -
  have "accept_events_627 [(7, zero_address), (8, zero_address)] zero_address (Some (\<lambda>fd a w. Some (w @ [fd]))) [] = Some ([], [7, 8])"
    by (simp add: hadleRead_627_def accept_627_def)
  then show ?thesis
    using acceptor_rewrite [of "[(7, zero_address), (8, zero_address)]" 11 "[]" zero_address "Some (\<lambda>fd a w. Some (w @ [fd]))" "[]"]
    by simp
qed

subsection \<open>TcpConnection and HttpServer\<close>

text \<open>A callback is called without a test whether it is set; an empty one throws.\<close>

definition connectionEstablished_627 :: "'c conn_callbacks \<Rightarrow> nat \<Rightarrow> 'c connection \<Rightarrow> 'c connection option" where
  "connectionEstablished_627 cbs self c = do {
     assertion (cn_state c = kConnecting);
     let c1 = setState kConnected c;
     let c2 = c1\<lparr>cn_ep := put_channel (cn_channel c1) (channel_tie self (conn_channel c1)) (cn_ep c1)\<rparr>;
     c3 \<leftarrow> on_channel enableReading c2;
     connectionCallback \<leftarrow> cb_connection cbs;
     connectionCallback c3 }"

definition connectionDestroyed_627 :: "'c conn_callbacks \<Rightarrow> 'c connection \<Rightarrow> 'c connection option" where
  "connectionDestroyed_627 cbs c = do {
     c1 \<leftarrow> (if cn_state c = kConnected
           then do {
             c' \<leftarrow> on_channel disableAll (setState kDisconnected c);
             connectionCallback \<leftarrow> cb_connection cbs;
             connectionCallback c' }
           else Some c);
     on_channel channel_remove c1 }"

definition handleClose_627 :: "'c conn_callbacks \<Rightarrow> 'c connection \<Rightarrow> 'c connection option" where
  "handleClose_627 cbs c = do {
     assertion (cn_state c = kConnected \<or> cn_state c = kDisconnecting);
     c1 \<leftarrow> on_channel disableAll (setState kDisconnected c);
     closeCallback \<leftarrow> cb_close cbs;
     closeCallback c1 }"

definition conn_handleRead_627 :: "'c conn_callbacks \<Rightarrow> int \<Rightarrow> 'c connection \<Rightarrow> 'c connection option" where
  "conn_handleRead_627 cbs receiveTime c = do {
     (n, err, b, so) \<leftarrow> readFd sys_readv (cn_socket c) 0 (cn_inputBuffer c);
     let c1 = c\<lparr>cn_inputBuffer := b, cn_socket := so\<rparr>;
     if 0 < n then do { messageCallback \<leftarrow> cb_message cbs; messageCallback receiveTime c1 }
     else if n = 0 then handleClose_627 cbs c1
     else Some (handleError (conn_log_error c1)) }"

text \<open>\<^verbatim>\<open>context_\<close> is an \<^verbatim>\<open>HttpContext\<close>, there from the start.\<close>

definition TcpConnection_new_627 :: "string \<Rightarrow> nat \<Rightarrow> int \<Rightarrow> sockaddr_in \<Rightarrow> sockaddr_in \<Rightarrow> epoll \<Rightarrow> http_context connection" where
  "TcpConnection_new_627 name p fd localAddress peerAddress ep =
     setContext HttpContext_new (TcpConnection_new name p fd localAddress peerAddress ep)"

definition getMutableContext_627 :: "http_context connection \<Rightarrow> http_context" where
  "getMutableContext_627 c = the (cn_context c)"

definition onMessage_627 :: "http_context conn_callbacks \<Rightarrow> http_callback option \<Rightarrow> int
    \<Rightarrow> http_context connection \<Rightarrow> http_context connection option" where
  "onMessage_627 cbs cb receiveTime c = do {
     r \<leftarrow> parseRequest receiveTime (getMutableContext_627 c) (cn_inputBuffer c);
     case r of
       Parse_abort \<Rightarrow> None
     | Parse_return ok context' b \<Rightarrow> do {
         let c1 = c\<lparr>cn_inputBuffer := b, cn_context := Some context'\<rparr>;
         c2 \<leftarrow> (if \<not> ok
               then do { c' \<leftarrow> conn_send cbs True bad_request c1; conn_shutdown True c' }
               else Some c1);
         if gotAll context'
         then do {
           c3 \<leftarrow> onRequest cbs cb (hc_request context') c2;
           Some (c3\<lparr>cn_context := Some (HttpContext_reset context')\<rparr>) }
         else Some c2 } }"

definition HttpServer_callbacks_627 :: "http_callback option \<Rightarrow> http_context conn_callbacks" where
  "HttpServer_callbacks_627 cb =
     \<lparr>cb_connection = Some onConnection, cb_message = Some (onMessage_627 (quiet_cbs False) cb),
      cb_close = Some Some, cb_writeComplete = False\<rparr>"

text \<open>What happens to a connection of the snapshot.\<close>

fun http_run_627 :: "http_callback option \<Rightarrow> http_event \<Rightarrow> http_context connection \<Rightarrow> http_context connection option" where
  "http_run_627 cb (Ht_read t) c = conn_handleRead_627 (HttpServer_callbacks_627 cb) t c"
| "http_run_627 cb Ht_close c = handleClose_627 (HttpServer_callbacks_627 cb) c"
| "http_run_627 cb e c = http_run cb e c"

lemma onMessage_same: "cn_context c \<noteq> None \<Longrightarrow> onMessage_627 cbs cb t c = onMessage cbs cb t c"
  by (auto simp: onMessage_627_def onMessage_def getMutableContext_627_def)

lemma handleClose_same: "handleClose_627 (HttpServer_callbacks_627 cb) c = handleClose (HttpServer_callbacks cb) c"
  by (simp add: handleClose_627_def handleClose_def HttpServer_callbacks_627_def HttpServer_callbacks_def)

lemma message_callbacks:
  "cb_message (HttpServer_callbacks_627 cb) = Some (onMessage_627 (quiet_cbs False) cb)"
  "cb_message (HttpServer_callbacks cb) = Some (onMessage (quiet_cbs False) cb)"
  by (simp_all add: HttpServer_callbacks_627_def HttpServer_callbacks_def)

lemma http_run_same: "cn_context c \<noteq> None \<Longrightarrow> http_run_627 cb e c = http_run cb e c"
proof (cases e)
  case (Ht_read t)
  assume "cn_context c \<noteq> None"
  then have "onMessage_627 cbs cb t (c\<lparr>cn_inputBuffer := b, cn_socket := so\<rparr>) = onMessage cbs cb t (c\<lparr>cn_inputBuffer := b, cn_socket := so\<rparr>)"
    for cbs b so by (intro onMessage_same) simp
  then show ?thesis unfolding Ht_read
    by (cases "readFd sys_readv (cn_socket c) 0 (cn_inputBuffer c)")
      (auto simp: conn_handleRead_627_def conn_handleRead_def handleClose_same message_callbacks Let_def)
qed (simp_all add: handleClose_same)

lemma conn_send_context: "conn_send cbs il m c = Some c' \<Longrightarrow> cn_context c' = cn_context c"
  by (auto simp: conn_send_def conn_queueInLoop_def dest: sendInLoop_context split: if_splits)

lemma onMessage_context: "onMessage cbs cb t c = Some c' \<Longrightarrow> cn_context c' \<noteq> None"
proof -
  assume run: "onMessage cbs cb t c = Some c'"
  then obtain ctx r where p: "cn_context c = Some ctx" "parseRequest t ctx (cn_inputBuffer c) = Some r"
    by (auto simp: onMessage_def Option.bind_eq_Some_conv)
  then obtain ok ctx' b where r: "r = Parse_return ok ctx' b" using run by (cases r) (simp_all add: onMessage_def)
  let ?c1 = "c\<lparr>cn_inputBuffer := b, cn_context := Some ctx'\<rparr>"
  obtain c2 where c2: "(if \<not> ok then do { c' \<leftarrow> conn_send cbs True bad_request ?c1; conn_shutdown True c' } else Some ?c1) = Some c2"
    and rest: "(if gotAll ctx' then do { c3 \<leftarrow> onRequest cbs cb (hc_request ctx') c2; Some (c3\<lparr>cn_context := Some (HttpContext_reset ctx')\<rparr>) }
      else Some c2) = Some c'"
    using run p r by (auto simp: onMessage_def Let_def Option.bind_eq_Some_conv)
  have "cn_context c2 = Some ctx'"
    using c2 by (auto simp: Option.bind_eq_Some_conv dest!: conn_send_context conn_shutdown_context split: if_splits)
  then show ?thesis using rest by (auto simp: Option.bind_eq_Some_conv split: if_splits)
qed

lemma http_run_context:
  assumes "http_run cb e c = Some c'" and "cn_context c \<noteq> None"
  shows "cn_context c' \<noteq> None"
proof (cases e)
  case (Ht_read t)
  obtain n err b so where r: "readFd sys_readv (cn_socket c) 0 (cn_inputBuffer c) = Some (n, err, b, so)"
    using assms(1) Ht_read by (auto simp: conn_handleRead_def Option.bind_eq_Some_conv)
  let ?c1 = "c\<lparr>cn_inputBuffer := b, cn_socket := so\<rparr>"
  consider "0 < n" "onMessage (quiet_cbs False) cb t ?c1 = Some c'" | "handleClose (HttpServer_callbacks cb) ?c1 = Some c'"
    | "handleError (conn_log_error ?c1) = c'"
    using assms(1) Ht_read r by (auto simp: conn_handleRead_def message_callbacks Let_def split: if_splits)
  then show ?thesis
  proof cases
    case 1
    then show ?thesis using onMessage_context by blast
  next
    case 2
    then show ?thesis using assms(2) by (auto simp: http_close dest: handleClose_context)
  next
    case 3
    then show ?thesis using assms(2) by (auto simp: handleError_def conn_log_error_def)
  qed
next
  case Ht_write
  then have "conn_run False Ev_write c = Some c'" using assms(1) by (simp add: http_write)
  then show ?thesis using conn_run_context assms(2) by fastforce
next
  case Ht_close
  then show ?thesis using assms by (auto simp: http_close dest: handleClose_context)
qed (use assms in \<open>auto simp: handleError_def conn_log_error_def\<close>)

lemma http_runs_same: "cn_context c \<noteq> None \<Longrightarrow> for_each (http_run_627 cb) es c = for_each (http_run cb) es c"
proof (induction es arbitrary: c)
  case (Cons e es)
  then show ?case using http_run_context [of cb e c]
    by (cases "http_run cb e c") (simp_all add: http_run_same)
qed simp

lemma established_same:
  "connectionEstablished_627 (HttpServer_callbacks_627 cb) p (TcpConnection_new_627 name p fd localAddress peerAddress ep) =
   connectionEstablished (HttpServer_callbacks cb) p (TcpConnection_new name p fd localAddress peerAddress ep)"
proof -
  let ?n = "TcpConnection_new name p fd localAddress peerAddress ep :: http_context connection"
  let ?tie = "\<lambda>c. (setState kConnected c)\<lparr>cn_ep := put_channel (cn_channel c) (channel_tie p (conn_channel c)) (cn_ep c)\<rparr>"
  have old: "?tie (setContext HttpContext_new ?n) = setContext HttpContext_new (?tie ?n)"
    by (simp add: setState_def setContext_def conn_channel_def)
  have on: "on_channel enableReading (setContext x c) = map_option (setContext x) (on_channel enableReading c)" for x :: http_context and c
    by (cases "enableReading (cn_channel c) (cn_ep c)") (simp_all add: on_channel_def setContext_def)
  have st: "cn_state ?n = kConnecting" "cn_channel (setState kConnected c) = cn_channel c" "cn_ep (setState kConnected c) = cn_ep c"
    "conn_channel (setState kConnected c) = conn_channel c" "cn_channel (setContext x c) = cn_channel c" "cn_ep (setContext x c) = cn_ep c"
    "cn_state (setContext x c) = cn_state c" for c and x :: http_context
    by (simp_all add: TcpConnection_new_def setState_def setContext_def conn_channel_def)
  show ?thesis
  proof (cases "on_channel enableReading (?tie ?n)")
    case None
    then show ?thesis unfolding connectionEstablished_627_def connectionEstablished_def TcpConnection_new_627_def Let_def st(1-4,7) old on
      by (simp add: assertion_def)
  next
    case (Some c3)
    then have "connected c3" using on_channel_state [OF Some] by (simp add: connected_def setState_def)
    then have "onConnection (setContext HttpContext_new c3) = onConnection c3"
      by (simp add: onConnection_def connected_def setContext_def)
    then show ?thesis using Some
      unfolding connectionEstablished_627_def connectionEstablished_def TcpConnection_new_627_def Let_def st(1-4,7) old on
      by (simp add: assertion_def HttpServer_callbacks_627_def HttpServer_callbacks_def run_connection_cb_def)
  qed
qed

text \<open>For the HTTP server the rewrite of the connections changed nothing: from its establishment on, through any events, to its
  end, a connection of the snapshot is the connection of the current tree, state by state and failure by failure, although its
  callbacks are called without a test and its context is a value that is always there.\<close>

theorem snapshot_connection_same:
  "do { c1 \<leftarrow> connectionEstablished_627 (HttpServer_callbacks_627 cb) p (TcpConnection_new_627 name p fd localAddress peerAddress ep);
        c2 \<leftarrow> for_each (http_run_627 cb) es c1;
        connectionDestroyed_627 (HttpServer_callbacks_627 cb) c2 } =
   do { c1 \<leftarrow> connectionEstablished (HttpServer_callbacks cb) p (TcpConnection_new name p fd localAddress peerAddress ep);
        c2 \<leftarrow> for_each (http_run cb) es c1;
        connectionDestroyed (HttpServer_callbacks cb) c2 }"
proof -
  let ?n = "TcpConnection_new name p fd localAddress peerAddress ep"
  have "connectionEstablished_627 (HttpServer_callbacks_627 cb) p (TcpConnection_new_627 name p fd localAddress peerAddress ep) =
      connectionEstablished (HttpServer_callbacks cb) p ?n"
    by (rule established_same)
  moreover have "connectionDestroyed_627 (HttpServer_callbacks_627 cb) c = connectionDestroyed (HttpServer_callbacks cb) c" for c
    by (simp add: connectionDestroyed_627_def connectionDestroyed_def HttpServer_callbacks_627_def HttpServer_callbacks_def
        run_connection_cb_def cong: if_cong)
  moreover have "cn_context c \<noteq> None" if "connectionEstablished (HttpServer_callbacks cb) p ?n = Some c" for c
    using that by (auto simp: http_established setContext_def)
  ultimately show ?thesis
    by (cases "connectionEstablished (HttpServer_callbacks cb) p ?n") (simp_all add: http_runs_same)
qed

subsection \<open>main and Singleton\<close>

text \<open>The snapshot listens on one port of the loopback address and sets no timer.\<close>

definition tinyws_main_627 :: "(string \<Rightarrow> 32 word option) \<Rightarrow> (nat \<Rightarrow> nat) \<Rightarrow> nat \<Rightarrow> int list
    \<Rightarrow> (sockaddr_in \<times> bool \<times> http_context server) option" where
  "tinyws_main_627 inet_pton thread_loop base numbers = do {
     let threadNums = (if length numbers > 0 then numbers ! 0 else 0);
     let listenAddress = InternetAddress_ip inet_pton ''127.0.0.1'' 8888;
     let server = HttpServer_new ''tinyWS'' base;
     server \<leftarrow> HttpServer_setThreadNum threadNums server;
     (listening, server) \<leftarrow> HttpServer_start thread_loop server;
     Some (listenAddress, listening, server) }"

lemma main_627_server:
  "map_option snd (tinyws_main_627 inet_pton thread_loop base numbers) =
   map_option (\<lambda>(addr, listening, sv, timers). (listening, sv)) (tinyws_main thread_loop base clock addrs numbers)"
  by (cases numbers) (auto simp: tinyws_main_627_def tinyws_main_ok HttpServer_setThreadNum_def HttpServer_start_def HttpServer_new_def
      TcpServer_new_def setThreadNumber_def setThreadNum_def server_start_def getAndSet_def atomic_new_def loop_pool_start_def
      EventLoopThreadPool_new_def Let_def)

text \<open>Nothing registers the destruction of the object.\<close>

definition singleton_init_627 :: "'a \<Rightarrow> 'a singleton \<Rightarrow> 'a singleton" where
  "singleton_init_627 new sg = sg\<lparr>sg_value := Some new\<rparr>"

definition singleton_instance_627 :: "'a \<Rightarrow> 'a singleton \<Rightarrow> ('a \<times> 'a singleton) option" where
  "singleton_instance_627 new sg = do {
     let sg1 = (if sg_once sg then sg else singleton_init_627 new (sg\<lparr>sg_once := True\<rparr>));
     v \<leftarrow> sg_value sg1;
     Some (v, sg1) }"

lemma singleton_627_leaks: "singleton_instance_627 new sg = Some (v, sg1) \<Longrightarrow> sg_atexit sg1 = sg_atexit sg"
  by (cases "sg_once sg") (auto simp: singleton_instance_627_def singleton_init_627_def Let_def Option.bind_eq_Some_conv)

lemma singleton_627_same: "singleton_instance_627 new sg = singleton_instance True new sg"
  by (simp add: singleton_instance_627_def singleton_instance_def singleton_init_627_def singleton_init_def)

end
