(* ===== verification/Spec2Isabelle.thy ===== *)
theory Spec2Isabelle
  imports Connector ThreadPool AsyncLogging WebParse WebSignal Utilities BenchRun MainTimer Snapshot
begin

text \<open>
  A verification development for TinyWebs, two HTTP servers in C++ for Linux and the load generator with which they
  are measured.

  \<^bold>\<open>The program.\<close> \<^verbatim>\<open>src/mutlithread\<close> is a multi-reactor server in three layers.
  \<^verbatim>\<open>multiThread/base\<close> has locks, threads, queues, thread pools, logging and small utilities.
  \<^verbatim>\<open>multiThread/net\<close> has event loops over epoll: a \<^verbatim>\<open>TcpServer\<close> accepts in one loop and hands each
  \<^verbatim>\<open>TcpConnection\<close> to one of a pool of loops, each in a thread of its own; loops talk to each other only by the
  functors they queue. A connection reads into and writes from a \<^verbatim>\<open>Buffer\<close>, is known to its loop by a
  \<^verbatim>\<open>Channel\<close>, and calls the callbacks its owner installed. \<^verbatim>\<open>multiThread/http\<close> installs callbacks that parse
  requests incrementally and send the answers a handler makes. \<^verbatim>\<open>WebBench\<close> is the load generator.
  \<^verbatim>\<open>src/web-5.11-pressure\<close> is a single-reactor server: one loop that reads and writes for all connections, a
  pool of workers that parse and build answers, and a sorted list of timers that closes old connections.

  \<^bold>\<open>Shared theories.\<close>
  \<^item> \<open>Prelude\<close>: error values, bytes, C strings and decimal numbers, lemmas about lists, maps and the option monad.
  \<^item> \<open>Byte_Queue\<close>: what a connection relies on in a buffer (locale \<open>byte_queue\<close>; \<open>Buffer\<close> interprets it).
  \<^item> \<open>Sorted_Map\<close>: \<^verbatim>\<open>std::map\<close> over strings (locale \<open>string_map\<close>, interpreted on the sorted list).
  \<^item> \<open>Monitor\<close>: \<^verbatim>\<open>base/MutexLock\<close> and \<^verbatim>\<open>Condition\<close> as steps of threads that run the operations of one object
    under one lock. Its locales are an invariant of the data under the lock (\<open>monitor_inv\<close>), a condition that, once
    it comes about, is broadcast (\<open>broadcast_monitor\<close>), and a count with one notification for each unit added
    (\<open>counted_monitor\<close>). The last two prove that no thread sleeps through what it waits for.
    Their interpretations are in \<open>Sync\<close>, \<open>ThreadPool\<close> and \<open>EventLoopThread\<close>.
  \<^item> \<open>Step_Invariant\<close>: what each step keeps, each run keeps; interpreted in \<open>HttpLife\<close>, \<open>WebMain\<close>, \<open>WebPool\<close>
    and \<open>WebSignal\<close>.

  \<^bold>\<open>The multi-reactor server, \<^verbatim>\<open>src/mutlithread/multiThread\<close>.\<close>
  \<^item> \<open>Buffer\<close> (\<^verbatim>\<open>net/Buffer\<close>): \<open>buf_inv\<close> is kept, and append, retrieve and the integer operations refine the
    byte queue. \<open>readFd\<close> takes in whatever the kernel has.
  \<^item> \<open>HttpRequest\<close>, \<open>HttpContext\<close>, \<open>HttpResponse\<close> (\<^verbatim>\<open>http/\<close>): the parser is shown to refine \<open>parse_str\<close>, a
    parser of the bytes alone; from that follow parsing in pieces, reading back a printed request, and when it
    returns at all. A response is serialised as HTTP/1.1 asks.
  \<^item> \<open>Channel\<close>, \<open>Epoll\<close> (\<^verbatim>\<open>net/Channel\<close>, \<^verbatim>\<open>net/Epoll\<close>, and the operations of \<^verbatim>\<open>EventLoop\<close> that end there):
    the dispatch of events, and that the interest list of the kernel is what the channels ask for.
  \<^item> \<open>TimerQueue\<close> (\<^verbatim>\<open>net/Timer\<close>, \<^verbatim>\<open>TimerQueue\<close>): the two sets of timers agree; which timers run, in
    which order, and for when the descriptor is armed.
  \<^item> \<open>EventLoop\<close> (\<^verbatim>\<open>net/EventLoop\<close>): the loop alone, and \<open>loop_step\<close>, the loop among threads that queue functors.
  \<^item> \<open>Socket\<close> (\<^verbatim>\<open>net/InternetAddress\<close>, \<^verbatim>\<open>net/Socket\<close>), with \<open>endpoint\<close>, the kernel's end of a stream.
  \<^item> \<open>TcpConnection\<close>: every operation on the connection, its channel and its endpoint together; \<open>Conn_Frame\<close> is what
    one connection leaves alone of its loop.
  \<^item> \<open>TcpServer\<close> (\<^verbatim>\<open>net/Acceptor\<close>, \<^verbatim>\<open>net/TcpServer\<close>): many connections on the pollers of several loops, and the
    functors in flight between them.
  \<^item> \<open>HttpServer\<close>: the callbacks and the handler of \<^verbatim>\<open>main.cpp\<close> on one connection. \<open>HttpLife\<close> puts them on top of
    \<open>TcpServer\<close>: every run of the server that \<^verbatim>\<open>main\<close> starts, by reduction to a server whose callbacks only send and
    shut down. \<open>MainTimer\<close> follows the timer \<^verbatim>\<open>main\<close> sets through the rounds of its queue.
  \<^item> \<open>Connector\<close> (\<^verbatim>\<open>net/Connector\<close>, \<^verbatim>\<open>net/TcpClient\<close>): the active side, its retries and its descriptors.
  \<^item> \<open>Sync\<close> (\<^verbatim>\<open>base/Atomic\<close>, \<^verbatim>\<open>Thread\<close>, \<^verbatim>\<open>CountDownLatch\<close>, \<^verbatim>\<open>BlockingQueue\<close>, \<^verbatim>\<open>BoundedBlockingQueue\<close>),
    \<open>ThreadPool\<close> (\<^verbatim>\<open>base/ThreadPool\<close>, \<^verbatim>\<open>ThreadPool_cpp11\<close>) and \<open>EventLoopThread\<close> (\<^verbatim>\<open>net/EventLoopThread\<close>,
    \<^verbatim>\<open>EventLoopThreadPool\<close>): programs of the monitor. First in, first out; no lost notification.
  \<^item> \<open>LogStream\<close> (\<^verbatim>\<open>base/LogStream\<close>, \<^verbatim>\<open>base/Logger\<close>) and \<open>AsyncLogging\<close> (\<^verbatim>\<open>base/FileUtil\<close>, \<^verbatim>\<open>LogFile\<close>,
    \<^verbatim>\<open>AsyncLogging\<close>, \<^verbatim>\<open>AsyncLogger\<close>): formatting, and the double buffering between loggers and writer.
  \<^item> \<open>Utilities\<close> (\<^verbatim>\<open>base/any\<close>, \<^verbatim>\<open>ObjectPool\<close>, \<^verbatim>\<open>Singleton\<close>, \<^verbatim>\<open>ThreadLocal\<close>).

  \<^bold>\<open>The single-reactor server, \<^verbatim>\<open>src/web-5.11-pressure\<close>.\<close>
  \<^item> \<open>WebConn\<close> (\<^verbatim>\<open>http_conn\<close>): the connection, with the parser in place over its array of bytes. \<open>WebParse\<close> relates
    the parser to \<open>parse_text\<close>, a reference on the text; \<open>WebReply\<close> shows what is answered.
  \<^item> \<open>WebTimer\<close> (\<^verbatim>\<open>lst_timer\<close>): the doubly linked list on a heap refines a sorted sequence.
  \<^item> \<open>WebPool\<close> (\<^verbatim>\<open>threadpool.h\<close>, \<^verbatim>\<open>locker\<close>): the queue, its semaphore and the workers.
  \<^item> \<open>WebMain\<close> (\<^verbatim>\<open>main.cpp\<close>): connections, timers and queue together; \<open>ws_ok\<close> is their invariant, kept by every event
    and by every step of a worker.
  \<^item> \<open>WebSignal\<close> (\<^verbatim>\<open>main.cpp\<close>, \<^verbatim>\<open>signals_set.h\<close>): the start with its exits, and the alarm clock, whose signal comes
    back to the loop through a pipe; \<open>wm_inv\<close> says where the one alarm is.

  \<^bold>\<open>The load generator, \<^verbatim>\<open>src/mutlithread/WebBench\<close>.\<close> \<open>WebBench\<close> has the options and the request, \<open>BenchRun\<close> the
  processes. The request is one both servers accept; the counts are those of the calls made.

  \<^bold>\<open>The older snapshot, \<^verbatim>\<open>src/mutlithread-6.27\<close>.\<close> \<open>Snapshot\<close> has the operations of its HTTP server that differ from the
  current ones (definitions with the suffix \<open>_627\<close>). Its acceptor, called once a connection, does what the current one does in a loop; its
  connections behave as the current ones do under the callbacks the HTTP server installs.

  \<^bold>\<open>Conventions.\<close> An \<open>option\<close> that is \<open>None\<close> is a run that does not go on: a failed assertion, an exception nobody
  catches, or undefined behaviour (an index outside an array, a null or dangling pointer, an \<^verbatim>\<open>int\<close> that overflows in
  the load generator). Theorems that nothing stops the program therefore state that the result is \<open>Some\<close>. Fields of
  fixed width in messages and counters that wrap are words; sizes and offsets are natural numbers, with the wrap written
  out where the code subtracts. Objects that are shared are addresses into a heap. What the kernel answers is an
  argument or a part of the state that steps consume; the theorems hold for all answers unless they name them.
  Parameters of the model are \<^verbatim>\<open>readv\<close>, the address conversions of the C library, the file system (\<open>fs\<close>), the clock and
  the addresses of new objects, and what \<^verbatim>\<open>printf\<close> makes of a floating point number.

  \<^bold>\<open>Loops.\<close> Loops that may not end are \<^verbatim>\<open>partial_function (option)\<close>, where \<open>None\<close> also is a loop without end:
  \<open>readFd\<close>, \<open>parse_loop\<close>, \<open>process_loop\<close>, \<open>write_loop\<close>, the walks \<open>add_loop\<close>, \<open>tick_loop\<close>, \<open>delete_loop\<close> of the
  timer list, and \<open>short_loop\<close>, \<open>connect_loop\<close>, \<open>keep_loop\<close>, \<open>collect\<close> of the load generator. Of \<open>connect_loop\<close> and \<open>keep_loop\<close> it is
  proved how they hang. For each of the others it is proved that it returns under the conditions in which the program calls
  it, or exactly when it does: \<open>readFd\<close> when the kernel has no more, \<open>parse_loop\<close> just when it expects a line,
  \<open>process_loop\<close> and \<open>write_loop\<close> on every connection of the server, the walks on every list that \<open>timers_ok\<close> describes,
  \<open>short_loop\<close> once the alarm goes off, \<open>collect\<close> when each child has written its line.
  The one fuel is the list of the polls'
  returns given to \<open>loop_rounds\<close>, one for each turn of the event loop, which in the program ends only when it is told to;
  the same loop without a bound is \<open>loop_step\<close>.

  \<^bold>\<open>Flaws.\<close> Where the code does something else than it means to, the model does what the code does and the theorem
  states it: a request line that stops the server, a destroyed server, timers that are due but
  not armed, a timer that stops after one slow round, log buffers that lose lines, timeouts by age, a load generator that hangs.

  \<^bold>\<open>Not modelled.\<close>
  \<^item> What \<^verbatim>\<open>src/mutlithread-6.27\<close> has in common with the current tree, its timer queue, whose sentry is an undefined pointer,
    and the unchanged third-party load generator under \<^verbatim>\<open>web-5.11-pressure/test_presure\<close>.
  \<^item> \<^verbatim>\<open>base/exception\<close>, \<^verbatim>\<open>base/noncopyable\<close>, \<^verbatim>\<open>net/CallBack.h\<close>, \<^verbatim>\<open>net/TimerId.h\<close>: a stack trace, and names of types.
  \<^item> \<^verbatim>\<open>ObjectPool_shared\<close>, which does not compile when it is used.
  \<^item> How \<^verbatim>\<open>getopt_long\<close> cuts the command line, printed messages and averages, and what the stream library does with a
    log line.
  \<^item> The memory model: a step between two lock operations is atomic, and racing plain accesses are interleaved in order.
  \<^item> Build files, documents, pictures and pages.
\<close>

end
